(* ===== verification/GC_Prelude.thy ===== *)
theory GC_Prelude
  imports Main "HOL-Library.Word" "HOL-Library.Multiset"
begin

unbundle bit_operations_syntax

text \<open>
  Shared vocabulary of the development: the machine types of the flat 64-bit platforms the
  collector supports, byte-addressed process memory with word loads and stores, and the
  resumption programs in which every operation of the manager is written.

  The C++ sources are translated for an LP64 target: \<open>std::size_t\<close> and
  \<open>std::uintptr_t\<close> are 64-bit words with wrap-around arithmetic, a pointer is its
  \<open>std::uintptr_t\<close> value, and the null pointer is 0.
\<close>

section \<open>Machine types\<close>

type_synonym byte = "8 word"
type_synonym u16 = "16 word"
type_synonym u32 = "32 word"
type_synonym u64 = "64 word"
type_synonym size_t = u64
type_synonym addr = u64
type_synonym memory = "addr \<Rightarrow> byte"

text \<open>\<open>sizeof(std::uintptr_t)\<close>.\<close>

abbreviation (input) word_size :: u64 where
  "word_size \<equiv> 8"

named_theorems prog_simps \<open>evaluation rules of resumption programs\<close>
named_theorems frame_simps \<open>fields an operation leaves alone\<close>

section \<open>Byte-addressed memory\<close>

text \<open>
  \<open>std::memcpy(&w, p, 8)\<close> into a \<open>std::uintptr_t\<close> and the matching store, little
  endian; addresses wrap at the top of the address space.
\<close>

definition load_word :: "memory \<Rightarrow> addr \<Rightarrow> u64" where
  "load_word m a =
     foldr (\<lambda>i w. push_bit (8 * i) (ucast (m (a + of_nat i))) OR w) [0..<8] 0"

definition store_word :: "memory \<Rightarrow> addr \<Rightarrow> u64 \<Rightarrow> memory" where
  "store_word m a v =
     (\<lambda>x. if x - a < word_size then ucast (drop_bit (8 * unat (x - a)) v) else m x)"

text \<open>\<open>std::memset(p, 0, n)\<close>.\<close>

definition memset_zero :: "memory \<Rightarrow> addr \<Rightarrow> size_t \<Rightarrow> memory" where
  "memset_zero m p n = (\<lambda>x. if x - p < n then 0 else m x)"

lemma bit_foldr_or:
  fixes f :: "'b \<Rightarrow> 'a::len word"
  shows "bit (foldr (\<lambda>i w. f i OR w) xs 0) n \<longleftrightarrow> (\<exists>i\<in>set xs. bit (f i) n)"
  by (induction xs) (auto simp: bit_simps)

lemma bit_byte_bound: "bit (b :: byte) n \<Longrightarrow> n < 8"
  by (drule bit_imp_le_length) simp

lemma bit_load_word:
  "bit (load_word m a) n \<longleftrightarrow> n < 64 \<and> bit (m (a + of_nat (n div 8))) (n mod 8)"
proof (intro iffI)
  assume "bit (load_word m a) n"
  then obtain i where i: "i < 8" "8 * i \<le> n" "n < 64" "bit (m (a + of_nat i)) (n - 8 * i)"
    unfolding load_word_def bit_foldr_or by (auto simp: bit_simps)
  have "n < 8 * Suc i" using bit_byte_bound [OF i(4)] i(2) by simp
  with i(2) have "n div 8 = i" by (intro div_nat_eqI) simp_all
  then have "n div 8 = i" "n mod 8 = n - 8 * i" by (simp_all add: modulo_nat_def)
  with i show "n < 64 \<and> bit (m (a + of_nat (n div 8))) (n mod 8)" by simp
next
  assume "n < 64 \<and> bit (m (a + of_nat (n div 8))) (n mod 8)"
  moreover have "n - 8 * (n div 8) = n mod 8" "8 * (n div 8) \<le> n"
    by (simp_all add: modulo_nat_def)
  ultimately show "bit (load_word m a) n"
    unfolding load_word_def bit_foldr_or
    by (auto simp: bit_simps intro!: bexI [of _ "n div 8"])
qed

lemma of_nat_small_less: "i < 8 \<Longrightarrow> (of_nat i :: u64) < 8 \<and> unat (of_nat i :: u64) = i"
  by (simp add: word_less_nat_alt unat_of_nat)

lemma word_add_small_apart:
  fixes x i :: u64
  assumes "8 \<le> x" "8 \<le> - x" "i < 8"
  shows "8 \<le> x + i"
proof (rule ccontr)
  assume "\<not> 8 \<le> x + i"
  then have j: "x + i < 8" by simp
  show False
  proof (cases "x + i \<le> i")
    case True
    then have "unat (i - (x + i)) = unat i - unat (x + i)" by (rule unat_sub)
    then have "unat (- x) < 8" using assms(3) by (simp add: word_less_nat_alt)
    with assms(2) show False by (simp add: word_le_nat_alt)
  next
    case False
    then have "unat ((x + i) - i) = unat (x + i) - unat i" by (intro unat_sub) simp
    then have "unat x < 8" using j by (simp add: word_less_nat_alt)
    with assms(1) show False by (simp add: word_le_nat_alt)
  qed
qed

lemma word_add_small_inside:
  fixes x n i :: u64
  shows "x < n \<Longrightarrow> 8 \<le> n - x \<Longrightarrow> i < 8 \<Longrightarrow> x + i < n"
  using unat_sub [of x n]
  by (auto simp: word_less_nat_alt word_le_nat_alt unat_word_ariths
      intro!: le_less_trans [OF mod_less_eq_dividend])

lemma unat_minus_step:
  fixes f c :: u64
  assumes "8 \<le> f - c"
  shows "unat (f - (c + 8)) = unat (f - c) - 8"
proof -
  have "f - (c + 8) = (f - c) - 8" by (simp add: diff_diff_eq)
  moreover have "unat (f - c - 8) = unat (f - c) - 8" using unat_sub [OF assms] by simp
  ultimately show ?thesis by (rule ssubst)
qed

lemma load_store_same [simp]: "load_word (store_word m a v) a = v"
proof (rule bit_word_eqI)
  fix n assume "n < LENGTH(64)"
  then have "n < 64" "n div 8 < 8" "8 * (n div 8) + n mod 8 = n" by simp_all
  then show "bit (load_word (store_word m a v) a) n \<longleftrightarrow> bit v n"
    by (simp add: bit_load_word store_word_def of_nat_small_less bit_simps)
qed

text \<open>Words at addresses at least eight bytes apart, in either direction, do not overlap.\<close>

lemma load_store_apart:
  assumes "word_size \<le> a - b" "word_size \<le> b - a"
  shows "load_word (store_word m b v) a = load_word m a"
proof (rule bit_word_eqI)
  fix n assume "n < LENGTH(64)"
  then have "n div 8 < 8" by simp
  then have "8 \<le> (a - b) + of_nat (n div 8)"
    using assms of_nat_small_less by (intro word_add_small_apart) auto
  then have "\<not> a + of_nat (n div 8) - b < 8" by (simp add: algebra_simps)
  then show "bit (load_word (store_word m b v) a) n \<longleftrightarrow> bit (load_word m a) n"
    by (simp add: bit_load_word store_word_def)
qed

lemma load_memset_inside:
  assumes "a - p < n" "word_size \<le> n - (a - p)"
  shows "load_word (memset_zero m p n) a = 0"
proof (rule bit_word_eqI)
  fix k assume "k < LENGTH(64)"
  then have "k div 8 < 8" by simp
  then have "(a - p) + of_nat (k div 8) < n"
    using assms of_nat_small_less by (intro word_add_small_inside) auto
  then have "a + of_nat (k div 8) - p < n" by (simp add: algebra_simps)
  then show "bit (load_word (memset_zero m p n) a) k \<longleftrightarrow> bit (0::u64) k"
    by (simp add: bit_load_word memset_zero_def)
qed

section \<open>Programs: errors, waiting, and user code as values\<close>

text \<open>The exceptions the library throws or passes on.\<close>

datatype logic_reason =
    Not_Registered
  | Unknown_Allocation
  | Shutdown_During_Construction
  | No_Stack_Bounds

datatype gc_exn =
    Bad_Alloc
  | Logic_Error logic_reason
  | Invalid_Argument
  | Out_Of_Range
  | Length_Error
  | User_Exn nat

text \<open>
  An operation maps the shared state to a program and a new state. A program has returned,
  has thrown, has called \<open>std::terminate\<close>, loops forever, or waits: \<open>Wait p k\<close>
  has released the mutex and goes on with \<open>k\<close>, holding it again, in some later state that
  satisfies \<open>p\<close>. Acquiring the mutex is \<open>Wait\<close> with the condition that always holds;
  \<open>std::condition_variable::wait\<close> is \<open>Wait\<close> with its predicate. Between two
  waits a thread runs without interference, which is what the mutex gives the sources.
\<close>

datatype (dead 's, 'a) prog =
    Return 'a
  | Throw gc_exn
  | Terminate
  | Diverge
  | Wait "'s \<Rightarrow> bool" "'s \<Rightarrow> ('s, 'a) prog \<times> 's"

type_synonym ('s, 'a) comp = "'s \<Rightarrow> ('s, 'a) prog \<times> 's"

primrec bind_prog ::
    "('s, 'a) prog \<Rightarrow> ('a \<Rightarrow> ('s, 'b) comp) \<Rightarrow> ('s, 'b) comp" where
  "bind_prog (Return x) f = f x"
| "bind_prog (Throw e) f = (\<lambda>s. (Throw e, s))"
| "bind_prog Terminate f = (\<lambda>s. (Terminate, s))"
| "bind_prog Diverge f = (\<lambda>s. (Diverge, s))"
| "bind_prog (Wait p k) f =
     (\<lambda>s. (Wait p (\<lambda>t. case map_prod (\<lambda>r. bind_prog r f) id (k t) of (g, t') \<Rightarrow> g t'), s))"

text \<open>Sequencing: \<open>bindp m f\<close> runs \<open>m\<close> and passes its value on.\<close>

definition bindp ::
    "('s, 'a) prog \<times> 's \<Rightarrow> ('a \<Rightarrow> ('s, 'b) comp) \<Rightarrow> ('s, 'b) prog \<times> 's" where
  "bindp m f = bind_prog (fst m) f (snd m)"

primrec catch_prog ::
    "('s, 'a) prog \<Rightarrow> (gc_exn \<Rightarrow> ('s, 'a) comp) \<Rightarrow> ('s, 'a) comp" where
  "catch_prog (Return x) h = (\<lambda>s. (Return x, s))"
| "catch_prog (Throw e) h = h e"
| "catch_prog Terminate h = (\<lambda>s. (Terminate, s))"
| "catch_prog Diverge h = (\<lambda>s. (Diverge, s))"
| "catch_prog (Wait p k) h =
     (\<lambda>s. (Wait p (\<lambda>t. case map_prod (\<lambda>r. catch_prog r h) id (k t) of (g, t') \<Rightarrow> g t'), s))"

text \<open>\<open>try { m } catch (...) { h }\<close>.\<close>

definition catchp ::
    "('s, 'a) prog \<times> 's \<Rightarrow> (gc_exn \<Rightarrow> ('s, 'a) comp) \<Rightarrow> ('s, 'a) prog \<times> 's" where
  "catchp m h = catch_prog (fst m) h (snd m)"

text \<open>A call in a \<open>noexcept\<close> function: an exception that leaves it terminates the process.\<close>

definition noexceptp :: "('s, 'a) prog \<times> 's \<Rightarrow> ('s, 'a) prog \<times> 's" where
  "noexceptp m = catchp m (\<lambda>_ s. (Terminate, s))"

text \<open>\<open>std::unique_lock<std::mutex> lock(mutex_)\<close>.\<close>

definition lock_mutex :: "('s, unit) comp" where
  "lock_mutex s = (Wait (\<lambda>_. True) (\<lambda>t. (Return (), t)), s)"

subsection \<open>Running without interference\<close>

text \<open>
  The run of one program to its end while no other thread takes a step: a wait goes on at
  once when its condition holds, and is stuck when it does not.
\<close>

datatype 'a outcome =
    Done 'a
  | Threw gc_exn
  | Terminated
  | Diverged
  | Stuck

primrec run_prog :: "('s, 'a) prog \<Rightarrow> 's \<Rightarrow> 'a outcome \<times> 's" where
  "run_prog (Return x) = (\<lambda>s. (Done x, s))"
| "run_prog (Throw e) = (\<lambda>s. (Threw e, s))"
| "run_prog Terminate = (\<lambda>s. (Terminated, s))"
| "run_prog Diverge = (\<lambda>s. (Diverged, s))"
| "run_prog (Wait p k) =
     (\<lambda>s. if p s then (case map_prod run_prog id (k s) of (g, s') \<Rightarrow> g s') else (Stuck, s))"

definition run :: "('s, 'a) prog \<times> 's \<Rightarrow> 'a outcome \<times> 's" where
  "run m = run_prog (fst m) (snd m)"

fun bind_outcome ::
    "'a outcome \<times> 's \<Rightarrow> ('a \<Rightarrow> 's \<Rightarrow> 'b outcome \<times> 's) \<Rightarrow> 'b outcome \<times> 's" where
  "bind_outcome (Done x, s) f = f x s"
| "bind_outcome (Threw e, s) f = (Threw e, s)"
| "bind_outcome (Terminated, s) f = (Terminated, s)"
| "bind_outcome (Diverged, s) f = (Diverged, s)"
| "bind_outcome (Stuck, s) f = (Stuck, s)"

fun catch_outcome ::
    "'a outcome \<times> 's \<Rightarrow> (gc_exn \<Rightarrow> 's \<Rightarrow> 'a outcome \<times> 's) \<Rightarrow> 'a outcome \<times> 's" where
  "catch_outcome (Threw e, s) h = h e s"
| "catch_outcome (Done x, s) h = (Done x, s)"
| "catch_outcome (Terminated, s) h = (Terminated, s)"
| "catch_outcome (Diverged, s) h = (Diverged, s)"
| "catch_outcome (Stuck, s) h = (Stuck, s)"

lemma run_Wait [prog_simps]:
  "run (Wait p k, s) = (if p s then run (k s) else (Stuck, s))"
  by (cases "k s") (simp add: run_def)

lemma run_leaf [prog_simps]:
  "run (Return x, s) = (Done x, s)"
  "run (Throw e, s) = (Threw e, s)"
  "run (Terminate, s) = (Terminated, s)"
  "run (Diverge, s) = (Diverged, s)"
  by (simp_all add: run_def)

lemma bind_prog_Wait: "bind_prog (Wait p k) f s = (Wait p (\<lambda>t. bindp (k t) f), s)"
  by (simp add: bindp_def fun_eq_iff split: prod.splits) (metis fst_conv snd_conv map_prod_simp id_apply prod.collapse)

lemma catch_prog_Wait: "catch_prog (Wait p k) h s = (Wait p (\<lambda>t. catchp (k t) h), s)"
  by (simp add: catchp_def fun_eq_iff split: prod.splits) (metis fst_conv snd_conv map_prod_simp id_apply prod.collapse)

declare bind_prog.simps(5) [simp del] catch_prog.simps(5) [simp del]

lemma run_bind_prog:
  "run (bind_prog r f s) = bind_outcome (run (r, s)) (\<lambda>x t. run (f x t))"
proof (induction r arbitrary: s)
  case (Wait p k)
  have "run (bindp (k s) f) = bind_outcome (run (k s)) (\<lambda>x t. run (f x t))"
    using Wait [of "k s" "fst (k s)" "snd (k s)"] by (simp add: bindp_def fsts.simps)
  then show ?case by (simp add: bind_prog_Wait run_Wait)
qed (simp_all add: run_leaf)

lemma run_catch_prog:
  "run (catch_prog r h s) = catch_outcome (run (r, s)) (\<lambda>e t. run (h e t))"
proof (induction r arbitrary: s)
  case (Wait p k)
  have "run (catchp (k s) h) = catch_outcome (run (k s)) (\<lambda>e t. run (h e t))"
    using Wait [of "k s" "fst (k s)" "snd (k s)"] by (simp add: catchp_def fsts.simps)
  then show ?case by (simp add: catch_prog_Wait run_Wait)
qed (simp_all add: run_leaf)

lemma run_bindp [prog_simps]:
  "run (bindp m f) = bind_outcome (run m) (\<lambda>x t. run (f x t))"
  by (simp add: bindp_def run_bind_prog)

lemma run_catchp [prog_simps]:
  "run (catchp m h) = catch_outcome (run m) (\<lambda>e t. run (h e t))"
  by (simp add: catchp_def run_catch_prog)

lemma run_lock_mutex [prog_simps]: "run (lock_mutex s) = (Done (), s)"
  by (simp add: lock_mutex_def prog_simps)

lemma bindp_Return [simp]: "bindp (Return x, s) f = f x s"
  by (simp add: bindp_def)

lemma bindp_Throw [simp]: "bindp (Throw e, s) f = (Throw e, s)"
  by (simp add: bindp_def)

end
