(* ===== verification/Rely_Guarantee.thy ===== *)
theory Rely_Guarantee
  imports GC_Prelude
begin

text \<open>
  Rely-guarantee reasoning about programs that wait. Several threads run programs on one state;
  a step lets one thread go on from a wait whose condition holds up to its next wait. The
  judgement \<open>rg\<close> says that from a given point every step of a program is within its guarantee
  and every wait is of an allowed form, whatever the other threads do within the rely while the
  program waits. It carries a ghost value, chosen at each wait, for what the thread then owns.
  The locale \<open>protocol\<close> has the laws under which threads with this judgement run together.
\<close>

section \<open>The judgement\<close>

text \<open>
  A condition at the end of a program, on the ghost and the state in which the last step began
  and on the final state.
\<close>

type_synonym ('g, 's) step_post = "'g \<Rightarrow> 's \<Rightarrow> 's \<Rightarrow> bool"

primrec rg_prog ::
    "('g \<Rightarrow> 's \<Rightarrow> 'g \<Rightarrow> 's \<Rightarrow> bool) \<Rightarrow> ('g \<Rightarrow> 's \<Rightarrow> 's \<Rightarrow> bool) \<Rightarrow> ('g \<Rightarrow> ('s \<Rightarrow> bool) \<Rightarrow> 's \<Rightarrow> bool) \<Rightarrow>
     ('a \<Rightarrow> ('g, 's) step_post) \<Rightarrow> (gc_exn \<Rightarrow> ('g, 's) step_post) \<Rightarrow>
     ('s, 'a) prog \<Rightarrow> ('g, 's) step_post" where
  "rg_prog G R W Q E (Return x) = (\<lambda>g0 s0 s. Q x g0 s0 s)"
| "rg_prog G R W Q E (Throw e) = (\<lambda>g0 s0 s. E e g0 s0 s)"
| "rg_prog G R W Q E Terminate = (\<lambda>g0 s0 s. True)"
| "rg_prog G R W Q E Diverge = (\<lambda>g0 s0 s. True)"
| "rg_prog G R W Q E (Wait p k) = (\<lambda>g0 s0 s. \<exists>g.
     G g0 s0 g s \<and> W g p s \<and>
     (\<forall>s1. R g s s1 \<longrightarrow> p s1 \<longrightarrow>
        (case map_prod (\<lambda>r. rg_prog G R W Q E r) id (k s1) of (f, s2) \<Rightarrow> f g s1 s2)))"

definition rg ::
    "('g \<Rightarrow> 's \<Rightarrow> 'g \<Rightarrow> 's \<Rightarrow> bool) \<Rightarrow> ('g \<Rightarrow> 's \<Rightarrow> 's \<Rightarrow> bool) \<Rightarrow> ('g \<Rightarrow> ('s \<Rightarrow> bool) \<Rightarrow> 's \<Rightarrow> bool) \<Rightarrow>
     ('a \<Rightarrow> ('g, 's) step_post) \<Rightarrow> (gc_exn \<Rightarrow> ('g, 's) step_post) \<Rightarrow>
     'g \<Rightarrow> 's \<Rightarrow> ('s, 'a) prog \<times> 's \<Rightarrow> bool" where
  "rg G R W Q E g0 s0 m = rg_prog G R W Q E (fst m) g0 s0 (snd m)"

lemma rg_leaf [simp]:
  "rg G R W Q E g0 s0 (Return x, s) = Q x g0 s0 s" "rg G R W Q E g0 s0 (Throw e, s) = E e g0 s0 s"
  "rg G R W Q E g0 s0 (Terminate, s)" "rg G R W Q E g0 s0 (Diverge, s)"
  by (simp_all add: rg_def)

lemma rg_Wait [simp]:
  "rg G R W Q E g0 s0 (Wait p k, s) \<longleftrightarrow>
     (\<exists>g. G g0 s0 g s \<and> W g p s \<and> (\<forall>s1. R g s s1 \<longrightarrow> p s1 \<longrightarrow> rg G R W Q E g s1 (k s1)))"
  by (simp add: rg_def case_prod_unfold)

section \<open>Sequences and handlers\<close>

lemma rg_bind_prog:
  "rg G R W Q E g0 s0 (bind_prog r f s) = rg G R W (\<lambda>x g0 s0 s. rg G R W Q E g0 s0 (f x s)) E g0 s0 (r, s)"
proof (induction r arbitrary: g0 s0 s)
  case (Wait p k)
  have "rg G R W Q E g s1 (bindp (k s1) f) = rg G R W (\<lambda>x g0 s0 s. rg G R W Q E g0 s0 (f x s)) E g s1 (k s1)" for g s1
    using Wait [of "k s1" "fst (k s1)" g s1 "snd (k s1)"] by (simp add: bindp_def fsts.simps)
  then show ?case by (simp add: bind_prog_Wait del: bind_prog.simps)
qed simp_all

lemma rg_bind:
  "rg G R W Q E g0 s0 (bindp m f) = rg G R W (\<lambda>x g0 s0 s. rg G R W Q E g0 s0 (f x s)) E g0 s0 m"
  by (cases m) (simp add: bindp_def rg_bind_prog)

lemma rg_catch_prog:
  "rg G R W Q E g0 s0 (catch_prog r h s) = rg G R W Q (\<lambda>e g0 s0 s. rg G R W Q E g0 s0 (h e s)) g0 s0 (r, s)"
proof (induction r arbitrary: g0 s0 s)
  case (Wait p k)
  have "rg G R W Q E g s1 (catchp (k s1) h) = rg G R W Q (\<lambda>e g0 s0 s. rg G R W Q E g0 s0 (h e s)) g s1 (k s1)" for g s1
    using Wait [of "k s1" "fst (k s1)" g s1 "snd (k s1)"] by (simp add: catchp_def fsts.simps)
  then show ?case by (simp add: catch_prog_Wait del: catch_prog.simps)
qed simp_all

lemma rg_catch:
  "rg G R W Q E g0 s0 (catchp m h) = rg G R W Q (\<lambda>e g0 s0 s. rg G R W Q E g0 s0 (h e s)) g0 s0 m"
  by (cases m) (simp add: catchp_def rg_catch_prog)

lemma rg_prog_mono:
  assumes "\<And>x g0 s0 s. Q x g0 s0 s \<Longrightarrow> Q' x g0 s0 s" "\<And>e g0 s0 s. E e g0 s0 s \<Longrightarrow> E' e g0 s0 s"
  shows "rg G R W Q E g0 s0 (r, s) \<Longrightarrow> rg G R W Q' E' g0 s0 (r, s)"
proof (induction r arbitrary: g0 s0 s)
  case (Wait p k)
  have "rg G R W Q E g s1 (k s1) \<Longrightarrow> rg G R W Q' E' g s1 (k s1)" for g s1
    using Wait(1) [of "k s1" "fst (k s1)" g s1 "snd (k s1)"] by (simp add: fsts.simps)
  with Wait(2) show ?case by auto
qed (simp_all add: assms)

lemma rg_mono:
  "rg G R W Q E g0 s0 m \<Longrightarrow> (\<And>x g0 s0 s. Q x g0 s0 s \<Longrightarrow> Q' x g0 s0 s) \<Longrightarrow>
   (\<And>e g0 s0 s. E e g0 s0 s \<Longrightarrow> E' e g0 s0 s) \<Longrightarrow> rg G R W Q' E' g0 s0 m"
  using rg_prog_mono [of Q Q' E E' G R W g0 s0 "fst m" "snd m"] by simp

lemma rg_seq:
  "rg G R W T E g0 s0 m \<Longrightarrow> (\<And>x g0 s0 s. T x g0 s0 s \<Longrightarrow> rg G R W Q E g0 s0 (f x s)) \<Longrightarrow>
   rg G R W Q E g0 s0 (bindp m f)"
  by (simp add: rg_bind) (rule rg_mono)

lemma rg_try:
  "rg G R W Q T g0 s0 m \<Longrightarrow> (\<And>e g0 s0 s. T e g0 s0 s \<Longrightarrow> rg G R W Q E g0 s0 (h e s)) \<Longrightarrow>
   rg G R W Q E g0 s0 (catchp m h)"
  by (simp add: rg_catch) (rule rg_mono)

text \<open>Code that runs without a wait, within a relation on states.\<close>

definition in_step :: "('s \<Rightarrow> 's \<Rightarrow> bool) \<Rightarrow> 's \<Rightarrow> ('s, 'a) prog \<times> 's \<Rightarrow> bool" where
  "in_step K s m \<longleftrightarrow> (case fst m of Wait p k \<Rightarrow> False | _ \<Rightarrow> True) \<and> K s (snd m)"

lemma in_step_leaf [simp]:
  "in_step K s (Return x, s') = K s s'" "in_step K s (Throw e, s') = K s s'"
  "in_step K s (Diverge, s') = K s s'" "in_step K s (Terminate, s') = K s s'"
  by (simp_all add: in_step_def)

lemma in_step_mono: "in_step K s m \<Longrightarrow> (\<And>s'. K s s' \<Longrightarrow> L u s') \<Longrightarrow> in_step L u m"
  by (auto simp: in_step_def)

lemma in_step_bind:
  assumes "in_step K s m" "\<And>x s'. K s s' \<Longrightarrow> in_step K s (f x s')"
  shows "in_step K s (bindp m f)"
  using assms by (cases m; cases "fst m") (auto simp: in_step_def bindp_def)

lemma in_step_rg:
  assumes "in_step K s m" "\<And>x s'. K s s' \<Longrightarrow> Q x g0 s0 s'" "\<And>e s'. K s s' \<Longrightarrow> E e g0 s0 s'"
  shows "rg G R W Q E g0 s0 m"
  using assms by (cases m; cases "fst m") (auto simp: in_step_def)

section \<open>Threads that run together\<close>

text \<open>Where a thread is after a step: in user code, at a wait, or nowhere, when the process has
  been terminated or the thread loops with the mutex held.\<close>

primrec next_prog :: "('s, 'a) prog \<Rightarrow> ('s, 'a) prog option option" where
  "next_prog (Return x) = Some None"
| "next_prog (Throw e) = Some None"
| "next_prog Terminate = None"
| "next_prog Diverge = None"
| "next_prog (Wait p k) = Some (Some (Wait p k))"

text \<open>
  The laws: what a thread guarantees keeps what it owns and is within the rely of every other
  thread whose ghost is apart from its own; relies compose; a wait and an idle thread stay as
  they are within the rely.
\<close>

locale protocol =
  fixes guar :: "'i \<Rightarrow> 'g \<Rightarrow> 's \<Rightarrow> 'g \<Rightarrow> 's \<Rightarrow> bool"
    and rely :: "'i \<Rightarrow> 'g \<Rightarrow> 's \<Rightarrow> 's \<Rightarrow> bool"
    and waiting :: "'i \<Rightarrow> 'g \<Rightarrow> ('s \<Rightarrow> bool) \<Rightarrow> 's \<Rightarrow> bool"
    and idle :: "'i \<Rightarrow> 'g \<Rightarrow> 's \<Rightarrow> bool"
    and owns :: "'g \<Rightarrow> 's \<Rightarrow> bool"
    and apart :: "'g \<Rightarrow> 'g \<Rightarrow> bool"
  assumes guar_owns: "guar t g0 s0 g s \<Longrightarrow> owns g s"
    and guar_rely: "guar t g0 s0 g s \<Longrightarrow> u \<noteq> t \<Longrightarrow> owns x s0 \<Longrightarrow> apart g0 x \<Longrightarrow> rely u x s0 s \<and> apart g x"
    and rely_owns: "rely u x s s' \<Longrightarrow> owns x s'"
    and rely_refl: "owns x s \<Longrightarrow> rely u x s s"
    and rely_trans: "rely u x s s' \<Longrightarrow> rely u x s' s'' \<Longrightarrow> rely u x s s''"
    and waiting_rely: "waiting u x p s \<Longrightarrow> rely u x s s' \<Longrightarrow> waiting u x p s'"
    and idle_rely: "idle u x s \<Longrightarrow> rely u x s s' \<Longrightarrow> idle u x s'"
    and apart_sym: "apart g x \<Longrightarrow> apart x g"
begin

text \<open>A program whose thread is idle again when it ends.\<close>

definition runs :: "'i \<Rightarrow> 'g \<Rightarrow> 's \<Rightarrow> ('s, 'a) prog \<times> 's \<Rightarrow> bool" where
  "runs u g0 s0 m = rg (guar u) (rely u) (waiting u)
     (\<lambda>_ g0 s0 s. \<exists>g. guar u g0 s0 g s \<and> idle u g s) (\<lambda>_ g0 s0 s. \<exists>g. guar u g0 s0 g s \<and> idle u g s) g0 s0 m"

definition thread_ok :: "'i \<Rightarrow> 'g \<Rightarrow> ('s, 'a) prog option \<Rightarrow> 's \<Rightarrow> bool" where
  "thread_ok u g q s \<longleftrightarrow>
     (case q of
        None \<Rightarrow> idle u g s
      | Some r \<Rightarrow> \<exists>p k. r = Wait p k \<and> waiting u g p s \<and>
          (\<forall>s1. rely u g s s1 \<longrightarrow> p s1 \<longrightarrow> runs u g s1 (k s1)))"

definition pool_ok :: "('i \<Rightarrow> 'g) \<Rightarrow> ('i \<Rightarrow> ('s, 'a) prog option) \<Rightarrow> 's \<Rightarrow> bool" where
  "pool_ok gh P s \<longleftrightarrow>
     (\<forall>u. owns (gh u) s \<and> thread_ok u (gh u) (P u) s) \<and> (\<forall>t u. t \<noteq> u \<longrightarrow> apart (gh t) (gh u))"

lemma pool_ok_owns: "pool_ok gh P s \<Longrightarrow> owns (gh u) s"
  by (simp add: pool_ok_def)

lemma pool_ok_idle:
  assumes "pool_ok gh P s" "P u = None"
  shows "idle u (gh u) s"
proof -
  have "thread_ok u (gh u) (P u) s" using assms(1) by (simp add: pool_ok_def)
  with assms(2) show ?thesis by (simp add: thread_ok_def)
qed

lemma pool_ok_waiting:
  assumes "pool_ok gh P s" "P u = Some r"
  shows "\<exists>p k. r = Wait p k \<and> waiting u (gh u) p s"
proof -
  have "thread_ok u (gh u) (P u) s" using assms(1) by (simp add: pool_ok_def)
  with assms(2) show ?thesis by (auto simp: thread_ok_def)
qed

lemma thread_ok_rely: "thread_ok u g q s \<Longrightarrow> rely u g s s' \<Longrightarrow> thread_ok u g q s'"
  by (auto simp: thread_ok_def split: option.splits intro: waiting_rely rely_trans idle_rely)

lemma runs_next:
  assumes "runs u g0 s0 (r, s)" "next_prog r = Some q"
  obtains g where "guar u g0 s0 g s" "thread_ok u g q s"
proof -
  have "\<exists>g. guar u g0 s0 g s \<and> thread_ok u g q s"
    using assms by (cases r) (auto simp: runs_def thread_ok_def)
  then show ?thesis using that by blast
qed

lemma pool_ok_step:
  assumes "pool_ok gh P s" "guar u (gh u) s g s'" "thread_ok u g q s'"
  shows "pool_ok (gh(u := g)) (P(u := q)) s'"
proof -
  have "rely v (gh v) s s' \<and> apart g (gh v)" if "v \<noteq> u" for v
    using guar_rely [OF assms(2) that] assms(1) that by (simp add: pool_ok_def)
  then show ?thesis
    using assms guar_owns [OF assms(2)]
    by (auto simp: pool_ok_def intro: thread_ok_rely rely_owns apart_sym)
qed

text \<open>The two kinds of step: a thread starts a program, or goes on from a wait.\<close>

lemma start_ok:
  assumes "pool_ok gh P s" "runs u (gh u) s m" "m = (r, s')" "next_prog r = Some q"
  obtains g where "guar u (gh u) s g s'" "pool_ok (gh(u := g)) (P(u := q)) s'"
  using assms(2-4) runs_next pool_ok_step [OF assms(1)] by metis

lemma resume_ok:
  assumes "pool_ok gh P s" "P u = Some (Wait p k)" "p s" "k s = (r, s')" "next_prog r = Some q"
  obtains g where "guar u (gh u) s g s'" "pool_ok (gh(u := g)) (P(u := q)) s'"
proof -
  have "thread_ok u (gh u) (P u) s" "owns (gh u) s" using assms(1) by (simp_all add: pool_ok_def)
  then have "runs u (gh u) s (k s)" using assms(2,3) rely_refl by (auto simp: thread_ok_def)
  from start_ok [OF assms(1) this assms(4,5)] that show ?thesis by blast
qed

end

end
