(* ===== verification/Std_Map.thy ===== *)
theory Std_Map
  imports GC_Prelude
begin

text \<open>
  \<open>std::map\<close> as the sources use it: an association list in key order. Iteration is list
  iteration, an iterator is a position. The interface the manager relies on is the locale
  \<open>ordered_map\<close>; it is interpreted on the list operations at the end.
\<close>

section \<open>Operations\<close>

type_synonym ('k, 'v) omap = "('k \<times> 'v) list"

definition om_wf :: "('k::linorder, 'v) omap \<Rightarrow> bool" where
  "om_wf m \<longleftrightarrow> sorted_wrt (<) (map fst m)"

text \<open>\<open>emplace\<close> keeps an existing node with the key.\<close>

fun om_emplace :: "'k::linorder \<Rightarrow> 'v \<Rightarrow> ('k, 'v) omap \<Rightarrow> ('k, 'v) omap" where
  "om_emplace k v [] = [(k, v)]"
| "om_emplace k v (p # m) =
     (if k < fst p then (k, v) # p # m
      else if k = fst p then p # m
      else p # om_emplace k v m)"

definition om_find :: "'k \<Rightarrow> ('k, 'v) omap \<Rightarrow> 'v option" where
  "om_find k m = map_of m k"

definition om_erase :: "'k \<Rightarrow> ('k, 'v) omap \<Rightarrow> ('k, 'v) omap" where
  "om_erase k m = filter (\<lambda>p. fst p \<noteq> k) m"

text \<open>A write through the reference or iterator of an existing node.\<close>

definition om_adjust :: "'k \<Rightarrow> ('v \<Rightarrow> 'v) \<Rightarrow> ('k, 'v) omap \<Rightarrow> ('k, 'v) omap" where
  "om_adjust k f m = map (\<lambda>p. if fst p = k then (fst p, f (snd p)) else p) m"

text \<open>\<open>upper_bound(k)\<close>: the position of the first key greater than \<open>k\<close>.\<close>

definition om_upper_bound :: "'k::linorder \<Rightarrow> ('k, 'v) omap \<Rightarrow> nat" where
  "om_upper_bound k m = length (takeWhile (\<lambda>p. fst p \<le> k) m)"

text \<open>
  \<open>auto it = m.upper_bound(k); if (it == m.begin()) return none; --it;\<close> leaves the iterator
  at the last node with a key of at most \<open>k\<close>.
\<close>

definition om_floor :: "'k::linorder \<Rightarrow> ('k, 'v) omap \<Rightarrow> ('k \<times> 'v) option" where
  "om_floor k m =
     (let it = om_upper_bound k m in if it = 0 then None else Some (m ! (it - 1)))"

section \<open>The interface\<close>

locale ordered_map =
  fixes invar :: "'m \<Rightarrow> bool"
    and empty :: 'm
    and find :: "'k::linorder \<Rightarrow> 'm \<Rightarrow> 'v option"
    and emplace :: "'k \<Rightarrow> 'v \<Rightarrow> 'm \<Rightarrow> 'm"
    and erase :: "'k \<Rightarrow> 'm \<Rightarrow> 'm"
    and adjust :: "'k \<Rightarrow> ('v \<Rightarrow> 'v) \<Rightarrow> 'm \<Rightarrow> 'm"
    and floor_of :: "'k \<Rightarrow> 'm \<Rightarrow> ('k \<times> 'v) option"
  assumes invar_empty: "invar empty"
    and invar_emplace: "invar m \<Longrightarrow> invar (emplace k v m)"
    and invar_erase: "invar m \<Longrightarrow> invar (erase k m)"
    and invar_adjust: "invar m \<Longrightarrow> invar (adjust k f m)"
    and find_empty: "find k empty = None"
    and find_emplace: "invar m \<Longrightarrow> find k' (emplace k v m) =
          (if k' = k \<and> find k m = None then Some v else find k' m)"
    and find_erase: "invar m \<Longrightarrow> find k' (erase k m) = (if k' = k then None else find k' m)"
    and find_adjust: "invar m \<Longrightarrow> find k' (adjust k f m) =
          (if k' = k then map_option f (find k m) else find k' m)"
    and floor_Some: "invar m \<Longrightarrow> floor_of k m = Some (k0, v) \<longleftrightarrow>
          find k0 m = Some v \<and> k0 \<le> k \<and> (\<forall>k1 w. find k1 m = Some w \<longrightarrow> k1 \<le> k \<longrightarrow> k1 \<le> k0)"
    and floor_None: "invar m \<Longrightarrow> floor_of k m = None \<longleftrightarrow>
          (\<forall>k1 w. find k1 m = Some w \<longrightarrow> k < k1)"
begin

lemma find_emplace_new: "invar m \<Longrightarrow> find k m = None \<Longrightarrow> find k (emplace k v m) = Some v"
  by (simp add: find_emplace)

lemma emplace_erase:
  "invar m \<Longrightarrow> find k m = None \<Longrightarrow> find k' (erase k (emplace k v m)) = find k' m"
  by (simp add: find_erase find_emplace invar_emplace)

lemma emplace_keeps: "invar m \<Longrightarrow> find k m = Some w \<Longrightarrow> find k' (emplace k v m) = find k' m"
  by (simp add: find_emplace)

lemma floor_exact: "invar m \<Longrightarrow> find k m = Some v \<Longrightarrow> floor_of k m = Some (k, v)"
  by (simp add: floor_Some)

lemma floor_le: "invar m \<Longrightarrow> floor_of k m = Some (k0, v) \<Longrightarrow> k0 \<le> k"
  by (simp add: floor_Some)

lemma floor_find: "invar m \<Longrightarrow> floor_of k m = Some (k0, v) \<Longrightarrow> find k0 m = Some v"
  by (simp add: floor_Some)

lemma floor_above:
  assumes "invar m" "find k1 m = Some w" "k1 \<le> k"
  obtains k0 v where "floor_of k m = Some (k0, v)" "find k0 m = Some v" "k1 \<le> k0" "k0 \<le> k"
proof -
  have "floor_of k m \<noteq> None" using assms by (auto simp: floor_None not_less)
  then obtain k0 v where "floor_of k m = Some (k0, v)" by auto
  moreover from this have "find k0 m = Some v" "k1 \<le> k0" "k0 \<le> k"
    using assms by (auto simp: floor_Some)
  ultimately show ?thesis by (rule that)
qed

lemma floor_emplace_above:
  assumes "invar m" "k < k1"
  shows "floor_of k (emplace k1 v m) = floor_of k m"
proof (cases "floor_of k m")
  case None
  with assms have "floor_of k (emplace k1 v m) = None"
    by (auto simp: floor_None invar_emplace find_emplace)
  with None show ?thesis by simp
next
  case (Some p)
  obtain k0 w where p: "p = (k0, w)" by (cases p)
  with Some assms have "floor_of k (emplace k1 v m) = Some (k0, w)"
    by (auto simp: floor_Some invar_emplace find_emplace)
  with Some p show ?thesis by simp
qed

end

section \<open>The list operations implement it\<close>

lemma om_find_mem: "om_wf m \<Longrightarrow> om_find k m = Some v \<longleftrightarrow> (k, v) \<in> set m"
  by (simp add: om_wf_def om_find_def map_of_eq_Some_iff strict_sorted_iff)

lemma om_find_None: "om_find k m = None \<longleftrightarrow> k \<notin> fst ` set m"
  by (simp add: om_find_def map_of_eq_None_iff)

lemma set_om_emplace:
  "om_wf m \<Longrightarrow> set (om_emplace k v m) = (if k \<in> fst ` set m then set m else insert (k, v) (set m))"
proof (induction m)
  case (Cons p m)
  then have "om_wf m" "\<forall>q\<in>set m. fst p < fst q" by (auto simp: om_wf_def)
  with Cons.IH show ?case by (cases p) (force simp: not_less)
qed simp

lemma fst_om_emplace: "fst ` set (om_emplace k v m) = insert k (fst ` set m)"
  by (induction m) auto

lemma length_om_emplace:
  "om_wf m \<Longrightarrow> k \<notin> fst ` set m \<Longrightarrow> length (om_emplace k v m) = Suc (length m)"
  by (induction m) (auto simp: om_wf_def)

lemma om_wf_emplace: "om_wf m \<Longrightarrow> om_wf (om_emplace k v m)"
proof (induction m)
  case (Cons p m)
  then have m: "om_wf m" "\<forall>q\<in>fst ` set m. fst p < q" by (auto simp: om_wf_def)
  show ?case
  proof (cases "fst p < k")
    case True
    with m Cons.IH fst_om_emplace [of k v m] show ?thesis
      by (auto simp: om_wf_def image_iff not_less)
  next
    case False
    with Cons.prems show ?thesis by (auto simp: om_wf_def)
  qed
qed (simp add: om_wf_def)

lemma om_find_emplace:
  assumes "om_wf m"
  shows "om_find k' (om_emplace k v m) =
    (if k' = k \<and> om_find k m = None then Some v else om_find k' m)" (is "?l = ?r")
proof -
  have "?l = Some w \<longleftrightarrow> ?r = Some w" for w
    using assms
    by (auto simp: om_find_mem om_wf_emplace set_om_emplace om_find_None rev_image_eqI)
  then show ?thesis by (metis not_Some_eq)
qed

lemma om_wf_filter: "om_wf m \<Longrightarrow> om_wf (filter P m)"
  by (induction m) (auto simp: om_wf_def)

lemma map_fst_om_adjust [simp]: "map fst (om_adjust k f m) = map fst m"
  by (simp add: om_adjust_def)

lemma om_floor_append:
  assumes "om_wf m"
  shows "(om_floor k m = None \<longleftrightarrow> (\<forall>p\<in>set m. k < fst p)) \<and>
    (\<forall>p. om_floor k m = Some p \<longleftrightarrow>
       p \<in> set m \<and> fst p \<le> k \<and> (\<forall>q\<in>set m. fst q \<le> k \<longrightarrow> fst q \<le> fst p))"
proof -
  let ?a = "takeWhile (\<lambda>p. fst p \<le> k) m" and ?b = "dropWhile (\<lambda>p. fst p \<le> k) m"
  have split: "m = ?a @ ?b" by simp
  have a: "\<forall>p\<in>set ?a. fst p \<le> k" by (auto dest: set_takeWhileD)
  have sorted: "om_wf (?a @ ?b)" using assms by simp
  have b: "\<forall>p\<in>set ?b. k < fst p"
  proof (cases ?b)
    case (Cons q qs)
    then have "\<not> fst q \<le> k" by (metis hd_dropWhile list.distinct(1) list.sel(1))
    with Cons sorted show ?thesis by (fastforce simp: om_wf_def sorted_wrt_append)
  qed (simp only: list.set ball_simps)
  show ?thesis
  proof (cases "?a = []")
    case True
    then have "om_floor k m = None" by (simp add: om_floor_def om_upper_bound_def)
    moreover have "\<forall>p\<in>set m. k < fst p" using True b split by (metis append_Nil)
    ultimately show ?thesis by (auto simp: not_le)
  next
    case False
    then have fl: "om_floor k m = Some (last ?a)"
      by (simp add: om_floor_def om_upper_bound_def Let_def last_conv_nth takeWhile_nth
          length_takeWhile_le)
    obtain xs x where x: "?a = xs @ [x]" using False by (cases ?a rule: rev_cases) auto
    have dist: "distinct (map fst m)" using assms by (simp add: om_wf_def strict_sorted_iff)
    have mx: "x \<in> set m" by (metis x split in_set_conv_decomp append_assoc append_Cons)
    have le: "fst x \<le> k" using a x by simp
    have max: "\<forall>q\<in>set m. fst q \<le> k \<longrightarrow> fst q \<le> fst x"
    proof (intro ballI impI)
      fix q assume "q \<in> set m" "fst q \<le> k"
      then have "q \<in> set ?a" using b split by (metis Un_iff not_le set_append)
      then show "fst q \<le> fst x"
        using sorted unfolding x by (auto simp: om_wf_def sorted_wrt_append)
    qed
    have "p = x" if "p \<in> set m" "fst p \<le> k" "\<forall>q\<in>set m. fst q \<le> k \<longrightarrow> fst q \<le> fst p" for p
    proof -
      have "fst p = fst x" using that max mx le by (meson order_antisym)
      with that mx dist show ?thesis by (meson distinct_map inj_onD)
    qed
    moreover have "om_floor k m = Some x" using fl x by simp
    moreover have "\<not> (\<forall>p\<in>set m. k < fst p)" using mx le by (meson not_le)
    ultimately show ?thesis using mx le max by (metis option.distinct(1) option.inject)
  qed
qed

interpretation smap: ordered_map om_wf "[]" om_find om_emplace om_erase om_adjust om_floor
proof
  show "om_wf []" by (simp add: om_wf_def)
  fix m :: "('k::linorder \<times> 'v) list" and k k' k0 v f
  assume wf: "om_wf m"
  show "om_wf (om_emplace k v m)" using wf by (rule om_wf_emplace)
  show "om_wf (om_erase k m)" unfolding om_erase_def using wf by (rule om_wf_filter)
  show "om_wf (om_adjust k f m)" using wf by (simp add: om_wf_def)
  show "om_find k' (om_emplace k v m) =
      (if k' = k \<and> om_find k m = None then Some v else om_find k' m)"
    by (rule om_find_emplace [OF wf])
  show "om_find k' (om_erase k m) = (if k' = k then None else om_find k' m)"
    by (induction m) (auto simp: om_find_def om_erase_def)
  show "om_find k' (om_adjust k f m) =
      (if k' = k then map_option f (om_find k m) else om_find k' m)"
    by (induction m) (auto simp: om_find_def om_adjust_def)
  show "om_floor k m = Some (k0, v) \<longleftrightarrow> om_find k0 m = Some v \<and> k0 \<le> k \<and>
      (\<forall>k1 w. om_find k1 m = Some w \<longrightarrow> k1 \<le> k \<longrightarrow> k1 \<le> k0)"
    using wf om_floor_append [OF wf, of k] by (auto simp: om_find_mem)
  show "om_floor k m = None \<longleftrightarrow> (\<forall>k1 w. om_find k1 m = Some w \<longrightarrow> k < k1)"
    using wf om_floor_append [OF wf, of k] by (auto simp: om_find_mem)
qed (simp add: om_find_def)

end
