(* ===== verification/Chunk_Header.thy ===== *)
theory Chunk_Header
  imports GC_Prelude
begin

text \<open>
  The block header of \<open>include/gc/ChunkHeader.hpp\<close> and the size arithmetic of the
  allocation path: the anonymous helpers at the top of \<open>src/GCManager.cpp\<close> and the
  \<open>detail\<close> helpers of \<open>include/gc/gc_new.hpp\<close>. The lemmas relate the wrapping
  64-bit code to unbounded arithmetic.
\<close>

section \<open>The header\<close>

text \<open>A finalizer is a function pointer; \<open>None\<close> is the null pointer.\<close>

type_synonym DestructorFn = nat

definition kChunkMagicNumber :: u32 where
  "kChunkMagicNumber = 0x47434C42"

record ChunkHeader =
  ch_size :: size_t
  ch_destructor :: "DestructorFn option"
  ch_magic_number :: u32
  ch_payload_offset :: u16
  ch_marked :: byte
  ch_alignment_shift :: byte
  ch_reserved :: "byte list"

definition new_ChunkHeader :: ChunkHeader where
  "new_ChunkHeader =
     \<lparr>ch_size = 0, ch_destructor = None, ch_magic_number = kChunkMagicNumber,
      ch_payload_offset = 0, ch_marked = 0, ch_alignment_shift = 0,
      ch_reserved = replicate 8 0\<rparr>"

abbreviation (input) sizeof_ChunkHeader :: size_t where
  "sizeof_ChunkHeader \<equiv> 32"

text \<open>\<open>alignof(std::max_align_t)\<close> on the LP64 targets.\<close>

abbreviation (input) max_align :: size_t where
  "max_align \<equiv> 16"

definition is_marked :: "ChunkHeader \<Rightarrow> bool" where
  "is_marked h \<longleftrightarrow> ch_marked h \<noteq> 0"

definition set_marked :: "bool \<Rightarrow> ChunkHeader \<Rightarrow> ChunkHeader" where
  "set_marked v h = h\<lparr>ch_marked := (if v then 1 else 0)\<rparr>"

text \<open>\<open>std::countr_zero\<close> and \<open>std::has_single_bit\<close> of the standard library.\<close>

definition countr_zero :: "u64 \<Rightarrow> nat" where
  "countr_zero x = length (takeWhile (\<lambda>i. \<not> bit x i) [0..<64])"

definition has_single_bit :: "u64 \<Rightarrow> bool" where
  "has_single_bit x \<longleftrightarrow> length (filter (bit x) [0..<64]) = 1"

definition set_allocation_alignment :: "size_t \<Rightarrow> ChunkHeader \<Rightarrow> ChunkHeader" where
  "set_allocation_alignment a h = h\<lparr>ch_alignment_shift := of_nat (countr_zero a)\<rparr>"

definition allocation_alignment :: "ChunkHeader \<Rightarrow> size_t" where
  "allocation_alignment h = push_bit (unat (ch_alignment_shift h)) 1"

lemma is_marked_set_marked [simp]: "is_marked (set_marked v h) = v"
  by (simp add: is_marked_def set_marked_def)

lemma set_marked_sel [simp]:
  "ch_size (set_marked v h) = ch_size h"
  "ch_destructor (set_marked v h) = ch_destructor h"
  "ch_magic_number (set_marked v h) = ch_magic_number h"
  "ch_payload_offset (set_marked v h) = ch_payload_offset h"
  "ch_alignment_shift (set_marked v h) = ch_alignment_shift h"
  by (simp_all add: set_marked_def)

section \<open>Size arithmetic\<close>

text \<open>\<open>std::numeric_limits<std::size_t>::max()\<close>.\<close>

abbreviation (input) size_max :: size_t where
  "size_max \<equiv> - 1"

definition normalize_alignment :: "size_t \<Rightarrow> size_t" where
  "normalize_alignment alignment = max alignment max_align"

definition add_would_overflow :: "size_t \<Rightarrow> size_t \<Rightarrow> bool" where
  "add_would_overflow lhs rhs \<longleftrightarrow> size_max - rhs < lhs"

definition saturating_add :: "size_t \<Rightarrow> size_t \<Rightarrow> size_t" where
  "saturating_add lhs rhs = (if add_would_overflow lhs rhs then size_max else lhs + rhs)"

text \<open>\<open>None\<close> stands for the \<open>std::bad_alloc\<close> the helper throws.\<close>

definition round_up_to_alignment :: "size_t \<Rightarrow> size_t \<Rightarrow> size_t option" where
  "round_up_to_alignment value alignment =
     (if alignment = 0 \<or> alignment AND (alignment - 1) \<noteq> 0 then None
      else if add_would_overflow value (alignment - 1) then None
      else Some ((value + alignment - 1) AND NOT (alignment - 1)))"

text \<open>\<open>gc::detail\<close>: the same overflow test, its product form, and the unchecked rounding.\<close>

definition multiply_would_overflow :: "size_t \<Rightarrow> size_t \<Rightarrow> bool" where
  "multiply_would_overflow lhs rhs \<longleftrightarrow> rhs \<noteq> 0 \<and> size_max div rhs < lhs"

definition detail_round_up_to_alignment :: "size_t \<Rightarrow> size_t \<Rightarrow> size_t" where
  "detail_round_up_to_alignment value alignment =
     (value + alignment - 1) AND NOT (alignment - 1)"

text \<open>\<open>array_elements_offset<T>()\<close> for an element type of the given alignment.\<close>

definition array_elements_offset :: "size_t \<Rightarrow> size_t" where
  "array_elements_offset align_T = detail_round_up_to_alignment word_size align_T"

section \<open>Powers of two\<close>

lemma bit_pow2: "bit (2 ^ k :: u64) n \<longleftrightarrow> n = k \<and> k < 64"
  by (auto simp: bit_simps)

lemma upt_split_at: "k < n \<Longrightarrow> [0..<n] = [0..<k] @ k # [Suc k..<n]"
  using upt_add_eq_append [of 0 k "n - k"] by (simp add: upt_conv_Cons)

lemma unat_less_64: "unat (x :: u64) < 2 ^ 64"
  using unsigned_less [of x, where 'a = nat] by simp

lemma unat_minus_1: "unat (- 1 :: u64) = 2 ^ 64 - 1"
  by (simp only: unsigned_minus_1_eq_mask mask_eq_exp_minus_1 len_num0 len_bit0 len_num1) simp

lemma has_single_bit_iff: "has_single_bit x \<longleftrightarrow> (\<exists>k<64. x = 2 ^ k)"
proof
  assume "has_single_bit x"
  then obtain k where k: "filter (bit x) [0..<64] = [k]"
    by (auto simp: has_single_bit_def length_Suc_conv)
  then have "set (filter (bit x) [0..<64]) = {k}" by simp
  then have eq: "n < 64 \<and> bit x n \<longleftrightarrow> n = k" for n by (auto simp: set_eq_iff)
  then have "k < 64" by blast
  moreover have "x = 2 ^ k"
    using eq by (intro bit_word_eqI) (auto simp: bit_pow2)
  ultimately show "\<exists>k<64. x = 2 ^ k" by blast
next
  assume "\<exists>k<64. x = 2 ^ k"
  then obtain k where k: "k < 64" "x = 2 ^ k" by blast
  have "[0..<64] = [0..<k] @ k # [Suc k..<64]"
    using k(1) by (rule upt_split_at)
  with k show "has_single_bit x"
    by (simp add: has_single_bit_def bit_pow2 filter_empty_conv)
qed

lemma unat_pow2: "k < 64 \<Longrightarrow> unat (2 ^ k :: u64) = 2 ^ k"
proof -
  assume "k < 64"
  then have "(2::nat) ^ k < 2 ^ 64" by (intro power_strict_increasing) simp_all
  then show ?thesis using unat_of_nat [of "2 ^ k", where 'a = 64] by simp
qed

lemma pow2_and_pred: "k < 64 \<Longrightarrow> (2 ^ k :: u64) AND (2 ^ k - 1) = 0"
  by (intro bit_word_eqI) (auto simp: bit_simps mask_eq_exp_minus_1 [symmetric])

lemma word_has_top_bit:
  fixes x :: u64
  assumes "x \<noteq> 0"
  obtains j where "j < 64" "2 ^ j \<le> unat x" "unat x < 2 ^ Suc j"
proof -
  have "0 < unat x" using assms by (simp add: unat_gt_0)
  then obtain j where j: "2 ^ j \<le> unat x" "unat x < 2 ^ Suc j"
    using ex_power_ivl1 [of 2 "unat x"] by auto
  have "unat x < 2 ^ 64" using unsigned_less [of x] by simp
  with j(1) have "(2::nat) ^ j < 2 ^ 64" by (rule le_less_trans)
  then have "j < 64" by (simp only: power_strict_increasing_iff one_less_numeral_iff semiring_norm)
  with j show ?thesis using that by blast
qed

lemma unat_bit_of_range: "2 ^ j \<le> unat x \<Longrightarrow> unat x < 2 ^ Suc j \<Longrightarrow> bit (x :: u64) j"
proof -
  assume a: "2 ^ j \<le> unat x" "unat x < 2 ^ Suc j"
  then have "unat x div 2 ^ j = 1" by (intro div_nat_eqI) simp_all
  then have "bit (unat x) j" by (simp add: bit_iff_odd)
  then show "bit x j" by (simp add: bit_unsigned_iff)
qed

lemma and_pred_zero_iff: "x \<noteq> 0 \<and> x AND (x - 1) = 0 \<longleftrightarrow> has_single_bit x"
proof
  assume x: "x \<noteq> 0 \<and> x AND (x - 1) = 0"
  then obtain j where j: "j < 64" "2 ^ j \<le> unat x" "unat x < 2 ^ Suc j"
    by (blast elim: word_has_top_bit)
  have "unat x = 2 ^ j"
  proof (rule ccontr)
    assume "unat x \<noteq> 2 ^ j"
    with j have "2 ^ j \<le> unat (x - 1)" "unat (x - 1) < 2 ^ Suc j"
      using x by (simp_all add: unat_minus_one)
    then have "bit (x AND (x - 1)) j"
      using j by (simp add: bit_simps unat_bit_of_range del: power_Suc)
    with x show False by simp
  qed
  then have "x = 2 ^ j" using j(1) by (simp add: unat_pow2 word_unat_eq_iff)
  with j(1) show "has_single_bit x" by (auto simp: has_single_bit_iff)
next
  assume "has_single_bit x"
  then show "x \<noteq> 0 \<and> x AND (x - 1) = 0"
    by (auto simp: has_single_bit_iff pow2_and_pred)
qed

lemma countr_zero_pow2: "k < 64 \<Longrightarrow> countr_zero (2 ^ k) = k"
proof -
  assume k: "k < 64"
  have "[0..<64] = [0..<k] @ k # [Suc k..<64]"
    using k by (rule upt_split_at)
  with k show ?thesis by (simp add: countr_zero_def bit_pow2 takeWhile_append)
qed

lemma allocation_alignment_roundtrip:
  "has_single_bit a \<Longrightarrow> allocation_alignment (set_allocation_alignment a h) = a"
  by (auto simp: has_single_bit_iff allocation_alignment_def set_allocation_alignment_def
      countr_zero_pow2 unat_of_nat push_bit_eq_mult)

section \<open>Overflow tests\<close>

lemma add_would_overflow_iff: "add_would_overflow a b \<longleftrightarrow> 2 ^ 64 \<le> unat a + unat b"
proof -
  have "unat (- 1 - b) = unat (- 1 :: u64) - unat b" by (rule unat_sub) simp
  then show ?thesis
    using unat_less_64 [of a] unat_less_64 [of b]
    by (auto simp: add_would_overflow_def word_less_nat_alt unat_minus_1)
qed

lemma unat_add_no_overflow:
  "\<not> add_would_overflow a b \<Longrightarrow> unat (a + b) = unat a + unat b"
  by (simp add: add_would_overflow_iff unat_word_ariths)

lemma unat_saturating_add: "unat (saturating_add a b) = min (unat a + unat b) (2 ^ 64 - 1)"
  by (auto simp: saturating_add_def unat_add_no_overflow unat_minus_1)
    (simp_all add: add_would_overflow_iff)

lemma multiply_would_overflow_iff:
  "multiply_would_overflow a b \<longleftrightarrow> 2 ^ 64 \<le> unat a * unat b"
proof (cases "b = 0")
  case False
  then have b: "0 < unat b" by (simp add: unat_gt_0)
  have "multiply_would_overflow a b \<longleftrightarrow> (2 ^ 64 - 1) div unat b < unat a"
    using False
    by (simp add: multiply_would_overflow_def word_less_nat_alt unat_div_distrib unat_minus_1)
  also have "\<dots> \<longleftrightarrow> 2 ^ 64 - 1 < unat a * unat b"
    using b by (rule div_less_iff_less_mult)
  finally show ?thesis by auto
qed (simp add: multiply_would_overflow_def)

section \<open>Rounding up\<close>

lemma and_not_low: "k < 64 \<Longrightarrow> (x :: u64) AND NOT (2 ^ k - 1) = push_bit k (drop_bit k x)"
  by (intro bit_word_eqI) (auto simp: bit_simps mask_eq_exp_minus_1 [symmetric])

lemma unat_and_not_low:
  assumes "k < 64"
  shows "unat ((x :: u64) AND NOT (2 ^ k - 1)) = unat x div 2 ^ k * 2 ^ k"
proof -
  have "unat x div 2 ^ k * 2 ^ k < 2 ^ 64"
    by (rule le_less_trans [OF div_times_less_eq_dividend unat_less_64])
  moreover have "unat (push_bit k (drop_bit k x)) =
      take_bit LENGTH(64) (push_bit k (drop_bit k (unat x)))"
    by (simp only: unsigned_push_bit_eq unat_drop_bit_eq)
  ultimately show ?thesis
    using and_not_low [OF assms, of x]
    by (simp add: push_bit_nat_def drop_bit_nat_def take_bit_nat_def)
qed

lemma round_up_to_alignment_Some:
  assumes "round_up_to_alignment v a = Some r"
  shows "has_single_bit a" "unat v \<le> unat r" "unat r < unat v + unat a" "unat a dvd unat r"
proof -
  have a: "has_single_bit a" "\<not> add_would_overflow v (a - 1)"
    and r: "r = (v + (a - 1)) AND NOT (a - 1)"
    using assms and_pred_zero_iff [of a]
    by (auto simp: round_up_to_alignment_def algebra_simps split: if_splits)
  from a(1) obtain k where k: "k < 64" "a = 2 ^ k" by (auto simp: has_single_bit_iff)
  have ua: "unat a = 2 ^ k" using k by (simp add: unat_pow2)
  have u1: "unat (a - 1) = 2 ^ k - 1" using ua k by (metis unat_minus_one unat_0 power_not_zero zero_neq_numeral)
  have ur: "unat r = (unat v + (2 ^ k - 1)) div 2 ^ k * 2 ^ k"
    using k unat_and_not_low [OF k(1)] unat_add_no_overflow [OF a(2)] u1 by (simp add: r)
  show "has_single_bit a" by (rule a(1))
  show "unat a dvd unat r" using ur ua by simp
  have "(unat v + (2 ^ k - 1)) div 2 ^ k * 2 ^ k + (unat v + (2 ^ k - 1)) mod 2 ^ k = unat v + (2 ^ k - 1)"
    by (rule div_mult_mod_eq)
  moreover have "(unat v + (2 ^ k - 1)) mod 2 ^ k < 2 ^ k" by simp
  ultimately show "unat v \<le> unat r" "unat r < unat v + unat a"
    unfolding ur ua by linarith+
qed

text \<open>
  The overflow tests decide overflow of unbounded arithmetic exactly, and the saturating sum is
  the true sum capped at the largest size.
\<close>

lemma size_arithmetic_is_exact:
  "(add_would_overflow a b \<longleftrightarrow> 2 ^ 64 \<le> unat a + unat b) \<and>
   (multiply_would_overflow a b \<longleftrightarrow> 2 ^ 64 \<le> unat a * unat b) \<and>
   unat (saturating_add a b) = min (unat a + unat b) (2 ^ 64 - 1)"
  using add_would_overflow_iff multiply_would_overflow_iff unat_saturating_add by simp

end
