(* ===== verification/Gc_State.thy ===== *)
theory Gc_State
  imports Std_Map Chunk_Header
begin

text \<open>
  The data of \<open>include/gc/GCManager.hpp\<close>: the records of the manager, its whole state,
  the parts of the outside world an operation meets, and the heap invariant. Field names carry
  a prefix for their record; \<open>gc_\<close> fields are the manager's data members.
\<close>

section \<open>Records of the manager\<close>

text \<open>\<open>std::thread::id\<close>; the default-constructed id, which names no thread, is 0.\<close>

type_synonym tid = nat

abbreviation (input) no_thread :: tid where
  "no_thread \<equiv> 0"

record BlockRecord =
  br_header :: addr
  br_payload_begin :: addr
  br_payload_end :: addr
  br_constructing :: bool

record RootRange =
  rr_begin :: addr
  rr_end :: addr

record WeakRefEntry =
  wr_target :: addr
  wr_storage :: addr

record ThreadState =
  ts_stack_bottom :: addr
  ts_parked_stack_top :: addr
  ts_fake_stack_handle :: addr
  ts_register_spill :: "u64 list"
  ts_paused_for_collection :: bool

text \<open>\<open>(sizeof(std::jmp_buf) + 7) / 8\<close> with the 200-byte \<open>jmp_buf\<close> of x86-64 glibc.\<close>

definition kRegisterSpillWordCount :: nat where
  "kRegisterSpillWordCount = 25"

definition new_ThreadState :: ThreadState where
  "new_ThreadState =
     \<lparr>ts_stack_bottom = 0, ts_parked_stack_top = 0, ts_fake_stack_handle = 0,
      ts_register_spill = replicate kRegisterSpillWordCount 0,
      ts_paused_for_collection = False\<rparr>"

text \<open>
  \<open>GCStats\<close> as the manager keeps it. The fields that \<open>stats()\<close> fills in its
  snapshot are zero in the member. Durations are nanosecond counts; the ratio is a pair of
  the two sizes the source divides as doubles.
\<close>

record GCStats =
  st_total_collections :: size_t
  st_bytes_reclaimed_last :: size_t
  st_blocks_reclaimed_last :: size_t
  st_bytes_reclaimed_total :: size_t
  st_live_bytes :: size_t
  st_live_blocks :: size_t
  st_reserved_bytes :: size_t
  st_fragmentation_ratio :: "size_t \<times> size_t"
  st_duration_last :: int
  st_duration_total :: int
  st_total_allocations :: size_t
  st_bytes_allocated_total :: size_t
  st_peak_live_bytes :: size_t
  st_peak_live_blocks :: size_t
  st_registered_threads :: size_t
  st_registered_root_ranges :: size_t
  st_registered_weak_refs :: size_t

definition new_GCStats :: GCStats where
  "new_GCStats =
     \<lparr>st_total_collections = 0, st_bytes_reclaimed_last = 0, st_blocks_reclaimed_last = 0,
      st_bytes_reclaimed_total = 0, st_live_bytes = 0, st_live_blocks = 0,
      st_reserved_bytes = 0, st_fragmentation_ratio = (0, 1), st_duration_last = 0,
      st_duration_total = 0, st_total_allocations = 0, st_bytes_allocated_total = 0,
      st_peak_live_bytes = 0, st_peak_live_blocks = 0, st_registered_threads = 0,
      st_registered_root_ranges = 0, st_registered_weak_refs = 0\<rparr>"

record HeapObjectInfo =
  ho_payload :: addr
  ho_payload_size :: size_t
  ho_reserved_size :: size_t
  ho_payload_offset :: size_t
  ho_allocation_alignment :: size_t
  ho_marked :: bool
  ho_outgoing_references :: "addr list"

section \<open>The state\<close>

text \<open>
  Calls the library makes to code outside it: a finalizer on a payload,
  \<open>::operator delete\<close> on a block with an alignment, and the constructor and the
  destructor of an array element.
\<close>

datatype event =
    Finalized DestructorFn addr
  | Freed addr size_t
  | Constructed addr
  | Destroyed addr

text \<open>
  Process memory holds stacks, globals, payloads and handle storage as bytes. Block headers
  are a typed store beside it, indexed by header address. \<open>gc_regions\<close> are the blocks
  \<open>::operator new\<close> has handed out and not taken back.
\<close>

record gc_state =
  gc_mem :: memory
  gc_headers :: "addr \<Rightarrow> ChunkHeader"
  gc_regions :: "(addr \<times> size_t) list"
  gc_events :: "event list"
  gc_allocations :: "(addr, BlockRecord) omap"
  gc_threads :: "(tid, ThreadState) omap"
  gc_root_ranges :: "RootRange list"
  gc_weak_refs :: "WeakRefEntry list"
  gc_managed_bytes :: size_t
  gc_reserved_bytes :: size_t
  gc_collection_threshold_bytes :: size_t
  gc_collector_thread :: tid
  gc_stop_the_world_requested :: bool
  gc_collecting :: bool
  gc_stats :: GCStats

definition new_gc_state :: "memory \<Rightarrow> gc_state" where
  "new_gc_state m =
     \<lparr>gc_mem = m, gc_headers = (\<lambda>_. new_ChunkHeader), gc_regions = [], gc_events = [],
      gc_allocations = [], gc_threads = [], gc_root_ranges = [], gc_weak_refs = [],
      gc_managed_bytes = 0, gc_reserved_bytes = 0,
      gc_collection_threshold_bytes = 10 * 1024 * 1024,
      gc_collector_thread = no_thread, gc_stop_the_world_requested = False,
      gc_collecting = False, gc_stats = new_GCStats\<rparr>"

type_synonym 'a gc = "(gc_state, 'a) comp"

text \<open>A word of a handle, a local or a global, at its address.\<close>

definition put_word :: "addr \<Rightarrow> u64 \<Rightarrow> gc_state \<Rightarrow> gc_state" where
  "put_word a v s = s\<lparr>gc_mem := store_word (gc_mem s) a v\<rparr>"

definition get_word :: "addr \<Rightarrow> gc_state \<Rightarrow> u64" where
  "get_word a s = load_word (gc_mem s) a"

definition word_apart :: "addr \<Rightarrow> addr \<Rightarrow> bool" where
  "word_apart a b \<longleftrightarrow> word_size \<le> a - b \<and> word_size \<le> b - a"

section \<open>The outside world\<close>

text \<open>The program headers \<open>dl_iterate_phdr\<close> reports for a loaded image.\<close>

record Elf_Phdr =
  p_type :: u32
  p_flags :: u32
  p_vaddr :: u64
  p_memsz :: u64

record dl_phdr_info =
  dlpi_addr :: u64
  dlpi_phdr :: "Elf_Phdr list"

text \<open>The places where a container of the manager allocates, and so may throw.\<close>

datatype alloc_site =
    Threads_Node
  | Root_Ranges_Push
  | Weak_Refs_Push
  | Allocations_Node
  | Worklist_Reserve
  | Unreachable_Reserve
  | Detach_Reserve
  | Ordering_Graph
  | Snapshot_Vector

text \<open>
  What a call meets outside the manager: whether an allocation of a manager container fails,
  what \<open>::operator new\<close> returns, the user's finalizers, the callee-saved registers that
  \<open>setjmp\<close> captures, the address of the marker local, the loaded images, the stack
  bounds \<open>pthread_attr_getstack\<close> reports, and the clock at the start and the end of a collection.
\<close>

record gc_env =
  e_alloc_fails :: "alloc_site \<Rightarrow> bool"
  e_op_new :: "gc_state \<Rightarrow> size_t \<Rightarrow> size_t \<Rightarrow> addr option"
  e_finalize :: "DestructorFn \<Rightarrow> addr \<Rightarrow> unit gc"
  e_registers :: "u64 list"
  e_stack_marker :: addr
  e_images :: "dl_phdr_info list"
  e_pthread_stack :: "(addr \<times> size_t) option"
  e_clock_start :: int
  e_clock_now :: int

section \<open>The heap invariant\<close>

text \<open>
  What the header of a registered block says of it. The payload ends in the lower half of the
  address space: this is the property of flat-address platforms on which the encoding of weak
  handles relies, and \<open>op_new_ok\<close> below asks it of the allocator.
\<close>

definition block_ok :: "(addr \<Rightarrow> ChunkHeader) \<Rightarrow> addr \<times> BlockRecord \<Rightarrow> bool" where
  "block_ok H p \<longleftrightarrow>
     (let b = snd p; h = H (br_header b) in
      br_payload_begin b = fst p \<and>
      ch_magic_number h = kChunkMagicNumber \<and>
      ch_size h \<noteq> 0 \<and>
      32 \<le> unat (ch_payload_offset h) \<and>
      unat (br_payload_begin b) = unat (br_header b) + unat (ch_payload_offset h) \<and>
      unat (br_payload_end b) = unat (br_payload_begin b) + unat (ch_size h) \<and>
      unat (br_payload_end b) \<le> 2 ^ 63)"

text \<open>In key order every block ends before the next one's header starts.\<close>

definition blocks_apart :: "(addr, BlockRecord) omap \<Rightarrow> bool" where
  "blocks_apart m \<longleftrightarrow> sorted_wrt (\<lambda>p q. br_payload_end (snd p) \<le> br_header (snd q)) m"

definition index_inv :: "gc_state \<Rightarrow> bool" where
  "index_inv s \<longleftrightarrow>
     list_all (block_ok (gc_headers s)) (gc_allocations s) \<and> blocks_apart (gc_allocations s)"

definition header_of :: "gc_state \<Rightarrow> BlockRecord \<Rightarrow> ChunkHeader" where
  "header_of s b = gc_headers s (br_header b)"

definition block_allocation_size :: "ChunkHeader \<Rightarrow> size_t" where
  "block_allocation_size h = ucast (ch_payload_offset h) + ch_size h"

definition accounting :: "gc_state \<Rightarrow> bool" where
  "accounting s \<longleftrightarrow>
     unat (gc_managed_bytes s) =
       (\<Sum>p\<leftarrow>gc_allocations s. unat (ch_size (header_of s (snd p)))) \<and>
     unat (gc_reserved_bytes s) =
       (\<Sum>p\<leftarrow>gc_allocations s. unat (block_allocation_size (header_of s (snd p))))"

text \<open>Every registered block lies in a region of the underlying allocator.\<close>

definition regions_ok :: "gc_state \<Rightarrow> bool" where
  "regions_ok s \<longleftrightarrow>
     list_all (\<lambda>p. (br_header (snd p), block_allocation_size (header_of s (snd p)))
       \<in> set (gc_regions s)) (gc_allocations s)"

definition heap_inv :: "gc_state \<Rightarrow> bool" where
  "heap_inv s \<longleftrightarrow> index_inv s \<and> accounting s \<and> regions_ok s"

text \<open>
  The documented behaviour of \<open>::operator new\<close>: the block it returns is not null, is
  aligned, overlaps no block in use, and lies in the lower half of the address space.
\<close>

definition region_free :: "(addr \<times> size_t) list \<Rightarrow> addr \<Rightarrow> size_t \<Rightarrow> bool" where
  "region_free rs a n \<longleftrightarrow>
     list_all (\<lambda>r. unat (fst r) + unat (snd r) \<le> unat a \<or> unat a + unat n \<le> unat (fst r)) rs"

definition op_new_ok :: "gc_env \<Rightarrow> bool" where
  "op_new_ok env \<longleftrightarrow> (\<forall>s n al a. e_op_new env s n al = Some a \<longrightarrow>
     a \<noteq> 0 \<and> unat al dvd unat a \<and> unat a + unat n \<le> 2 ^ 63 \<and> region_free (gc_regions s) a n)"

section \<open>Consequences of the invariant\<close>

definition blocks :: "gc_state \<Rightarrow> BlockRecord set" where
  "blocks s = snd ` set (gc_allocations s)"

lemma finite_blocks [simp]: "finite (blocks s)"
  by (simp add: blocks_def)

lemma block_ok_bounds:
  assumes "block_ok H p"
  shows "br_header (snd p) < br_payload_begin (snd p)"
    and "br_payload_begin (snd p) < br_payload_end (snd p)"
  using assms
  by (auto simp: block_ok_def Let_def word_less_nat_alt unat_gt_0)

lemma sorted_wrt_total:
  "sorted_wrt R xs \<Longrightarrow> x \<in> set xs \<Longrightarrow> y \<in> set xs \<Longrightarrow> x = y \<or> R x y \<or> R y x"
  by (induction xs) auto

lemma index_inv_block_ok:
  "index_inv s \<Longrightarrow> p \<in> set (gc_allocations s) \<Longrightarrow> block_ok (gc_headers s) p"
  by (simp add: index_inv_def list_all_iff)

lemma index_inv_apart:
  assumes "index_inv s" "p \<in> set (gc_allocations s)" "q \<in> set (gc_allocations s)" "p \<noteq> q"
  shows "br_payload_end (snd p) \<le> br_header (snd q) \<or> br_payload_end (snd q) \<le> br_header (snd p)"
  using assms sorted_wrt_total [of _ "gc_allocations s" p q]
  by (auto simp: index_inv_def blocks_apart_def)

lemma block_ok_chain:
  assumes "block_ok H p" "block_ok H q" "br_payload_end (snd p) \<le> br_header (snd q)"
  shows "fst p < fst q" "br_header (snd p) < br_header (snd q)" "br_payload_end (snd p) < fst q"
  using assms block_ok_bounds [OF assms(1)] block_ok_bounds [OF assms(2)]
  by (auto simp: block_ok_def Let_def)

lemma index_inv_om_wf: "index_inv s \<Longrightarrow> om_wf (gc_allocations s)"
proof -
  assume "index_inv s"
  then have srt: "sorted_wrt (\<lambda>p q. br_payload_end (snd p) \<le> br_header (snd q)) (gc_allocations s)"
    and ok: "\<forall>p\<in>set (gc_allocations s). block_ok (gc_headers s) p"
    by (simp_all add: index_inv_def blocks_apart_def list_all_iff)
  have "sorted_wrt (\<lambda>p q. fst p < fst q) (gc_allocations s)"
    by (rule sorted_wrt_mono_rel [OF _ srt]) (meson block_ok_chain(1) ok)
  then show ?thesis by (simp add: om_wf_def sorted_wrt_map)
qed

lemma index_inv_header_inj:
  assumes "index_inv s" "p \<in> set (gc_allocations s)" "q \<in> set (gc_allocations s)"
    and "br_header (snd p) = br_header (snd q)"
  shows "p = q"
proof (rule ccontr)
  assume "p \<noteq> q"
  note ok = index_inv_block_ok [OF assms(1,2)] index_inv_block_ok [OF assms(1,3)]
  from index_inv_apart [OF assms(1-3) \<open>p \<noteq> q\<close>] show False
    using block_ok_chain(2) [OF ok] block_ok_chain(2) [OF ok(2,1)] assms(4) by auto
qed

lemma block_fst: "index_inv s \<Longrightarrow> (k, b) \<in> set (gc_allocations s) \<Longrightarrow> br_payload_begin b = k"
  by (drule (1) index_inv_block_ok) (simp add: block_ok_def Let_def)

lemma blocks_iff:
  "index_inv s \<Longrightarrow> b \<in> blocks s \<longleftrightarrow> (br_payload_begin b, b) \<in> set (gc_allocations s)"
  by (auto simp: blocks_def dest: block_fst intro: rev_image_eqI)

lemma blocks_header_inj:
  "index_inv s \<Longrightarrow> b \<in> blocks s \<Longrightarrow> c \<in> blocks s \<Longrightarrow> br_header b = br_header c \<Longrightarrow> b = c"
  using index_inv_header_inj [of s "(br_payload_begin b, b)" "(br_payload_begin c, c)"]
  by (simp add: blocks_iff)

text \<open>
  The invariant does not read the mark flags, nor anything but the allocation map and the
  headers of registered blocks.
\<close>

definition same_shape :: "ChunkHeader \<Rightarrow> ChunkHeader \<Rightarrow> bool" where
  "same_shape h h' \<longleftrightarrow>
     ch_size h' = ch_size h \<and> ch_destructor h' = ch_destructor h \<and>
     ch_magic_number h' = ch_magic_number h \<and> ch_payload_offset h' = ch_payload_offset h \<and>
     ch_alignment_shift h' = ch_alignment_shift h"

lemma same_shape_refl [simp]: "same_shape h h"
  by (simp add: same_shape_def)

lemma same_shape_trans: "same_shape a b \<Longrightarrow> same_shape b c \<Longrightarrow> same_shape a c"
  by (simp add: same_shape_def)

lemma same_shape_set_marked [simp]: "same_shape h (set_marked v h)"
  by (simp add: same_shape_def)

lemma block_ok_cong:
  "same_shape (H (br_header (snd p))) (H' (br_header (snd p))) \<Longrightarrow> block_ok H' p = block_ok H p"
  by (simp add: block_ok_def same_shape_def Let_def)

lemma index_inv_cong:
  assumes "gc_allocations s' = gc_allocations s"
    and "\<And>b. b \<in> blocks s \<Longrightarrow> same_shape (header_of s b) (header_of s' b)"
  shows "index_inv s' = index_inv s"
proof -
  have "block_ok (gc_headers s') p = block_ok (gc_headers s) p" if "p \<in> set (gc_allocations s)" for p
    using assms(2) [of "snd p"] that by (intro block_ok_cong) (simp add: header_of_def blocks_def)
  then show ?thesis by (simp add: index_inv_def assms(1) list_all_iff)
qed

section \<open>Sizes\<close>

lemma sum_list_cong: "(\<And>x. x \<in> set xs \<Longrightarrow> f x = g x) \<Longrightarrow> (\<Sum>x\<leftarrow>xs. f x) = (\<Sum>x\<leftarrow>xs. g x)"
  by (metis map_cong)

lemma block_region:
  assumes "block_ok (gc_headers s) p"
  shows "unat (br_header (snd p)) + unat (block_allocation_size (header_of s (snd p))) =
    unat (br_payload_end (snd p))"
proof -
  let ?h = "header_of s (snd p)"
  have h: "unat (br_payload_begin (snd p)) = unat (br_header (snd p)) + unat (ch_payload_offset ?h)"
    "unat (br_payload_end (snd p)) = unat (br_payload_begin (snd p)) + unat (ch_size ?h)"
    using assms unfolding block_ok_def Let_def header_of_def by blast+
  have "unat (ucast (ch_payload_offset ?h) :: u64) = unat (ch_payload_offset ?h)"
    by (simp add: unsigned_ucast_eq take_bit_nat_eq_self_iff order_less_le_trans [OF unsigned_less])
  moreover have "unat (ch_payload_offset ?h) + unat (ch_size ?h) < 2 ^ 64"
    using h unat_less_64 [of "br_payload_end (snd p)"] by linarith
  ultimately have "unat (block_allocation_size ?h) = unat (ch_payload_offset ?h) + unat (ch_size ?h)"
    unfolding block_allocation_size_def by (subst unat_add_no_overflow) (simp_all add: add_would_overflow_iff)
  with h show ?thesis by simp
qed

text \<open>The reserved bytes exceed the managed bytes by the header and padding of every block.\<close>

lemma reserved_managed:
  assumes "heap_inv s"
  shows "unat (gc_reserved_bytes s) =
    (\<Sum>p\<leftarrow>gc_allocations s. unat (ch_payload_offset (header_of s (snd p)))) + unat (gc_managed_bytes s)"
proof -
  have acc: "unat (gc_managed_bytes s) = (\<Sum>p\<leftarrow>gc_allocations s. unat (ch_size (header_of s (snd p))))"
    "unat (gc_reserved_bytes s) = (\<Sum>p\<leftarrow>gc_allocations s. unat (block_allocation_size (header_of s (snd p))))"
    using assms by (simp_all add: heap_inv_def accounting_def)
  have "unat (block_allocation_size (header_of s (snd p))) =
      unat (ch_payload_offset (header_of s (snd p))) + unat (ch_size (header_of s (snd p)))"
    if "p \<in> set (gc_allocations s)" for p
  proof -
    have ok: "block_ok (gc_headers s) p" using assms that by (simp add: heap_inv_def index_inv_block_ok)
    then have "unat (br_payload_begin (snd p)) = unat (br_header (snd p)) + unat (ch_payload_offset (header_of s (snd p)))"
      "unat (br_payload_end (snd p)) = unat (br_payload_begin (snd p)) + unat (ch_size (header_of s (snd p)))"
      unfolding block_ok_def Let_def header_of_def by blast+
    then show ?thesis using block_region [OF ok] by simp
  qed
  then have "(\<Sum>p\<leftarrow>gc_allocations s. unat (block_allocation_size (header_of s (snd p)))) =
      (\<Sum>p\<leftarrow>gc_allocations s. unat (ch_payload_offset (header_of s (snd p))) + unat (ch_size (header_of s (snd p))))"
    by (rule sum_list_cong)
  then show ?thesis using acc by (simp add: sum_list_addf)
qed

lemma managed_positive:
  assumes "heap_inv s" "p \<in> set (gc_allocations s)"
  shows "0 < unat (gc_managed_bytes s)"
proof -
  have "ch_size (header_of s (snd p)) \<noteq> 0"
    using assms index_inv_block_ok [of s p] by (auto simp: heap_inv_def block_ok_def header_of_def Let_def)
  then have "0 < unat (ch_size (header_of s (snd p)))" by (simp add: unat_gt_0)
  also have "\<dots> \<le> (\<Sum>p\<leftarrow>gc_allocations s. unat (ch_size (header_of s (snd p))))"
    using assms(2) by (intro member_le_sum_list) auto
  finally show ?thesis using assms(1) by (simp add: heap_inv_def accounting_def)
qed

lemma word_apart_sym: "word_apart a b \<longleftrightarrow> word_apart b a"
  by (auto simp: word_apart_def)

lemma get_put_word: "get_word a (put_word b v s) = (if a = b then v else get_word a s)"
  if "a = b \<or> word_apart a b"
  using that by (auto simp: get_word_def put_word_def word_apart_def load_store_apart)

lemma get_word_refs [simp]: "get_word h (x\<lparr>gc_weak_refs := w\<rparr>) = get_word h x"
  by (simp add: get_word_def)

lemma new_heap_inv: "heap_inv (new_gc_state m)"
  by (simp add: new_gc_state_def heap_inv_def index_inv_def blocks_apart_def accounting_def regions_ok_def)

end
