(* ===== verification/Block_Index.thy ===== *)
theory Block_Index
  imports Gc_State
begin

text \<open>
  The global allocation map: interior-pointer lookup (\<open>find_block_locked\<close>), registration
  of a block (\<open>register_block_locked\<close>), and the words of a payload in the order the three
  payload loops of \<open>src/GCManager.cpp\<close> read them. The locale \<open>interval_index\<close> is the
  contract of the lookup; marking and the finalization order rely on it.
\<close>

section \<open>Lookup and registration\<close>

definition payload_begin :: "addr \<Rightarrow> gc_state \<Rightarrow> addr" where
  "payload_begin h s = h + ucast (ch_payload_offset (gc_headers s h))"

definition payload_pointer :: "addr \<Rightarrow> gc_state \<Rightarrow> addr" where
  "payload_pointer h s = h + ucast (ch_payload_offset (gc_headers s h))"

definition find_block_locked :: "addr \<Rightarrow> gc_state \<Rightarrow> BlockRecord option" where
  "find_block_locked a s =
     (case om_floor a (gc_allocations s) of
        None \<Rightarrow> None
      | Some (k, b) \<Rightarrow>
          if br_payload_begin b \<le> a \<and> a < br_payload_end b then Some b else None)"

text \<open>The registration itself, once the map has its node.\<close>

definition add_block :: "addr \<Rightarrow> gc_state \<Rightarrow> gc_state" where
  "add_block h s =
     (let begin = payload_begin h s;
          hd = gc_headers s h;
          allocs = om_emplace begin
            \<lparr>br_header = h, br_payload_begin = begin, br_payload_end = begin + ch_size hd,
             br_constructing = False\<rparr> (gc_allocations s);
          managed = gc_managed_bytes s + ch_size hd;
          st = gc_stats s
      in s\<lparr>gc_allocations := allocs,
           gc_managed_bytes := managed,
           gc_reserved_bytes := gc_reserved_bytes s + block_allocation_size hd,
           gc_stats := st\<lparr>
             st_total_allocations := saturating_add (st_total_allocations st) 1,
             st_bytes_allocated_total := saturating_add (st_bytes_allocated_total st) (ch_size hd),
             st_peak_live_bytes := max (st_peak_live_bytes st) managed,
             st_peak_live_blocks := max (st_peak_live_blocks st) (of_nat (length allocs))\<rparr>\<rparr>)"

definition register_block_locked :: "gc_env \<Rightarrow> addr \<Rightarrow> unit gc" where
  "register_block_locked env h s =
     (if e_alloc_fails env Allocations_Node then (Throw Bad_Alloc, s)
      else (Return (), add_block h s))"

section \<open>The payload loop\<close>

text \<open>
  \<open>for (cur = payload_begin; cur + word_size <= payload_end; cur += word_size)\<close> with the
  wrap-around of \<open>std::uintptr_t\<close>: the cursors the body sees, \<open>None\<close> when the loop
  never ends.
\<close>

partial_function (option) payload_cursors :: "addr \<Rightarrow> addr \<Rightarrow> addr list option" where
  "payload_cursors cur pend =
     (if cur + word_size \<le> pend
      then Option.bind (payload_cursors (cur + word_size) pend) (\<lambda>cs. Some (cur # cs))
      else Some [])"

declare payload_cursors.simps [code]

text \<open>The words of a payload, as a specification.\<close>

definition payload_words :: "memory \<Rightarrow> BlockRecord \<Rightarrow> u64 list" where
  "payload_words m b =
     map (\<lambda>i. load_word m (br_payload_begin b + 8 * of_nat i))
       [0..<(unat (br_payload_end b) - unat (br_payload_begin b)) div 8]"

lemma payload_cursors_Some:
  "unat c \<le> unat e \<Longrightarrow> unat e \<le> 2 ^ 63 \<Longrightarrow>
   payload_cursors c e = Some (map (\<lambda>i. c + 8 * of_nat i) [0..<(unat e - unat c) div 8])"
proof (induction "(unat e - unat c) div 8" arbitrary: c)
  case 0
  then have "unat (c + 8) = unat c + 8" by (simp add: unat_word_ariths)
  with 0 have "\<not> c + 8 \<le> e" by (simp add: word_le_nat_alt div_eq_0_iff)
  with 0 show ?case by (simp add: payload_cursors.simps)
next
  case (Suc n)
  have u: "unat (c + 8) = unat c + 8" using Suc.prems by (simp add: unat_word_ariths)
  have le: "unat c + 8 \<le> unat e" using Suc.hyps(2) by linarith
  have n: "n = (unat e - unat (c + 8)) div 8" using Suc.hyps(2) u by simp
  have "payload_cursors (c + 8) e = Some (map (\<lambda>i. c + 8 + 8 * of_nat i) [0..<n])"
    using Suc.hyps(1) [OF n] le u Suc.prems n by simp
  moreover have "[0..<Suc n] = 0 # map Suc [0..<n]" by (simp add: upt_conv_Cons map_Suc_upt del: upt_Suc)
  ultimately show ?case
    using le u Suc.hyps(2) [symmetric]
    by (simp add: payload_cursors.simps [of c] word_le_nat_alt algebra_simps del: upt_Suc)
qed

lemma payload_cursors_words:
  assumes "br_payload_begin b \<le> br_payload_end b" "unat (br_payload_end b) \<le> 2 ^ 63"
  obtains cs where "payload_cursors (br_payload_begin b) (br_payload_end b) = Some cs"
    "map (load_word m) cs = payload_words m b"
  using payload_cursors_Some [of "br_payload_begin b" "br_payload_end b"] assms that
  by (simp add: payload_words_def word_le_nat_alt)

lemma payload_cursors_block:
  assumes "block_ok H p"
  obtains cs where "payload_cursors (br_payload_begin (snd p)) (br_payload_end (snd p)) = Some cs"
    "map (load_word m) cs = payload_words m (snd p)"
proof (rule payload_cursors_words)
  show "br_payload_begin (snd p) \<le> br_payload_end (snd p)"
    using block_ok_bounds(2) [OF assms] by simp
  show "unat (br_payload_end (snd p)) \<le> 2 ^ 63"
    using assms unfolding block_ok_def Let_def by blast
qed (rule that)

section \<open>The contract of a lookup\<close>

text \<open>
  A lookup of addresses in half-open intervals: it finds the item whose interval holds the
  address, and there is at most one.
\<close>

locale interval_index =
  fixes invar :: "'s \<Rightarrow> bool"
    and items :: "'s \<Rightarrow> 'b set"
    and lo :: "'s \<Rightarrow> 'b \<Rightarrow> u64"
    and hi :: "'s \<Rightarrow> 'b \<Rightarrow> u64"
    and lookup :: "u64 \<Rightarrow> 's \<Rightarrow> 'b option"
  assumes lookup_iff:
    "invar s \<Longrightarrow> lookup a s = Some b \<longleftrightarrow> b \<in> items s \<and> lo s b \<le> a \<and> a < hi s b"
begin

lemma lookup_item: "invar s \<Longrightarrow> lookup a s = Some b \<Longrightarrow> b \<in> items s"
  by (simp add: lookup_iff)

lemma lookup_unique:
  assumes "invar s" "b \<in> items s" "c \<in> items s"
    and "lo s b \<le> a" "a < hi s b" "lo s c \<le> a" "a < hi s c"
  shows "b = c"
proof -
  have "lookup a s = Some b" "lookup a s = Some c" using assms by (simp_all add: lookup_iff)
  then show ?thesis by simp
qed

lemma lookup_None:
  "invar s \<Longrightarrow> lookup a s = None \<longleftrightarrow> (\<forall>b\<in>items s. a < lo s b \<or> hi s b \<le> a)"
  using lookup_iff [of s a] by (metis not_le not_Some_eq)

lemma lookup_interior:
  "invar s \<Longrightarrow> lookup a s = Some b \<Longrightarrow> lo s b \<le> a' \<Longrightarrow> a' < hi s b \<Longrightarrow> lookup a' s = Some b"
  by (simp add: lookup_iff)

lemma lookup_one_past: "invar s \<Longrightarrow> lookup (hi s b) s \<noteq> Some b"
  by (simp add: lookup_iff)

end

section \<open>The allocation map meets it\<close>

lemma find_block_iff:
  assumes "index_inv s"
  shows "find_block_locked a s = Some b \<longleftrightarrow>
    b \<in> blocks s \<and> br_payload_begin b \<le> a \<and> a < br_payload_end b"
proof
  assume "find_block_locked a s = Some b"
  then obtain k where k: "om_floor a (gc_allocations s) = Some (k, b)"
    and r: "br_payload_begin b \<le> a" "a < br_payload_end b"
    by (auto simp: find_block_locked_def split: option.splits if_splits)
  from k have "(k, b) \<in> set (gc_allocations s)"
    using smap.floor_find om_find_mem index_inv_om_wf [OF assms] by metis
  with r show "b \<in> blocks s \<and> br_payload_begin b \<le> a \<and> a < br_payload_end b"
    by (auto simp: blocks_def intro: rev_image_eqI)
next
  let ?p = "(br_payload_begin b, b)"
  assume b: "b \<in> blocks s \<and> br_payload_begin b \<le> a \<and> a < br_payload_end b"
  with assms have p: "?p \<in> set (gc_allocations s)" by (simp add: blocks_iff)
  have "q = ?p" if "q \<in> set (gc_allocations s)" "fst q \<le> a" "br_payload_begin b \<le> fst q" for q
  proof (rule ccontr)
    assume "q \<noteq> ?p"
    note ok = index_inv_block_ok [OF assms p] index_inv_block_ok [OF assms that(1)]
    from index_inv_apart [OF assms p that(1)] \<open>q \<noteq> ?p\<close> show False
      using block_ok_chain [OF ok] block_ok_chain [OF ok(2,1)] b that by auto
  qed
  moreover obtain k c where kc: "om_floor a (gc_allocations s) = Some (k, c)"
    "(k, c) \<in> set (gc_allocations s)" "k \<le> a" "br_payload_begin b \<le> k"
    using smap.floor_above [OF index_inv_om_wf [OF assms]] p b
    by (metis om_find_mem index_inv_om_wf [OF assms])
  ultimately have "c = b" by force
  with kc b show "find_block_locked a s = Some b" by (simp add: find_block_locked_def)
qed

interpretation alloc_index: interval_index index_inv blocks
  "\<lambda>_. br_payload_begin" "\<lambda>_. br_payload_end" find_block_locked
  by unfold_locales (rule find_block_iff)

end
