(* ===== verification/Root_Scanner.thy ===== *)
theory Root_Scanner
  imports Gc_State
begin

text \<open>
  \<open>src/RootScanner.cpp\<close> for a Linux build without AddressSanitizer: the word scan that
  every root source goes through, the register, stack and ELF image scans, and
  \<open>RootScanner::scan\<close>. A visitor is a function on the state it captures. The lemmas
  show which words each scan hands to its visitor.
\<close>

section \<open>Scanning a range\<close>

function scan_loop ::
    "memory \<Rightarrow> addr \<Rightarrow> addr \<Rightarrow> (u64 \<Rightarrow> 's \<Rightarrow> 's) \<Rightarrow> 's \<Rightarrow> 's" where
  "scan_loop m cur finish visitor st =
     (if word_size \<le> finish - cur
      then scan_loop m (cur + word_size) finish visitor (visitor (load_word m cur) st)
      else st)"
  by pat_completeness auto
termination
proof (relation "measure (\<lambda>(m, cur, finish, visitor, st). unat (finish - cur))")
  fix m :: memory and cur finish :: addr and visitor :: "u64 \<Rightarrow> 's \<Rightarrow> 's" and st
  assume le: "8 \<le> finish - cur"
  from le unat_minus_step [OF le] show "((m, cur + 8, finish, visitor, visitor (load_word m cur) st), m, cur, finish, visitor, st)
      \<in> measure (\<lambda>(m, cur, finish, visitor, st). unat (finish - cur))"
    by (simp add: word_le_nat_alt)
qed simp

declare scan_loop.simps [simp del]

definition scan_words ::
    "memory \<Rightarrow> addr \<Rightarrow> addr \<Rightarrow> (u64 \<Rightarrow> 's \<Rightarrow> 's) \<Rightarrow> 's \<Rightarrow> 's" where
  "scan_words m begin_ptr end_ptr visitor st =
     (if begin_ptr = 0 \<or> end_ptr = 0 then st
      else let start = (if end_ptr < begin_ptr then end_ptr else begin_ptr);
               finish = (if end_ptr < begin_ptr then begin_ptr else end_ptr);
               padding = (word_size - start mod word_size) mod word_size
           in if finish - start < padding then st
              else scan_loop m (start + padding) finish visitor st)"

definition scan_range ::
    "memory \<Rightarrow> addr \<Rightarrow> addr \<Rightarrow> (u64 \<Rightarrow> 's \<Rightarrow> 's) \<Rightarrow> 's \<Rightarrow> 's" where
  "scan_range m begin_ptr end_ptr visitor st = scan_words m begin_ptr end_ptr visitor st"

text \<open>
  A scan of an object the program holds as an array of \<open>std::uintptr_t\<close>: a \<open>jmp_buf\<close> on
  the scanner's own frame, or a \<open>register_spill\<close>. Its address is aligned and its size a
  multiple of the word size, so \<open>scan_words\<close> visits every element in order; the lemma
  \<open>scan_words_store_words\<close> below shows it.
\<close>

definition scan_array :: "u64 list \<Rightarrow> (u64 \<Rightarrow> 's \<Rightarrow> 's) \<Rightarrow> 's \<Rightarrow> 's" where
  "scan_array ws visitor st = fold visitor ws st"

section \<open>Registers, stacks and images\<close>

definition scan_registers_frame :: "gc_env \<Rightarrow> (u64 \<Rightarrow> 's \<Rightarrow> 's) \<Rightarrow> 's \<Rightarrow> 's" where
  "scan_registers_frame env visitor st = scan_array (e_registers env) visitor st"

definition scan_registers :: "gc_env \<Rightarrow> (u64 \<Rightarrow> 's \<Rightarrow> 's) \<Rightarrow> 's \<Rightarrow> 's" where
  "scan_registers env visitor st = scan_registers_frame env visitor st"

definition current_fake_stack_handle :: addr where
  "current_fake_stack_handle = 0"

definition scan_stack_range ::
    "memory \<Rightarrow> addr \<Rightarrow> addr \<Rightarrow> addr \<Rightarrow> (u64 \<Rightarrow> 's \<Rightarrow> 's) \<Rightarrow> 's \<Rightarrow> 's" where
  "scan_stack_range m stack_top stack_bottom fake_stack_handle visitor st =
     (if stack_top = 0 \<or> stack_bottom = 0 then st
      else scan_words m stack_top stack_bottom visitor st)"

definition scan_thread_stack ::
    "memory \<Rightarrow> addr \<Rightarrow> addr \<Rightarrow> addr \<Rightarrow> (u64 \<Rightarrow> 's \<Rightarrow> 's) \<Rightarrow> 's \<Rightarrow> 's" where
  "scan_thread_stack m stack_top stack_bottom fake_stack_handle visitor st =
     scan_stack_range m stack_top stack_bottom fake_stack_handle visitor st"

text \<open>\<open>PT_LOAD\<close> and \<open>PF_R | PF_W\<close>.\<close>

definition scan_linux_segment ::
    "memory \<Rightarrow> u64 \<Rightarrow> (u64 \<Rightarrow> 's \<Rightarrow> 's) \<Rightarrow> Elf_Phdr \<Rightarrow> 's \<Rightarrow> 's" where
  "scan_linux_segment m base visitor segment st =
     (if p_type segment \<noteq> 1 \<or> p_flags segment AND 6 \<noteq> 6 \<or> p_memsz segment = 0 then st
      else let begin_addr = base + p_vaddr segment
           in if size_max - begin_addr < p_memsz segment then st
              else scan_words m begin_addr (begin_addr + p_memsz segment) visitor st)"

definition scan_linux_image ::
    "memory \<Rightarrow> (u64 \<Rightarrow> 's \<Rightarrow> 's) \<Rightarrow> dl_phdr_info \<Rightarrow> 's \<Rightarrow> 's" where
  "scan_linux_image m visitor img st =
     fold (scan_linux_segment m (dlpi_addr img) visitor) (dlpi_phdr img) st"

definition scan_globals :: "gc_env \<Rightarrow> memory \<Rightarrow> (u64 \<Rightarrow> 's \<Rightarrow> 's) \<Rightarrow> 's \<Rightarrow> 's" where
  "scan_globals env m visitor st = fold (scan_linux_image m visitor) (e_images env) st"

definition scan :: "gc_env \<Rightarrow> memory \<Rightarrow> addr \<Rightarrow> (u64 \<Rightarrow> 's \<Rightarrow> 's) \<Rightarrow> 's \<Rightarrow> 's" where
  "scan env m stack_bottom visitor st =
     scan_globals env m visitor
       (scan_stack_range m (e_stack_marker env) stack_bottom current_fake_stack_handle visitor
         (scan_registers env visitor st))"

section \<open>The words a scan visits\<close>

definition cursor_list :: "addr \<Rightarrow> addr \<Rightarrow> addr list" where
  "cursor_list cur finish = map (\<lambda>i. cur + 8 * of_nat i) [0..<unat (finish - cur) div 8]"

lemma cursor_list_step:
  assumes "8 \<le> finish - cur"
  shows "cursor_list cur finish = cur # cursor_list (cur + 8) finish"
proof -
  have "unat (finish - (cur + 8)) = unat (finish - cur) - 8" using assms by (rule unat_minus_step)
  moreover have "8 \<le> unat (finish - cur)" using assms by (simp add: word_le_nat_alt)
  ultimately have d: "unat (finish - cur) div 8 = Suc (unat (finish - (cur + 8)) div 8)"
    by simp
  show ?thesis
    by (simp add: cursor_list_def d upt_conv_Cons map_Suc_upt [symmetric] algebra_simps del: upt_Suc)
qed

lemma scan_loop_fold:
  "scan_loop m cur finish v st = fold v (map (load_word m) (cursor_list cur finish)) st"
proof (induction m cur finish v st rule: scan_loop.induct)
  case (1 m cur finish v st)
  show ?case
  proof (cases "8 \<le> finish - cur")
    case True
    have "cursor_list cur finish = cur # cursor_list (cur + 8) finish" by (rule cursor_list_step [OF True])
    with True "1.IH" [OF True] show ?thesis by (simp add: scan_loop.simps [of m cur])
  next
    case False
    then have "unat (finish - cur) div 8 = 0" by (simp add: word_le_nat_alt)
    with False show ?thesis by (simp add: scan_loop.simps [of m cur] cursor_list_def)
  qed
qed

text \<open>The addresses of the words a range scan reads, as the code computes them.\<close>

definition word_addrs :: "addr \<Rightarrow> addr \<Rightarrow> addr list" where
  "word_addrs b e =
     (if b = 0 \<or> e = 0 then []
      else let start = min b e; finish = max b e; padding = (8 - start mod 8) mod 8
           in if finish - start < padding then [] else cursor_list (start + padding) finish)"

lemma scan_words_fold: "scan_words m b e v st = fold v (map (load_word m) (word_addrs b e)) st"
  by (auto simp: scan_words_def word_addrs_def Let_def scan_loop_fold min_def max_def)

lemma unat_padding: "unat ((8 - x mod 8) mod 8 :: u64) = (8 - unat x mod 8) mod 8"
proof -
  have "x mod 8 \<le> 8" by (simp add: word_le_nat_alt unat_mod_distrib less_imp_le)
  then have "unat (8 - x mod 8) = 8 - unat x mod 8" by (simp add: unat_sub unat_mod_distrib)
  then show ?thesis by (simp add: unat_mod_distrib)
qed

lemma round8: "l + (8 - l mod 8) mod 8 = 8 * ((l + 7) div 8 :: nat)"
proof -
  obtain q r where l: "l = 8 * q + r" "r < 8" by (metis mult_div_mod_eq mod_less_divisor zero_less_numeral)
  then have m: "l mod 8 = r" by simp
  show ?thesis
  proof (cases "r = 0")
    case True
    with l have "(l + 7) div 8 = q" by (intro div_nat_eqI) simp_all
    with True l m show ?thesis by simp
  next
    case False
    with l have "(l + 7) div 8 = Suc q" by (intro div_nat_eqI) simp_all
    with False l m show ?thesis by simp
  qed
qed

lemma aligned_range_nat:
  fixes l h :: nat
  shows "(\<lambda>i. 8 * ((l + 7) div 8) + 8 * i) ` {0..<(h - 8 * ((l + 7) div 8)) div 8} =
    {a. a mod 8 = 0 \<and> l \<le> a \<and> a + 8 \<le> h}"
proof -
  define c where "c = (l + 7) div 8"
  have n: "(h - 8 * c) div 8 = h div 8 - c" by simp
  have lo: "l \<le> 8 * j \<longleftrightarrow> c \<le> j" for j unfolding c_def by linarith
  have hi: "8 * j + 8 \<le> h \<longleftrightarrow> j < h div 8" for j by linarith
  have "(\<lambda>i. 8 * c + 8 * i) ` {0..<h div 8 - c} = (\<lambda>j. 8 * j) ` {c..<h div 8}"
  proof -
    have "{c..<h div 8} = (\<lambda>i. c + i) ` {0..<h div 8 - c}"
      by (cases "c \<le> h div 8") (simp_all add: image_add_atLeastLessThan)
    then show ?thesis by (simp only: image_image distrib_left)
  qed
  also have "\<dots> = {a. a mod 8 = 0 \<and> l \<le> a \<and> a + 8 \<le> h}"
  proof (intro set_eqI iffI)
    fix a assume "a \<in> {a. a mod 8 = 0 \<and> l \<le> a \<and> a + 8 \<le> h}"
    then have "a = 8 * (a div 8)" "l \<le> a" "a + 8 \<le> h" by auto
    then show "a \<in> (\<lambda>j. 8 * j) ` {c..<h div 8}" using lo [of "a div 8"] hi [of "a div 8"] by auto
  qed (auto simp: lo hi)
  finally show ?thesis unfolding n [symmetric] by (simp add: c_def)
qed

lemma unat_cursor_list:
  assumes "c \<le> f"
  shows "map unat (cursor_list c f) = map (\<lambda>i. unat c + 8 * i) [0..<(unat f - unat c) div 8]"
proof -
  have "unat (c + 8 * of_nat i) = unat c + 8 * i" if "i < (unat f - unat c) div 8" for i
  proof -
    have b: "unat c + 8 * i < 2 ^ 64" using that unat_less_64 [of f] by linarith
    then have "of_nat (unat c + 8 * i) = c + 8 * (of_nat i :: u64)" by simp
    then show ?thesis using b unat_of_nat [of "unat c + 8 * i", where 'a = 64] by simp
  qed
  then show ?thesis using assms by (simp add: cursor_list_def unat_sub word_le_nat_alt)
qed

lemma unat_word_addrs:
  assumes "b \<noteq> 0" "e \<noteq> 0"
  defines "l \<equiv> unat (min b e)" and "h \<equiv> unat (max b e)"
  defines "s \<equiv> 8 * ((l + 7) div 8)"
  shows "map unat (word_addrs b e) = map (\<lambda>i. s + 8 * i) [0..<(h - s) div 8]"
proof -
  let ?lo = "min b e" and ?hi = "max b e"
  let ?pad = "(8 - ?lo mod 8) mod 8"
  have le: "?lo \<le> ?hi" by (auto simp: min_def max_def)
  have pad: "unat ?pad = s - l" "l \<le> s"
    using round8 [of l] unfolding unat_padding s_def l_def by linarith+
  have d: "unat (?hi - ?lo) = h - l" using le by (simp add: unat_sub l_def h_def)
  show ?thesis
  proof (cases "?hi - ?lo < ?pad")
    case True
    then have "h - l < s - l" by (simp only: word_less_nat_alt pad d)
    then have "(h - s) div 8 = 0" by simp
    with True assms(1,2) show ?thesis by (simp add: word_addrs_def Let_def)
  next
    case False
    then have "s - l \<le> h - l" by (simp only: word_less_nat_alt pad d not_less)
    moreover have "l \<le> h" using le by (simp add: l_def h_def word_le_nat_alt)
    ultimately have sh: "s \<le> h" using pad(2) by linarith
    have "unat ?lo + unat ?pad < 2 ^ 64"
      using sh pad unat_less_64 [of ?hi] by (simp add: l_def h_def)
    then have u: "unat (?lo + ?pad) = s" using pad by (simp add: unat_word_ariths l_def)
    then have "?lo + ?pad \<le> ?hi" using sh by (simp add: word_le_nat_alt h_def)
    from unat_cursor_list [OF this] u False assms(1,2) show ?thesis
      by (simp add: word_addrs_def Let_def h_def)
  qed
qed

text \<open>
  A range scan reads, in increasing order, exactly the complete naturally aligned words of the
  range, whatever the order of its endpoints.
\<close>

lemma set_word_addrs:
  assumes "b \<noteq> 0" "e \<noteq> 0"
  shows "a \<in> set (word_addrs b e) \<longleftrightarrow>
    unat a mod 8 = 0 \<and> unat (min b e) \<le> unat a \<and> unat a + 8 \<le> unat (max b e)"
proof -
  have "a \<in> set (word_addrs b e) \<longleftrightarrow> unat a \<in> set (map unat (word_addrs b e))"
    by (auto simp flip: word_unat_eq_iff)
  also have "\<dots> \<longleftrightarrow> unat a \<in> {x. x mod 8 = 0 \<and> unat (min b e) \<le> x \<and> x + 8 \<le> unat (max b e)}"
    unfolding unat_word_addrs [OF assms] aligned_range_nat [symmetric] by simp
  finally show ?thesis by simp
qed

lemma sorted_word_addrs: "sorted_wrt (<) (word_addrs b e)"
proof (cases "b = 0 \<or> e = 0")
  case False
  then have "sorted_wrt (<) (map unat (word_addrs b e))"
    by (simp add: unat_word_addrs sorted_wrt_map sorted_wrt_upt)
  then show ?thesis
    unfolding sorted_wrt_map by (rule sorted_wrt_mono_rel [rotated]) (simp add: word_less_nat_alt)
qed (simp add: word_addrs_def)

section \<open>Arrays of words in memory\<close>

fun store_words :: "memory \<Rightarrow> addr \<Rightarrow> u64 list \<Rightarrow> memory" where
  "store_words m a [] = m"
| "store_words m a (w # ws) = store_words (store_word m a w) (a + 8) ws"

lemma load_store_words_below:
  assumes "unat c + 8 \<le> unat a" "unat a + 8 * length ws < 2 ^ 64"
  shows "load_word (store_words m a ws) c = load_word m c"
  using assms
proof (induction ws arbitrary: m a)
  case (Cons w ws)
  have u: "unat (a + 8) = unat a + 8" using Cons.prems by (simp add: unat_word_ariths)
  have "c \<le> a" using Cons.prems by (simp add: word_le_nat_alt)
  then have "unat (a - c) = unat a - unat c" by (rule unat_sub)
  moreover have "unat (c - a) = 2 ^ 64 - (unat a - unat c)"
    using Cons.prems by (simp add: unat_sub_if' word_le_nat_alt)
  ultimately have "8 \<le> c - a" "8 \<le> a - c"
    using Cons.prems by (simp_all add: word_le_nat_alt)
  then have "load_word (store_word m a w) c = load_word m c" by (rule load_store_apart)
  then show ?case using Cons.IH [of "a + 8"] Cons.prems u by simp
qed simp

lemma load_store_words:
  assumes "unat a + 8 * length ws < 2 ^ 64" "i < length ws"
  shows "load_word (store_words m a ws) (a + 8 * of_nat i) = ws ! i"
  using assms
proof (induction ws arbitrary: m a i)
  case (Cons w ws)
  have u: "unat (a + 8) = unat a + 8" using Cons.prems by (simp add: unat_word_ariths)
  show ?case
  proof (cases i)
    case 0
    with Cons.prems u load_store_words_below [of a "a + 8" ws "store_word m a w"]
    show ?thesis by simp
  next
    case (Suc j)
    with Cons.IH [of "a + 8" j "store_word m a w"] Cons.prems u
    show ?thesis by (simp add: algebra_simps)
  qed
qed simp

lemma scan_words_store_words:
  assumes "a \<noteq> 0" "unat a mod 8 = 0" "unat a + 8 * length ws < 2 ^ 64"
  shows "scan_words (store_words m a ws) a (a + 8 * of_nat (length ws)) v st = scan_array ws v st"
proof -
  let ?n = "length ws"
  let ?e = "a + 8 * of_nat ?n"
  have "of_nat (unat a + 8 * ?n) = ?e" by simp
  then have e: "unat ?e = unat a + 8 * ?n"
    using assms(3) unat_of_nat [of "unat a + 8 * ?n", where 'a = 64] by simp
  then have "a \<le> ?e" by (simp add: word_le_nat_alt)
  then have "?e \<noteq> 0" using assms(1) by (metis word_le_0_iff)
  have mm: "min a ?e = a" "max a ?e = ?e" using \<open>a \<le> ?e\<close> by simp_all
  have pad: "(8 - a mod 8) mod 8 = 0"
    using unat_padding [of a] assms(2) by (simp add: unat_eq_0)
  have "word_addrs a ?e = cursor_list a ?e"
    using \<open>?e \<noteq> 0\<close> assms(1) mm by (simp add: word_addrs_def Let_def pad)
  then have "word_addrs a ?e = map (\<lambda>i. a + 8 * of_nat i) [0..<?n]"
    using e unat_sub [OF \<open>a \<le> ?e\<close>] by (simp add: cursor_list_def)
  then have "map (load_word (store_words m a ws)) (word_addrs a ?e) = map (\<lambda>i. ws ! i) [0..<?n]"
    using load_store_words [OF assms(3)] by simp
  then show ?thesis by (simp only: scan_words_fold scan_array_def map_nth)
qed

section \<open>All candidates of a thread and of the images\<close>

definition range_candidates :: "memory \<Rightarrow> addr \<Rightarrow> addr \<Rightarrow> u64 list" where
  "range_candidates m b e = map (load_word m) (word_addrs b e)"

definition segment_scanned :: "u64 \<Rightarrow> Elf_Phdr \<Rightarrow> bool" where
  "segment_scanned base segment \<longleftrightarrow>
     p_type segment = 1 \<and> p_flags segment AND 6 = 6 \<and> p_memsz segment \<noteq> 0 \<and>
     p_memsz segment \<le> size_max - (base + p_vaddr segment)"

definition image_candidates :: "memory \<Rightarrow> dl_phdr_info \<Rightarrow> u64 list" where
  "image_candidates m img =
     concat (map (\<lambda>sg. range_candidates m (dlpi_addr img + p_vaddr sg)
                         (dlpi_addr img + p_vaddr sg + p_memsz sg))
       (filter (segment_scanned (dlpi_addr img)) (dlpi_phdr img)))"

definition global_candidates :: "gc_env \<Rightarrow> memory \<Rightarrow> u64 list" where
  "global_candidates env m = concat (map (image_candidates m) (e_images env))"

lemma scan_range_fold [simp]: "scan_range m b e v st = fold v (range_candidates m b e) st"
  by (simp add: scan_range_def scan_words_fold range_candidates_def)

lemma scan_stack_range_fold [simp]:
  "scan_stack_range m t b f v st = fold v (range_candidates m t b) st"
  by (simp add: scan_stack_range_def scan_words_fold range_candidates_def word_addrs_def)

lemma scan_linux_image_fold: "scan_linux_image m v img st = fold v (image_candidates m img) st"
proof -
  have "fold (scan_linux_segment m base v) sgs st =
      fold v (concat (map (\<lambda>sg. range_candidates m (base + p_vaddr sg)
        (base + p_vaddr sg + p_memsz sg)) (filter (segment_scanned base) sgs))) st" for base sgs
    by (induction sgs arbitrary: st)
      (auto simp: scan_linux_segment_def segment_scanned_def scan_words_fold range_candidates_def
        Let_def not_less)
  then show ?thesis by (simp add: scan_linux_image_def image_candidates_def)
qed

lemma fold_concat_map: "fold (\<lambda>x. fold v (g x)) xs st = fold v (concat (map g xs)) st"
  by (induction xs arbitrary: st) simp_all

lemma scan_globals_fold [simp]: "scan_globals env m v st = fold v (global_candidates env m) st"
  by (simp add: scan_globals_def global_candidates_def fold_concat_map [symmetric]
      scan_linux_image_fold [abs_def] fun_eq_iff cong: fold_cong)

lemma scan_fold:
  "scan env m bottom v st =
     fold v (e_registers env @ range_candidates m (e_stack_marker env) bottom @
             global_candidates env m) st"
  by (simp add: scan_def scan_registers_def scan_registers_frame_def scan_array_def)

end
