(* ===== verification/Marking.thy ===== *)
theory Marking
  imports Block_Index Root_Scanner
begin

text \<open>
  The mark phase of \<open>GC_Manager::collect\<close>: clearing the flags, visiting the candidates of
  blocks under construction, registered threads and registered root ranges, and draining the
  worklist through payloads. The vector used as worklist has its back at the head of the list.
  The locale \<open>worklist_tracing\<close> proves the worklist loop once; its interpretation gives
  that marking ends and marks exactly the blocks reachable from the candidates.
\<close>

section \<open>Operations\<close>

type_synonym tracer = "gc_state \<times> BlockRecord list"

definition clear_marks_locked :: "gc_state \<Rightarrow> gc_state" where
  "clear_marks_locked s =
     fold (\<lambda>p s. s\<lparr>gc_headers := (gc_headers s)
             (br_header (snd p) := set_marked False (gc_headers s (br_header (snd p))))\<rparr>)
       (gc_allocations s) s"

fun mark_candidate_locked :: "u64 \<Rightarrow> tracer \<Rightarrow> tracer" where
  "mark_candidate_locked candidate (s, worklist) =
     (case find_block_locked candidate s of
        None \<Rightarrow> (s, worklist)
      | Some block \<Rightarrow>
          let h = br_header block; header = gc_headers s h
          in if ch_magic_number header \<noteq> kChunkMagicNumber \<or> is_marked header
             then (s, worklist)
             else (s\<lparr>gc_headers := (gc_headers s)(h := set_marked True header)\<rparr>,
                   block # worklist))"

definition scan_payload_locked :: "BlockRecord \<Rightarrow> tracer \<Rightarrow> tracer option" where
  "scan_payload_locked block st =
     map_option (\<lambda>cursors.
         fold (\<lambda>cur st. mark_candidate_locked (load_word (gc_mem (fst st)) cur) st) cursors st)
       (payload_cursors (br_payload_begin block) (br_payload_end block))"

definition unmarked_count :: "gc_state \<Rightarrow> nat" where
  "unmarked_count s =
     length (filter (\<lambda>p. \<not> is_marked (header_of s (snd p))) (gc_allocations s))"

lemma find_block_mem: "find_block_locked a s = Some b \<Longrightarrow> b \<in> blocks s"
proof -
  assume "find_block_locked a s = Some b"
  then obtain k where "om_floor a (gc_allocations s) = Some (k, b)"
    by (auto simp: find_block_locked_def split: option.splits if_splits)
  then have "(k, b) \<in> set (gc_allocations s)"
    unfolding om_floor_def Let_def om_upper_bound_def
    by (metis (no_types, lifting) One_nat_def Suc_pred bot_nat_0.not_eq_extremum
        length_takeWhile_le nth_mem option.distinct(1) option.inject Suc_le_eq)
  then show ?thesis by (auto simp: blocks_def intro: rev_image_eqI)
qed

lemma length_filter_strict:
  "p \<in> set xs \<Longrightarrow> P p \<Longrightarrow> \<not> Q p \<Longrightarrow> (\<And>x. Q x \<Longrightarrow> P x) \<Longrightarrow>
   length (filter Q xs) < length (filter P xs)"
proof (induction xs)
  case (Cons x xs)
  have "length (filter Q xs) \<le> length (filter P xs)"
    using Cons.prems(4) by (induction xs) auto
  with Cons show ?case by (cases "x = p") auto
qed simp

lemma mark_candidate_measure:
  "case mark_candidate_locked w (s, wl) of (s', wl') \<Rightarrow>
     unmarked_count s' + length wl' \<le> unmarked_count s + length wl"
proof (cases "find_block_locked w s")
  case (Some b)
  then obtain k where kb: "(k, b) \<in> set (gc_allocations s)"
    using find_block_mem by (fastforce simp: blocks_def)
  let ?s' = "s\<lparr>gc_headers := (gc_headers s)
    (br_header b := set_marked True (gc_headers s (br_header b)))\<rparr>"
  have al: "gc_allocations ?s' = gc_allocations s" by simp
  have "unmarked_count ?s' < unmarked_count s" if "\<not> is_marked (gc_headers s (br_header b))"
    unfolding unmarked_count_def al
    using kb that
    by (intro length_filter_strict [of "(k, b)"]) (auto simp: header_of_def split: if_splits)
  then show ?thesis using Some by (auto simp: Let_def)
qed simp

lemma fold_mark_measure:
  fixes st :: tracer
  defines "f \<equiv> (\<lambda>cur st. mark_candidate_locked (load_word (gc_mem (fst st)) cur) st)"
  shows "unmarked_count (fst (fold f cs st)) + length (snd (fold f cs st))
    \<le> unmarked_count (fst st) + length (snd st)"
proof (induction cs arbitrary: st)
  case (Cons c cs)
  obtain s wl where st: "st = (s, wl)" by (cases st)
  have "unmarked_count (fst (f c st)) + length (snd (f c st)) \<le> unmarked_count s + length wl"
    using mark_candidate_measure [of s wl "load_word (gc_mem s) c"]
    by (simp add: st f_def split: prod.splits)
  with Cons.IH [of "f c st"] show ?case by (simp add: st)
qed simp

lemma scan_payload_measure:
  "scan_payload_locked b (s, wl) = Some st \<Longrightarrow>
   unmarked_count (fst st) + length (snd st) \<le> unmarked_count s + length wl"
  using fold_mark_measure [where st = "(s, wl)"] by (auto simp: scan_payload_locked_def)

function drain_mark_worklist_locked :: "tracer \<Rightarrow> gc_state option" where
  "drain_mark_worklist_locked (s, []) = Some s"
| "drain_mark_worklist_locked (s, block # worklist) =
     (case scan_payload_locked block (s, worklist) of
        None \<Rightarrow> None
      | Some st \<Rightarrow> drain_mark_worklist_locked st)"
  by pat_completeness auto
termination
  by (relation "measure (\<lambda>(s, wl). unmarked_count s + length wl)")
    (auto dest: scan_payload_measure)

definition mark_constructing :: "tracer \<Rightarrow> tracer" where
  "mark_constructing st =
     fold (\<lambda>p st. if br_constructing (snd p) then mark_candidate_locked (fst p) st else st)
       (gc_allocations (fst st)) st"

definition scan_thread :: "gc_env \<Rightarrow> tid \<Rightarrow> tid \<times> ThreadState \<Rightarrow> tracer \<Rightarrow> tracer" where
  "scan_thread env collector entry st =
     (let ts = snd entry; m = gc_mem (fst st) in
      if ts_stack_bottom ts = 0 then st
      else if fst entry = collector
      then scan env m (ts_stack_bottom ts) mark_candidate_locked st
      else scan_thread_stack m (ts_parked_stack_top ts) (ts_stack_bottom ts)
             (ts_fake_stack_handle ts) mark_candidate_locked
             (scan_array (ts_register_spill ts) mark_candidate_locked st))"

definition scan_registered_threads_locked :: "gc_env \<Rightarrow> tid \<Rightarrow> tracer \<Rightarrow> tracer" where
  "scan_registered_threads_locked env collector st =
     fold (scan_thread env collector) (gc_threads (fst st)) st"

definition scan_registered_roots_locked :: "tracer \<Rightarrow> tracer" where
  "scan_registered_roots_locked st =
     fold (\<lambda>r st. scan_range (gc_mem (fst st)) (rr_begin r) (rr_end r) mark_candidate_locked st)
       (gc_root_ranges (fst st)) st"

text \<open>The tracing part of \<open>collect\<close>: every root stage, then the drained worklist.\<close>

definition mark_phase :: "gc_env \<Rightarrow> tid \<Rightarrow> gc_state \<Rightarrow> gc_state option" where
  "mark_phase env collector s =
     drain_mark_worklist_locked
       (scan_registered_roots_locked
         (scan_registered_threads_locked env collector
           (mark_constructing (s, []))))"

section \<open>Specification: conservative reachability\<close>

text \<open>Every word the collector treats as a root, in the order it visits them.\<close>

definition thread_candidates :: "gc_env \<Rightarrow> tid \<Rightarrow> memory \<Rightarrow> tid \<times> ThreadState \<Rightarrow> u64 list" where
  "thread_candidates env collector m entry =
     (let ts = snd entry in
      if ts_stack_bottom ts = 0 then []
      else if fst entry = collector
      then e_registers env @ range_candidates m (e_stack_marker env) (ts_stack_bottom ts) @
           global_candidates env m
      else ts_register_spill ts @
           range_candidates m (ts_parked_stack_top ts) (ts_stack_bottom ts))"

definition root_candidates :: "gc_env \<Rightarrow> tid \<Rightarrow> gc_state \<Rightarrow> u64 list" where
  "root_candidates env collector s =
     map fst (filter (\<lambda>p. br_constructing (snd p)) (gc_allocations s)) @
     concat (map (thread_candidates env collector (gc_mem s)) (gc_threads s)) @
     concat (map (\<lambda>r. range_candidates (gc_mem s) (rr_begin r) (rr_end r)) (gc_root_ranges s))"

definition targets :: "gc_state \<Rightarrow> u64 set \<Rightarrow> BlockRecord set" where
  "targets s ws = {b. \<exists>w\<in>ws. find_block_locked w s = Some b}"

definition refs :: "gc_state \<Rightarrow> BlockRecord \<Rightarrow> BlockRecord set" where
  "refs s b = targets s (set (payload_words (gc_mem s) b))"

definition ref_rel :: "gc_state \<Rightarrow> (BlockRecord \<times> BlockRecord) set" where
  "ref_rel s = {(b, c). b \<in> blocks s \<and> c \<in> refs s b}"

definition reachable :: "gc_env \<Rightarrow> tid \<Rightarrow> gc_state \<Rightarrow> BlockRecord set" where
  "reachable env collector s =
     (ref_rel s)\<^sup>* `` targets s (set (root_candidates env collector s))"

definition marked_blocks :: "gc_state \<Rightarrow> BlockRecord set" where
  "marked_blocks s = {b \<in> blocks s. is_marked (header_of s b)}"

text \<open>Marking changes mark flags only.\<close>

definition marks_only :: "gc_state \<Rightarrow> gc_state \<Rightarrow> bool" where
  "marks_only s s' \<longleftrightarrow>
     s' = s\<lparr>gc_headers := gc_headers s'\<rparr> \<and>
     (\<forall>a. set_marked False (gc_headers s' a) = set_marked False (gc_headers s a))"

section \<open>The worklist loop, abstractly\<close>

locale worklist_tracing =
  fixes invar :: "'s \<Rightarrow> bool"
    and nodes :: "'s \<Rightarrow> 'n set"
    and marked :: "'s \<Rightarrow> 'n set"
    and succs :: "'s \<Rightarrow> 'n \<Rightarrow> 'n set"
    and frame :: "'s \<Rightarrow> 's \<Rightarrow> bool"
    and scan_node :: "'n \<Rightarrow> 's \<times> 'n list \<Rightarrow> ('s \<times> 'n list) option"
    and drain :: "'s \<times> 'n list \<Rightarrow> 's option"
  assumes finite_nodes: "finite (nodes s)"
    and marked_nodes: "marked s \<subseteq> nodes s"
    and succs_nodes: "succs s n \<subseteq> nodes s"
    and frame_refl: "frame s s"
    and frame_trans: "frame s t \<Longrightarrow> frame t u \<Longrightarrow> frame s u"
    and frame_invar: "frame s t \<Longrightarrow> invar s \<Longrightarrow> invar t"
    and frame_nodes: "frame s t \<Longrightarrow> nodes t = nodes s"
    and frame_succs: "frame s t \<Longrightarrow> succs t = succs s"
    and scan_node: "invar s \<Longrightarrow> n \<in> nodes s \<Longrightarrow>
      \<exists>t ns. scan_node n (s, wl) = Some (t, ns @ wl) \<and> frame s t \<and>
        marked t = marked s \<union> succs s n \<and> set ns = succs s n - marked s \<and> distinct ns"
    and drain_Nil: "drain (s, []) = Some s"
    and drain_Cons: "drain (s, n # wl) =
      (case scan_node n (s, wl) of None \<Rightarrow> None | Some st \<Rightarrow> drain st)"
begin

definition succ_rel :: "'s \<Rightarrow> ('n \<times> 'n) set" where
  "succ_rel s = {(a, b). a \<in> nodes s \<and> b \<in> succs s a}"

lemma closed_rtrancl:
  assumes "\<forall>n\<in>M. succs s n \<subseteq> M"
  shows "(succ_rel s)\<^sup>* `` M = M"
proof -
  have "y \<in> M" if "(x, y) \<in> (succ_rel s)\<^sup>*" "x \<in> M" for x y
    using that by (induction rule: rtrancl_induct) (use assms in \<open>auto simp: succ_rel_def\<close>)
  then show ?thesis by auto
qed

lemma grow_rtrancl:
  assumes "n \<in> M" "n \<in> nodes s"
  shows "(succ_rel s)\<^sup>* `` (M \<union> succs s n) = (succ_rel s)\<^sup>* `` M"
proof -
  have "(n, b) \<in> succ_rel s" if "b \<in> succs s n" for b using assms that by (simp add: succ_rel_def)
  then have "succs s n \<subseteq> (succ_rel s)\<^sup>* `` M" using assms(1) by blast
  then show ?thesis by (blast intro: rtrancl_trans)
qed

text \<open>Draining ends, and marks the closure of what was marked before.\<close>

lemma drain_closure:
  assumes "invar s" "set wl \<subseteq> marked s" "\<forall>n \<in> marked s - set wl. succs s n \<subseteq> marked s"
  shows "\<exists>t. drain (s, wl) = Some t \<and> frame s t \<and> marked t = (succ_rel s)\<^sup>* `` marked s"
  using assms
proof (induction "card (nodes s - marked s) + length wl" arbitrary: s wl rule: less_induct)
  case less
  show ?case
  proof (cases wl)
    case Nil
    with less.prems show ?thesis using closed_rtrancl [of "marked s" s] frame_refl
      by (simp add: drain_Nil)
  next
    case (Cons n wl')
    then have n: "n \<in> marked s" "n \<in> nodes s" using less.prems(2) marked_nodes by auto
    from scan_node [OF less.prems(1) n(2), of wl'] obtain t ns where t:
      "scan_node n (s, wl') = Some (t, ns @ wl')" "frame s t"
      "marked t = marked s \<union> succs s n" "set ns = succs s n - marked s" "distinct ns"
      by blast
    have nt: "nodes t = nodes s" "succs t = succs s" "succ_rel t = succ_rel s"
      using t(2) by (simp_all add: frame_nodes frame_succs succ_rel_def)
    have "nodes t - marked t = (nodes s - marked s) - set ns" using t(3,4) nt by auto
    moreover have "set ns \<subseteq> nodes s - marked s" using t(4) succs_nodes by blast
    ultimately have "card (nodes t - marked t) + length ns = card (nodes s - marked s)"
      using t(5) finite_nodes [of s]
      by (metis card_Diff_subset card_mono distinct_card finite_Diff finite_subset le_add_diff_inverse2)
    then have m: "card (nodes t - marked t) + length (ns @ wl') < card (nodes s - marked s) + length wl"
      by (simp add: Cons)
    have "\<exists>u. drain (t, ns @ wl') = Some u \<and> frame t u \<and> marked u = (succ_rel t)\<^sup>* `` marked t"
    proof (rule less.hyps [OF m])
      show "invar t" using t(2) less.prems(1) by (rule frame_invar)
      show "set (ns @ wl') \<subseteq> marked t" using less.prems(2) Cons t(3,4) by auto
      show "\<forall>k \<in> marked t - set (ns @ wl'). succs t k \<subseteq> marked t"
        using less.prems(3) Cons t(3,4) nt by auto
    qed
    then show ?thesis
      using t(1,2) Cons grow_rtrancl [OF n] frame_trans
      by (auto simp: drain_Cons nt t(3))
  qed
qed

end

section \<open>The model's marking is an instance\<close>

lemma marks_only_refl [simp]: "marks_only s s"
  by (simp add: marks_only_def)

lemma marks_only_trans: "marks_only s t \<Longrightarrow> marks_only t u \<Longrightarrow> marks_only s u"
  unfolding marks_only_def by (metis gc_state.update_convs(2) gc_state.surjective)

lemma marks_only_sel [frame_simps]:
  assumes "marks_only s t"
  shows "gc_mem t = gc_mem s" "gc_regions t = gc_regions s" "gc_events t = gc_events s"
    "gc_allocations t = gc_allocations s" "gc_threads t = gc_threads s"
    "gc_root_ranges t = gc_root_ranges s" "gc_weak_refs t = gc_weak_refs s"
    "gc_managed_bytes t = gc_managed_bytes s" "gc_reserved_bytes t = gc_reserved_bytes s"
    "gc_collection_threshold_bytes t = gc_collection_threshold_bytes s"
    "gc_collector_thread t = gc_collector_thread s"
    "gc_stop_the_world_requested t = gc_stop_the_world_requested s"
    "gc_collecting t = gc_collecting s" "gc_stats t = gc_stats s"
  using assms unfolding marks_only_def by (metis gc_state.ext_inject gc_state.surjective gc_state.update_convs(2))+

lemma marks_only_shape: "marks_only s t \<Longrightarrow> same_shape (gc_headers s a) (gc_headers t a)"
  unfolding marks_only_def same_shape_def by (metis set_marked_sel)

lemma marks_only_blocks: "marks_only s t \<Longrightarrow> blocks t = blocks s"
  by (simp add: blocks_def frame_simps)

lemma marks_only_find: "marks_only s t \<Longrightarrow> find_block_locked w t = find_block_locked w s"
  by (simp add: find_block_locked_def frame_simps)

lemma marks_only_refs: "marks_only s t \<Longrightarrow> refs t = refs s"
  by (simp add: refs_def targets_def fun_eq_iff marks_only_find frame_simps)

lemma marks_only_inv: "marks_only s t \<Longrightarrow> index_inv s \<Longrightarrow> index_inv t"
  by (subst index_inv_cong [of t s]) (simp_all add: frame_simps header_of_def marks_only_shape)

lemma marks_only_set_marked:
  "marks_only s (s\<lparr>gc_headers := (gc_headers s)(a := set_marked v (gc_headers s a))\<rparr>)"
  by (simp add: marks_only_def set_marked_def)

lemma targets_blocks: "targets s ws \<subseteq> blocks s"
  by (auto simp: targets_def dest: find_block_mem)

lemma targets_insert: "targets s (insert w ws) = targets s {w} \<union> targets s ws"
  by (auto simp: targets_def)

lemma mark_candidate_effect:
  assumes "index_inv s"
  shows "\<exists>t ns. mark_candidate_locked w (s, wl) = (t, ns @ wl) \<and> marks_only s t \<and>
    marked_blocks t = marked_blocks s \<union> targets s {w} \<and>
    set ns = targets s {w} - marked_blocks s \<and> distinct ns"
proof (cases "find_block_locked w s")
  case None
  then show ?thesis by (auto simp: targets_def intro!: exI [of _ s])
next
  case (Some b)
  then have b: "b \<in> blocks s" by (rule find_block_mem)
  have tg: "targets s {w} = {b}" using Some by (simp add: targets_def)
  have magic: "ch_magic_number (header_of s b) = kChunkMagicNumber"
    using index_inv_block_ok [OF assms] b
    by (fastforce simp: blocks_iff [OF assms] block_ok_def Let_def header_of_def)
  show ?thesis
  proof (cases "is_marked (header_of s b)")
    case True
    then have "b \<in> marked_blocks s" using b by (simp add: marked_blocks_def)
    with Some True tg show ?thesis
      by (auto simp: Let_def header_of_def intro!: exI [of _ s] exI [of _ "[]"])
  next
    case False
    let ?t = "s\<lparr>gc_headers := (gc_headers s)
      (br_header b := set_marked True (gc_headers s (br_header b)))\<rparr>"
    have "blocks ?t = blocks s" by (simp add: blocks_def)
    then have "marked_blocks ?t = insert b (marked_blocks s)"
      using b blocks_header_inj [OF assms _ b]
      by (auto simp: marked_blocks_def header_of_def)
    moreover have "mark_candidate_locked w (s, wl) = (?t, [b] @ wl)"
      using Some False magic by (simp add: Let_def header_of_def)
    moreover have "b \<notin> marked_blocks s" using False by (simp add: marked_blocks_def)
    ultimately show ?thesis using tg marks_only_set_marked [of s]
      by (intro exI [of _ ?t] exI [of _ "[b]"]) auto
  qed
qed

lemma fold_mark_effect:
  assumes "index_inv s"
  shows "\<exists>t ns. fold mark_candidate_locked ws (s, wl) = (t, ns @ wl) \<and> marks_only s t \<and>
    marked_blocks t = marked_blocks s \<union> targets s (set ws) \<and>
    set ns = targets s (set ws) - marked_blocks s \<and> distinct ns"
  using assms
proof (induction ws arbitrary: s wl)
  case Nil
  then show ?case by (auto simp: targets_def intro!: exI [of _ s])
next
  case (Cons w ws)
  from mark_candidate_effect [OF Cons.prems, of w wl] obtain t ns where t:
    "mark_candidate_locked w (s, wl) = (t, ns @ wl)" "marks_only s t"
    "marked_blocks t = marked_blocks s \<union> targets s {w}"
    "set ns = targets s {w} - marked_blocks s" "distinct ns" by blast
  from Cons.IH [OF marks_only_inv [OF t(2) Cons.prems], of "ns @ wl"] obtain u ms where u:
    "fold mark_candidate_locked ws (t, ns @ wl) = (u, ms @ ns @ wl)" "marks_only t u"
    "marked_blocks u = marked_blocks t \<union> targets t (set ws)"
    "set ms = targets t (set ws) - marked_blocks t" "distinct ms" by blast
  have tg: "targets t (set ws) = targets s (set ws)"
    using t(2) by (simp add: targets_def marks_only_find)
  show ?case
    using t u tg marks_only_trans targets_insert [of s w "set ws"]
    by (intro exI [of _ u] exI [of _ "ms @ ns"]) auto
qed

lemma fold_mark_mem:
  "fold (\<lambda>cur st. mark_candidate_locked (load_word (gc_mem (fst st)) cur) st) cs st =
   fold mark_candidate_locked (map (load_word (gc_mem (fst st))) cs) st"
proof (induction cs arbitrary: st)
  case (Cons c cs)
  obtain s wl where st: "st = (s, wl)" by (cases st)
  have "gc_mem (fst (mark_candidate_locked w (s, wl))) = gc_mem s" for w
    by (simp add: Let_def split: option.splits)
  with Cons.IH show ?case by (simp add: st)
qed simp

lemma scan_payload_words:
  assumes "index_inv s" "b \<in> blocks s"
  shows "scan_payload_locked b (s, wl) =
    Some (fold mark_candidate_locked (payload_words (gc_mem s) b) (s, wl))"
proof -
  let ?p = "(br_payload_begin b, b)"
  have "block_ok (gc_headers s) ?p" using assms by (simp add: blocks_iff index_inv_block_ok)
  then obtain cs where
    "payload_cursors (br_payload_begin b) (br_payload_end b) = Some cs"
    "map (load_word (gc_mem s)) cs = payload_words (gc_mem s) b"
    using payload_cursors_block [of "gc_headers s" ?p "gc_mem s"] by auto
  then show ?thesis by (simp add: scan_payload_locked_def fold_mark_mem)
qed

interpretation marker: worklist_tracing index_inv blocks marked_blocks refs marks_only
  scan_payload_locked drain_mark_worklist_locked
proof
  show "marked_blocks s \<subseteq> blocks s" for s by (auto simp: marked_blocks_def)
  show "refs s n \<subseteq> blocks s" for s n by (simp add: refs_def targets_blocks)
  show "\<exists>t ns. scan_payload_locked n (s, wl) = Some (t, ns @ wl) \<and> marks_only s t \<and>
      marked_blocks t = marked_blocks s \<union> refs s n \<and>
      set ns = refs s n - marked_blocks s \<and> distinct ns"
    if "index_inv s" "n \<in> blocks s" for s n wl
    using fold_mark_effect [OF that(1)] by (simp add: scan_payload_words [OF that] refs_def)
qed (auto simp: marks_only_blocks marks_only_refs intro: marks_only_trans marks_only_inv)

section \<open>The mark phase\<close>

lemma set_marked_idem [simp]: "set_marked v (set_marked w h) = set_marked v h"
  by (simp add: set_marked_def)

lemma clear_marks_eq:
  "clear_marks_locked s = s\<lparr>gc_headers := (\<lambda>a.
     if a \<in> br_header ` blocks s then set_marked False (gc_headers s a) else gc_headers s a)\<rparr>"
proof -
  let ?f = "\<lambda>p s. s\<lparr>gc_headers := (gc_headers s)
    (br_header (snd p) := set_marked False (gc_headers s (br_header (snd p))))\<rparr>"
  have "fold ?f ps s = s\<lparr>gc_headers := (\<lambda>a. if a \<in> br_header ` snd ` set ps
      then set_marked False (gc_headers s a) else gc_headers s a)\<rparr>" for ps s
  proof (induction ps arbitrary: s)
    case (Cons p ps)
    show ?case
      by (simp only: fold_simps comp_apply Cons.IH)
        (simp add: fun_eq_iff)
  qed simp
  then show ?thesis by (simp add: clear_marks_locked_def blocks_def)
qed

lemma clear_marks_only: "marks_only s (clear_marks_locked s)"
  by (simp add: clear_marks_eq marks_only_def)

lemma clear_marks_none: "marked_blocks (clear_marks_locked s) = {}"
  by (simp add: clear_marks_eq marked_blocks_def header_of_def blocks_def)

text \<open>Every root stage is a fold of \<open>mark_candidate_locked\<close> over its candidates.\<close>

lemma mark_constructing_fold:
  "mark_constructing st = fold mark_candidate_locked
     (map fst (filter (\<lambda>p. br_constructing (snd p)) (gc_allocations (fst st)))) st"
proof -
  have "fold (\<lambda>p st. if br_constructing (snd p) then mark_candidate_locked (fst p) st else st) ps st =
      fold mark_candidate_locked (map fst (filter (\<lambda>p. br_constructing (snd p)) ps)) st" for ps st
    by (induction ps arbitrary: st) simp_all
  then show ?thesis by (simp add: mark_constructing_def)
qed

lemma gc_mem_fold_mark: "gc_mem (fst (fold mark_candidate_locked ws st)) = gc_mem (fst st)"
proof (induction ws arbitrary: st)
  case (Cons w ws)
  have "gc_mem (fst (mark_candidate_locked w st)) = gc_mem (fst st)"
    by (cases st) (simp add: Let_def split: option.splits)
  with Cons.IH [of "mark_candidate_locked w st"] show ?case by simp
qed simp

lemma scan_thread_fold:
  "scan_thread env c entry st =
     fold mark_candidate_locked (thread_candidates env c (gc_mem (fst st)) entry) st"
  by (simp add: scan_thread_def thread_candidates_def Let_def scan_fold scan_thread_stack_def
      scan_array_def)

lemma scan_registered_threads_fold:
  "scan_registered_threads_locked env c st = fold mark_candidate_locked
     (concat (map (thread_candidates env c (gc_mem (fst st))) (gc_threads (fst st)))) st"
proof -
  have "fold (scan_thread env c) es st = fold mark_candidate_locked
      (concat (map (thread_candidates env c (gc_mem (fst st))) es)) st" for es st
    by (induction es arbitrary: st) (simp_all add: scan_thread_fold gc_mem_fold_mark)
  then show ?thesis by (simp add: scan_registered_threads_locked_def)
qed

lemma scan_registered_roots_fold:
  "scan_registered_roots_locked st = fold mark_candidate_locked
     (concat (map (\<lambda>r. range_candidates (gc_mem (fst st)) (rr_begin r) (rr_end r))
       (gc_root_ranges (fst st)))) st"
proof -
  have "fold (\<lambda>r st. scan_range (gc_mem (fst st)) (rr_begin r) (rr_end r) mark_candidate_locked st) rs st =
      fold mark_candidate_locked
        (concat (map (\<lambda>r. range_candidates (gc_mem (fst st)) (rr_begin r) (rr_end r)) rs)) st" for rs st
    by (induction rs arbitrary: st) (simp_all add: gc_mem_fold_mark)
  then show ?thesis by (simp add: scan_registered_roots_locked_def)
qed

lemma fold_mark_keeps:
  "gc_allocations (fst (fold mark_candidate_locked ws st)) = gc_allocations (fst st)"
  "gc_threads (fst (fold mark_candidate_locked ws st)) = gc_threads (fst st)"
  "gc_root_ranges (fst (fold mark_candidate_locked ws st)) = gc_root_ranges (fst st)"
proof -
  have "gc_allocations (fst (mark_candidate_locked w st)) = gc_allocations (fst st) \<and>
      gc_threads (fst (mark_candidate_locked w st)) = gc_threads (fst st) \<and>
      gc_root_ranges (fst (mark_candidate_locked w st)) = gc_root_ranges (fst st)" for w st
    by (cases st) (simp add: Let_def split: option.splits)
  then show
    "gc_allocations (fst (fold mark_candidate_locked ws st)) = gc_allocations (fst st)"
    "gc_threads (fst (fold mark_candidate_locked ws st)) = gc_threads (fst st)"
    "gc_root_ranges (fst (fold mark_candidate_locked ws st)) = gc_root_ranges (fst st)"
    by (induction ws arbitrary: st; simp)+
qed

lemma root_stages_fold:
  "scan_registered_roots_locked (scan_registered_threads_locked env c (mark_constructing (s, wl))) =
     fold mark_candidate_locked (root_candidates env c s) (s, wl)"
  by (simp add: scan_registered_roots_fold scan_registered_threads_fold mark_constructing_fold
      gc_mem_fold_mark fold_mark_keeps root_candidates_def)

lemma marks_only_reachable: "marks_only s t \<Longrightarrow> reachable env c t = reachable env c s"
  by (simp add: reachable_def ref_rel_def marks_only_refs marks_only_blocks targets_def
      marks_only_find root_candidates_def frame_simps)

lemma succ_rel_eq: "marker.succ_rel s = ref_rel s"
  by (simp add: marker.succ_rel_def ref_rel_def)

lemma mark_phase_reachable:
  assumes inv: "index_inv s" and unmarked: "marked_blocks s = {}"
  shows "\<exists>t. mark_phase env c s = Some t \<and> marks_only s t \<and> marked_blocks t = reachable env c s"
proof -
  from fold_mark_effect [OF inv, of "root_candidates env c s" "[]"] obtain t ns where t:
    "fold mark_candidate_locked (root_candidates env c s) (s, []) = (t, ns)" "marks_only s t"
    "marked_blocks t = targets s (set (root_candidates env c s))"
    "set ns = marked_blocks t"
    using unmarked by auto
  from t(4) have "set ns \<subseteq> marked_blocks t" "\<forall>n\<in>marked_blocks t - set ns. refs t n \<subseteq> marked_blocks t"
    by auto
  from marker.drain_closure [OF marks_only_inv [OF t(2) inv] this] obtain u where u:
    "drain_mark_worklist_locked (t, ns) = Some u" "marks_only t u"
    "marked_blocks u = (ref_rel t)\<^sup>* `` marked_blocks t"
    by (auto simp: succ_rel_eq)
  have "ref_rel t = ref_rel s"
    using t(2) by (simp add: ref_rel_def marks_only_refs marks_only_blocks)
  with u(3) t(3) have "marked_blocks u = reachable env c s" by (simp add: reachable_def)
  with t(1,2) u(1,2) show ?thesis
    by (metis mark_phase_def root_stages_fold marks_only_trans)
qed

text \<open>Clearing and tracing together, from any state of the flags.\<close>

lemma clear_and_mark:
  assumes "index_inv s"
  shows "\<exists>t. mark_phase env c (clear_marks_locked s) = Some t \<and> marks_only s t \<and>
    marked_blocks t = reachable env c s"
  using mark_phase_reachable [OF marks_only_inv [OF clear_marks_only assms] clear_marks_none, of env c]
    marks_only_reachable [OF clear_marks_only, of env c s] marks_only_trans [OF clear_marks_only]
  by auto

end
