(* ===== verification/Finalization_Order.thy ===== *)
theory Finalization_Order
  imports Block_Index
begin

text \<open>
  \<open>order_blocks_for_finalization_locked\<close>: the reference graph among the blocks to be
  reclaimed, a topological sort that takes the ready block with the highest address first, and
  the blocks left over by cycles in descending order. The lemmas show that the order is a
  permutation of the blocks and that a referrer comes before what it refers to unless a cycle
  leads to the target.
\<close>

section \<open>Operations\<close>

text \<open>\<open>std::map<std::uintptr_t, std::size_t> index_by_begin\<close>.\<close>

definition index_by_begin :: "BlockRecord list \<Rightarrow> (addr, nat) omap" where
  "index_by_begin bs =
     fold (\<lambda>i m. om_emplace (br_payload_begin (bs ! i)) i m) [0..<length bs] []"

definition edge_target :: "BlockRecord list \<Rightarrow> (addr, nat) omap \<Rightarrow> nat \<Rightarrow> u64 \<Rightarrow> nat option" where
  "edge_target bs idx source_index candidate =
     (case om_floor candidate idx of
        None \<Rightarrow> None
      | Some (k, target_index) \<Rightarrow>
          if candidate < br_payload_begin (bs ! target_index) \<or>
             br_payload_end (bs ! target_index) \<le> candidate \<or> target_index = source_index
          then None else Some target_index)"

text \<open>The graph under construction: \<open>edges\<close> and \<open>indegree\<close>.\<close>

type_synonym fgraph = "nat list list \<times> nat list"

fun add_edge :: "BlockRecord list \<Rightarrow> (addr, nat) omap \<Rightarrow> nat \<Rightarrow> u64 \<Rightarrow> fgraph \<Rightarrow> fgraph" where
  "add_edge bs idx source_index candidate (edges, indegree) =
     (case edge_target bs idx source_index candidate of
        None \<Rightarrow> (edges, indegree)
      | Some t \<Rightarrow>
          if t \<in> set (edges ! source_index) then (edges, indegree)
          else (edges[source_index := edges ! source_index @ [t]],
                indegree[t := indegree ! t + 1]))"

definition scan_source ::
    "memory \<Rightarrow> BlockRecord list \<Rightarrow> (addr, nat) omap \<Rightarrow> nat \<Rightarrow> fgraph \<Rightarrow> fgraph option" where
  "scan_source m bs idx source_index g =
     map_option (\<lambda>cursors. fold (\<lambda>cur. add_edge bs idx source_index (load_word m cur)) cursors g)
       (payload_cursors (br_payload_begin (bs ! source_index)) (br_payload_end (bs ! source_index)))"

fun build_graph ::
    "memory \<Rightarrow> BlockRecord list \<Rightarrow> (addr, nat) omap \<Rightarrow> nat list \<Rightarrow> fgraph \<Rightarrow> fgraph option" where
  "build_graph m bs idx [] g = Some g"
| "build_graph m bs idx (i # is) g =
     (case scan_source m bs idx i g of
        None \<Rightarrow> None
      | Some g' \<Rightarrow> build_graph m bs idx is g')"

text \<open>
  \<open>std::priority_queue<std::size_t, std::vector<std::size_t>, higher_address_first> ready\<close>:
  \<open>top\<close> is an index whose block has the highest payload address.
\<close>

definition pq_push :: "nat \<Rightarrow> nat list \<Rightarrow> nat list" where
  "pq_push i q = i # q"

definition higher_address :: "BlockRecord list \<Rightarrow> nat \<Rightarrow> nat \<Rightarrow> nat" where
  "higher_address bs i best =
     (if br_payload_begin (bs ! best) < br_payload_begin (bs ! i) then i else best)"

definition pq_top :: "BlockRecord list \<Rightarrow> nat list \<Rightarrow> nat" where
  "pq_top bs q = fold (higher_address bs) (tl q) (hd q)"

definition pq_pop :: "BlockRecord list \<Rightarrow> nat list \<Rightarrow> nat list" where
  "pq_pop bs q = remove1 (pq_top bs q) q"

text \<open>
  One outgoing edge of an emitted block. The index is in range in every call; the test keeps
  the definition total.
\<close>

fun kahn_relax :: "nat \<Rightarrow> nat list \<times> nat list \<Rightarrow> nat list \<times> nat list" where
  "kahn_relax t (indegree, ready) =
     (if t < length indegree \<and> 0 < indegree ! t
      then let d = indegree ! t - 1
           in (indegree[t := d], if d = 0 then pq_push t ready else ready)
      else (indegree, ready))"

lemma kahn_relax_measure:
  "sum_list (fst (kahn_relax t st)) + length (snd (kahn_relax t st))
    \<le> sum_list (fst st) + length (snd st)"
proof (cases st)
  case (Pair indegree ready)
  have "sum_list (indegree[t := indegree ! t - 1]) = sum_list indegree - 1"
    if "t < length indegree" "0 < indegree ! t"
    using that by (simp add: sum_list_update)
  moreover have "1 \<le> sum_list indegree" if "t < length indegree" "0 < indegree ! t"
    using that member_le_sum_list [of "indegree ! t" indegree] by (simp add: Suc_le_eq)
  ultimately show ?thesis by (auto simp: Pair Let_def pq_push_def)
qed

lemma fold_kahn_relax_measure:
  "sum_list (fst (fold kahn_relax ts st)) + length (snd (fold kahn_relax ts st))
    \<le> sum_list (fst st) + length (snd st)"
proof (induction ts arbitrary: st)
  case (Cons t ts)
  show ?case using Cons.IH [of "kahn_relax t st"] kahn_relax_measure [of t st] by simp
qed simp

lemma fold_higher_address:
  "fold (higher_address bs) xs x \<in> insert x (set xs) \<and>
   (\<forall>y \<in> insert x (set xs). br_payload_begin (bs ! y) \<le>
      br_payload_begin (bs ! fold (higher_address bs) xs x))"
proof (induction xs arbitrary: x)
  case (Cons z xs)
  let ?b = "higher_address bs z x"
  have b: "?b = z \<or> ?b = x" "br_payload_begin (bs ! x) \<le> br_payload_begin (bs ! ?b)"
    "br_payload_begin (bs ! z) \<le> br_payload_begin (bs ! ?b)"
    by (auto simp: higher_address_def)
  let ?r = "fold (higher_address bs) xs ?b"
  from Cons.IH [of ?b] have r: "?r = ?b \<or> ?r \<in> set xs"
    "br_payload_begin (bs ! ?b) \<le> br_payload_begin (bs ! ?r)"
    "\<forall>y\<in>set xs. br_payload_begin (bs ! y) \<le> br_payload_begin (bs ! ?r)" by auto
  with b have "br_payload_begin (bs ! x) \<le> br_payload_begin (bs ! ?r)"
    "br_payload_begin (bs ! z) \<le> br_payload_begin (bs ! ?r)" by (auto intro: order_trans)
  with b(1) r show ?case by auto
qed simp

lemma pq_top_mem: "q \<noteq> [] \<Longrightarrow> pq_top bs q \<in> set q"
  using fold_higher_address [of bs "tl q" "hd q"] by (cases q) (simp_all add: pq_top_def)

lemma pq_top_max: "x \<in> set q \<Longrightarrow> br_payload_begin (bs ! x) \<le> br_payload_begin (bs ! pq_top bs q)"
  using fold_higher_address [of bs "tl q" "hd q"] by (cases q) (auto simp: pq_top_def)

text \<open>
  The \<open>while (!ready.empty())\<close> loop on \<open>(indegree, ready, ordered, emitted)\<close>. The
  vector \<open>ordered\<close> holds indices here; their headers are taken at the end.
\<close>

function kahn_loop ::
    "BlockRecord list \<Rightarrow> nat list list \<Rightarrow> nat list \<times> nat list \<times> nat list \<times> bool list \<Rightarrow>
     nat list \<times> bool list" where
  "kahn_loop bs edges (indegree, ready, ordered, emitted) =
     (if ready = [] then (ordered, emitted)
      else let i = pq_top bs ready; ready' = pq_pop bs ready
           in if emitted ! i then kahn_loop bs edges (indegree, ready', ordered, emitted)
              else let st = fold kahn_relax (edges ! i) (indegree, ready')
                   in kahn_loop bs edges (fst st, snd st, ordered @ [i], emitted[i := True]))"
  by pat_completeness auto
termination
proof (relation "measure (\<lambda>(bs, edges, indegree, ready, ordered, emitted).
    sum_list indegree + length ready)", goal_cases)
  case (2 bs edges indegree ready ordered emitted i ready')
  then have "length ready' < length ready"
    using pq_top_mem [of ready bs] by (simp add: pq_pop_def length_remove1 length_greater_0_conv)
  then show ?case by simp
next
  case (3 bs edges indegree ready ordered emitted i ready' st)
  then have "length ready' < length ready"
    using pq_top_mem [of ready bs] by (simp add: pq_pop_def length_remove1 length_greater_0_conv)
  then show ?case
    using fold_kahn_relax_measure [of "edges ! i" "(indegree, ready')"] 3 by simp
qed simp

declare kahn_loop.simps [simp del]

text \<open>The indices of the blocks in finalization order.\<close>

definition finalization_indices :: "memory \<Rightarrow> BlockRecord list \<Rightarrow> nat list option" where
  "finalization_indices m bs =
     (let n = length bs in
      if n \<le> 1 then Some [0..<n]
      else map_option (\<lambda>g.
          let (edges, indegree) = g;
              ready = fold pq_push (filter (\<lambda>i. indegree ! i = 0) [0..<n]) [];
              (ordered, emitted) = kahn_loop bs edges (indegree, ready, [], replicate n False)
          in ordered @ filter (\<lambda>i. \<not> emitted ! i) (rev [0..<n]))
        (build_graph m bs (index_by_begin bs) [0..<n] (replicate n [], replicate n 0)))"

definition order_blocks_for_finalization_locked ::
    "gc_env \<Rightarrow> BlockRecord list \<Rightarrow> addr list gc" where
  "order_blocks_for_finalization_locked env bs s =
     (if bs \<noteq> [] \<and> e_alloc_fails env Ordering_Graph then (Throw Bad_Alloc, s)
      else case finalization_indices (gc_mem s) bs of
             None \<Rightarrow> (Diverge, s)
           | Some is \<Rightarrow> (Return (map (\<lambda>i. br_header (bs ! i)) is), s))"

section \<open>The ready queue\<close>

locale max_priority_queue =
  fixes key :: "'x \<Rightarrow> 'k::linorder"
    and elems :: "'q \<Rightarrow> 'x multiset"
    and push :: "'x \<Rightarrow> 'q \<Rightarrow> 'q"
    and top :: "'q \<Rightarrow> 'x"
    and pop :: "'q \<Rightarrow> 'q"
  assumes elems_push: "elems (push x q) = add_mset x (elems q)"
    and top_mem: "elems q \<noteq> {#} \<Longrightarrow> top q \<in># elems q"
    and top_max: "x \<in># elems q \<Longrightarrow> key x \<le> key (top q)"
    and elems_pop: "elems q \<noteq> {#} \<Longrightarrow> elems (pop q) = elems q - {#top q#}"
begin

lemma top_pop: "elems q \<noteq> {#} \<Longrightarrow> add_mset (top q) (elems (pop q)) = elems q"
  by (simp add: elems_pop top_mem)

lemma size_pop: "elems q \<noteq> {#} \<Longrightarrow> size (elems (pop q)) < size (elems q)"
  by (metis lessI size_add_mset top_pop)

lemma top_pop_decreasing:
  assumes "elems q \<noteq> {#}" "elems (pop q) \<noteq> {#}"
  shows "key (top (pop q)) \<le> key (top q)"
  using top_mem [OF assms(2)] assms(1) by (metis add_mset_add_single elems_pop in_diffD top_max)

lemma top_push: "key (top (push x q)) = (if elems q = {#} then key x else max (key x) (key (top q)))"
proof (cases "elems q = {#}")
  case True
  then show ?thesis using top_mem [of "push x q"] by (simp add: elems_push)
next
  case False
  have "top (push x q) \<in># add_mset x (elems q)" using top_mem [of "push x q"] by (simp add: elems_push)
  moreover have "key x \<le> key (top (push x q))" "key (top q) \<le> key (top (push x q))"
    using False top_mem by (auto intro!: top_max simp: elems_push)
  ultimately show ?thesis using False top_max [of "top (push x q)" q] by (auto simp: max_def)
qed

end

interpretation ready_queue: max_priority_queue "\<lambda>i. br_payload_begin (bs ! i)" mset pq_push
    "pq_top bs" "pq_pop bs"
  for bs :: "BlockRecord list"
  by unfold_locales (auto simp: pq_push_def pq_pop_def pq_top_mem pq_top_max)

section \<open>The graph\<close>

text \<open>Blocks as the sweep lists them: in address order, apart, in the lower half.\<close>

definition blocks_listed :: "BlockRecord list \<Rightarrow> bool" where
  "blocks_listed bs \<longleftrightarrow>
     sorted_wrt (\<lambda>b c. br_payload_end b \<le> br_payload_begin c) bs \<and>
     (\<forall>b\<in>set bs. br_payload_begin b < br_payload_end b \<and> unat (br_payload_end b) \<le> 2 ^ 63)"

lemma blocks_listed_nth:
  assumes "blocks_listed bs" "i < j" "j < length bs"
  shows "br_payload_begin (bs ! i) < br_payload_begin (bs ! j)"
    "br_payload_end (bs ! i) \<le> br_payload_begin (bs ! j)"
proof -
  have "br_payload_begin (bs ! i) < br_payload_end (bs ! i)"
    using assms by (simp add: blocks_listed_def)
  moreover show "br_payload_end (bs ! i) \<le> br_payload_begin (bs ! j)"
    using assms sorted_wrt_nth_less [of "\<lambda>b c. br_payload_end b \<le> br_payload_begin c" bs i j]
    by (simp add: blocks_listed_def)
  ultimately show "br_payload_begin (bs ! i) < br_payload_begin (bs ! j)"
    by (rule less_le_trans)
qed

lemma blocks_listed_distinct: "blocks_listed bs \<Longrightarrow> distinct bs"
  by (auto simp: distinct_conv_nth linorder_neq_iff dest: blocks_listed_nth(1))

lemma fold_emplace_index:
  assumes "blocks_listed bs" "n \<le> length bs"
  defines "m \<equiv> fold (\<lambda>i m. om_emplace (br_payload_begin (bs ! i)) i m) [0..<n] []"
  shows "om_wf m \<and> set m = (\<lambda>i. (br_payload_begin (bs ! i), i)) ` {..<n}"
  using assms(2) unfolding m_def
proof (induction n)
  case 0
  then show ?case by (simp add: om_wf_def)
next
  case (Suc n)
  let ?m = "fold (\<lambda>i m. om_emplace (br_payload_begin (bs ! i)) i m) [0..<n] []"
  from Suc have m: "om_wf ?m" "set ?m = (\<lambda>i. (br_payload_begin (bs ! i), i)) ` {..<n}" by simp_all
  have "br_payload_begin (bs ! n) \<noteq> br_payload_begin (bs ! i)" if "i < n" for i
    using blocks_listed_nth(1) [OF assms(1) that] Suc.prems by auto
  then have "br_payload_begin (bs ! n) \<notin> fst ` set ?m" unfolding m(2) by fastforce
  with m show ?case by (simp add: om_wf_emplace set_om_emplace lessThan_Suc)
qed

lemma index_by_begin_spec:
  "blocks_listed bs \<Longrightarrow> om_wf (index_by_begin bs) \<and>
     set (index_by_begin bs) = (\<lambda>i. (br_payload_begin (bs ! i), i)) ` {..<length bs}"
  unfolding index_by_begin_def by (rule fold_emplace_index) simp_all

text \<open>Which block of the list an address lies in: the second instance of the lookup contract.\<close>

definition listed_block :: "u64 \<Rightarrow> BlockRecord list \<Rightarrow> nat option" where
  "listed_block a bs =
     (case om_floor a (index_by_begin bs) of
        None \<Rightarrow> None
      | Some (k, t) \<Rightarrow> if br_payload_begin (bs ! t) \<le> a \<and> a < br_payload_end (bs ! t)
                      then Some t else None)"

interpretation list_index: interval_index blocks_listed "\<lambda>bs. {..<length bs}"
  "\<lambda>bs i. br_payload_begin (bs ! i)" "\<lambda>bs i. br_payload_end (bs ! i)" listed_block
proof
  fix bs :: "BlockRecord list" and a t
  assume bs: "blocks_listed bs"
  let ?m = "index_by_begin bs"
  have wf: "om_wf ?m" and set: "set ?m = (\<lambda>i. (br_payload_begin (bs ! i), i)) ` {..<length bs}"
    using index_by_begin_spec [OF bs] by simp_all
  show "listed_block a bs = Some t \<longleftrightarrow>
      t \<in> {..<length bs} \<and> br_payload_begin (bs ! t) \<le> a \<and> a < br_payload_end (bs ! t)"
  proof
    assume "listed_block a bs = Some t"
    then obtain k where k: "om_floor a ?m = Some (k, t)"
      and r: "br_payload_begin (bs ! t) \<le> a" "a < br_payload_end (bs ! t)"
      by (auto simp: listed_block_def split: option.splits if_splits)
    from smap.floor_find [OF wf k] have "(k, t) \<in> set ?m" by (simp add: om_find_mem wf)
    with set r show "t \<in> {..<length bs} \<and> br_payload_begin (bs ! t) \<le> a \<and> a < br_payload_end (bs ! t)"
      by auto
  next
    assume t: "t \<in> {..<length bs} \<and> br_payload_begin (bs ! t) \<le> a \<and> a < br_payload_end (bs ! t)"
    then have "om_find (br_payload_begin (bs ! t)) ?m = Some t"
      using set by (auto simp: om_find_mem wf)
    then obtain k u where u: "om_floor a ?m = Some (k, u)" "om_find k ?m = Some u"
      "br_payload_begin (bs ! t) \<le> k" "k \<le> a"
      using smap.floor_above [OF wf] t by blast
    then have ku: "u < length bs" "k = br_payload_begin (bs ! u)"
      using set by (auto simp: om_find_mem wf)
    have "u = t"
      using blocks_listed_nth [OF bs, of u t] blocks_listed_nth [OF bs, of t u] t u ku
      by (cases u t rule: linorder_cases) auto
    with u t show "listed_block a bs = Some t" by (simp add: listed_block_def)
  qed
qed

lemma edge_target_iff:
  assumes "blocks_listed bs"
  shows "edge_target bs (index_by_begin bs) i w = Some t \<longleftrightarrow>
    t \<noteq> i \<and> t < length bs \<and> br_payload_begin (bs ! t) \<le> w \<and> w < br_payload_end (bs ! t)"
proof -
  have "edge_target bs (index_by_begin bs) i w = Some t \<longleftrightarrow> listed_block w bs = Some t \<and> t \<noteq> i"
    by (auto simp: edge_target_def listed_block_def not_less not_le split: option.splits)
  then show ?thesis by (auto simp: list_index.lookup_iff [OF assms])
qed

text \<open>Block \<open>i\<close> refers to block \<open>j\<close>: a word of its payload is an address in it.\<close>

definition refers :: "memory \<Rightarrow> BlockRecord list \<Rightarrow> nat \<Rightarrow> nat \<Rightarrow> bool" where
  "refers m bs i j \<longleftrightarrow>
     i < length bs \<and> j < length bs \<and> i \<noteq> j \<and>
     (\<exists>w\<in>set (payload_words m (bs ! i)). br_payload_begin (bs ! j) \<le> w \<and> w < br_payload_end (bs ! j))"

definition graph_ok :: "nat \<Rightarrow> (nat \<Rightarrow> nat set) \<Rightarrow> fgraph \<Rightarrow> bool" where
  "graph_ok n E g \<longleftrightarrow>
     length (fst g) = n \<and> length (snd g) = n \<and>
     (\<forall>i<n. distinct (fst g ! i) \<and> set (fst g ! i) = E i \<and> E i \<subseteq> {..<n} - {i}) \<and>
     (\<forall>j<n. snd g ! j = card {i. i < n \<and> j \<in> E i})"

lemma add_edge_ok:
  fixes w :: u64
  assumes "blocks_listed bs" "n = length bs" "i < n" "graph_ok n E g"
  defines "T \<equiv> {t. edge_target bs (index_by_begin bs) i w = Some t}"
  shows "graph_ok n (E(i := E i \<union> T)) (add_edge bs (index_by_begin bs) i w g)"
proof -
  obtain edges indeg where g: "g = (edges, indeg)" by (cases g)
  show ?thesis
  proof (cases "edge_target bs (index_by_begin bs) i w")
    case None
    then show ?thesis using assms by (simp add: g T_def)
  next
    case (Some t)
    then have t: "t \<noteq> i" "t < n" "T = {t}"
      using edge_target_iff [OF assms(1), of i w t] assms(2) by (simp_all add: T_def)
    show ?thesis
    proof (cases "t \<in> E i")
      case True
      then have "E(i := E i \<union> T) = E" using t(3) by (simp add: insert_absorb)
      moreover have "add_edge bs (index_by_begin bs) i w g = g"
        using True Some assms(3,4) by (simp add: g graph_ok_def)
      ultimately show ?thesis using assms(4) by (simp only:)
    next
      case False
      let ?E = "E(i := E i \<union> T)"
      have "{k. k < n \<and> j \<in> ?E k} =
          (if j = t then insert i {k. k < n \<and> t \<in> E k} else {k. k < n \<and> j \<in> E k})" for j
        using t assms(3) by auto
      then have "card {k. k < n \<and> j \<in> ?E k} =
          card {k. k < n \<and> j \<in> E k} + (if j = t then 1 else 0)" for j
        using False by simp
      then have deg: "\<forall>j<n. indeg[t := indeg ! t + 1] ! j = card {k. k < n \<and> j \<in> ?E k}"
        using assms(4) t(2) by (simp add: g graph_ok_def nth_list_update)
      have "\<forall>k<n. distinct (edges[i := edges ! i @ [t]] ! k) \<and>
          set (edges[i := edges ! i @ [t]] ! k) = ?E k \<and> ?E k \<subseteq> {..<n} - {k}"
        using assms(3,4) t False by (simp add: g graph_ok_def nth_list_update)
      moreover have "add_edge bs (index_by_begin bs) i w g =
          (edges[i := edges ! i @ [t]], indeg[t := indeg ! t + 1])"
        using Some False assms(3,4) by (simp add: g graph_ok_def)
      ultimately show ?thesis
        using deg assms(4) by (simp add: g graph_ok_def)
    qed
  qed
qed

lemma fold_add_edge_ok:
  assumes "blocks_listed bs" "n = length bs" "i < n" "graph_ok n E g"
  shows "graph_ok n
    (E(i := E i \<union> {t. \<exists>w\<in>set ws. edge_target bs (index_by_begin bs) i w = Some t}))
    (fold (add_edge bs (index_by_begin bs) i) ws g)"
  using assms(4)
proof (induction ws arbitrary: E g)
  case (Cons w ws)
  let ?T = "\<lambda>w. {t. edge_target bs (index_by_begin bs) i w = Some t}"
  have "graph_ok n (E(i := E i \<union> ?T w)) (add_edge bs (index_by_begin bs) i w g)"
    using assms(1-3) Cons.prems by (rule add_edge_ok)
  from Cons.IH [OF this] show ?case
    by (simp add: Un_assoc Collect_disj_eq [symmetric] bex_Un cong: if_cong)
qed simp

lemma scan_source_ok:
  assumes "blocks_listed bs" "n = length bs" "i < n" "graph_ok n E g"
  shows "\<exists>g'. scan_source m bs (index_by_begin bs) i g = Some g' \<and>
    graph_ok n (E(i := E i \<union> {j. refers m bs i j})) g'"
proof -
  have "br_payload_begin (bs ! i) \<le> br_payload_end (bs ! i)" "unat (br_payload_end (bs ! i)) \<le> 2 ^ 63"
    using assms by (auto simp: blocks_listed_def less_imp_le)
  then obtain cs where cs:
    "payload_cursors (br_payload_begin (bs ! i)) (br_payload_end (bs ! i)) = Some cs"
    "map (load_word m) cs = payload_words m (bs ! i)"
    by (rule payload_cursors_words)
  have fold_map: "fold (\<lambda>cur. add_edge bs (index_by_begin bs) i (load_word m cur)) cs g =
      fold (add_edge bs (index_by_begin bs) i) (payload_words m (bs ! i)) g"
    unfolding cs(2) [symmetric] by (simp add: fold_map comp_def)
  have "{t. \<exists>w\<in>set (payload_words m (bs ! i)). edge_target bs (index_by_begin bs) i w = Some t} =
      {j. refers m bs i j}"
    using assms(2,3) by (auto simp: edge_target_iff [OF assms(1)] refers_def)
  with fold_add_edge_ok [OF assms, of "payload_words m (bs ! i)"] cs(1) fold_map show ?thesis
    by (simp add: scan_source_def)
qed

lemma build_graph_ok:
  assumes "blocks_listed bs" "n = length bs" "set is \<subseteq> {..<n}" "graph_ok n E g"
  shows "\<exists>g'. build_graph m bs (index_by_begin bs) is g = Some g' \<and>
    graph_ok n (\<lambda>i. E i \<union> (if i \<in> set is then {j. refers m bs i j} else {})) g'"
  using assms(3,4)
proof (induction "is" arbitrary: E g)
  case (Cons i "is")
  then have i: "i < n" by simp
  from scan_source_ok [OF assms(1,2) i Cons.prems(2), of m] obtain g1 where g1:
    "scan_source m bs (index_by_begin bs) i g = Some g1"
    "graph_ok n (E(i := E i \<union> {j. refers m bs i j})) g1" by blast
  have eq: "(E(i := E i \<union> {j. refers m bs i j})) k \<union> (if k \<in> set is then {j. refers m bs k j} else {}) =
      E k \<union> (if k \<in> set (i # is) then {j. refers m bs k j} else {})" for k by auto
  from Cons.IH [OF _ g1(2)] Cons.prems(1) g1(1) show ?case by (simp add: eq del: fun_upd_apply)
qed simp

lemma reference_graph:
  assumes "blocks_listed bs" "n = length bs"
  obtains edges indegree where
    "build_graph m bs (index_by_begin bs) [0..<n] (replicate n [], replicate n 0) = Some (edges, indegree)"
    "graph_ok n (\<lambda>i. {j. refers m bs i j}) (edges, indegree)"
proof -
  have init: "graph_ok n (\<lambda>_. {}) (replicate n [], replicate n 0)" by (simp add: graph_ok_def)
  have sub: "set [0..<n] \<subseteq> {..<n}" by auto
  from build_graph_ok [OF assms sub init, of m] obtain g where
    g: "build_graph m bs (index_by_begin bs) [0..<n] (replicate n [], replicate n 0) = Some g"
    "graph_ok n (\<lambda>i. {} \<union> (if i \<in> set [0..<n] then {j. refers m bs i j} else {})) g"
    by blast
  have "(\<lambda>i. {} \<union> (if i \<in> set [0..<n] then {j. refers m bs i j} else {})) =
      (\<lambda>i. {j. refers m bs i j})"
    using assms(2) by (auto simp: refers_def fun_eq_iff)
  with g(2) have "graph_ok n (\<lambda>i. {j. refers m bs i j}) g" by (simp only:)
  with g(1) that show ?thesis by (cases g) blast
qed

section \<open>The topological sort\<close>

text \<open>
  The invariant of the loop: indegrees count the referrers not yet emitted, the ready queue
  holds the blocks without one, and every emitted block comes after all its referrers.
\<close>

definition kahn_inv ::
    "nat \<Rightarrow> (nat \<Rightarrow> nat set) \<Rightarrow> nat list \<times> nat list \<times> nat list \<times> bool list \<Rightarrow> bool" where
  "kahn_inv n E st \<longleftrightarrow> (case st of (indegree, ready, ordered, emitted) \<Rightarrow>
     length indegree = n \<and> length emitted = n \<and>
     (\<forall>j<n. indegree ! j = card {i. i < n \<and> j \<in> E i \<and> \<not> emitted ! i}) \<and>
     distinct ready \<and> set ready = {j. j < n \<and> \<not> emitted ! j \<and> indegree ! j = 0} \<and>
     distinct ordered \<and> set ordered = {i. i < n \<and> emitted ! i} \<and>
     (\<forall>xs j ys. ordered = xs @ j # ys \<longrightarrow> {i. i < n \<and> j \<in> E i} \<subseteq> set xs))"

lemma fold_kahn_relax:
  assumes "distinct ts" "set ts \<subseteq> {..<length indegree}" "\<forall>t\<in>set ts. 0 < indegree ! t"
  shows "fold kahn_relax ts (indegree, ready) =
    (map (\<lambda>j. if j \<in> set ts then indegree ! j - 1 else indegree ! j) [0..<length indegree],
     rev (filter (\<lambda>t. indegree ! t = 1) ts) @ ready)"
  using assms
proof (induction ts arbitrary: indegree ready)
  case Nil
  then show ?case by (simp add: map_nth)
next
  case (Cons t ts)
  let ?d = "indegree[t := indegree ! t - 1]"
  have t: "t < length indegree" "0 < indegree ! t" "t \<notin> set ts" using Cons.prems by auto
  have "\<forall>x\<in>set ts. ?d ! x = indegree ! x" using t(3) by (metis nth_list_update_neq)
  moreover from this have "filter (\<lambda>x. ?d ! x = 1) ts = filter (\<lambda>x. indegree ! x = 1) ts"
    by (auto intro: filter_cong)
  moreover have "map (\<lambda>j. if j \<in> set ts then ?d ! j - 1 else ?d ! j) [0..<length ?d] =
      map (\<lambda>j. if j \<in> set (t # ts) then indegree ! j - 1 else indegree ! j) [0..<length indegree]"
    using t by (intro map_cong) (auto simp: nth_list_update)
  ultimately show ?case
    using Cons.IH [of ?d] Cons.prems t by (auto simp: Let_def pq_push_def)
qed

text \<open>The part of \<open>graph_ok\<close> that the loop reads.\<close>

definition edges_ok :: "nat \<Rightarrow> (nat \<Rightarrow> nat set) \<Rightarrow> nat list list \<Rightarrow> bool" where
  "edges_ok n E edges \<longleftrightarrow>
     (\<forall>i<n. distinct (edges ! i) \<and> set (edges ! i) = E i \<and> E i \<subseteq> {..<n} - {i})"

lemma kahn_invD:
  assumes "kahn_inv n E (d, r, ord, em)"
  shows "length d = n" "length em = n"
    and "j < n \<Longrightarrow> d ! j = card {i. i < n \<and> j \<in> E i \<and> \<not> em ! i}"
    and "distinct r" "set r = {j. j < n \<and> \<not> em ! j \<and> d ! j = 0}"
    and "distinct ord" "set ord = {i. i < n \<and> em ! i}"
    and "ord = xs @ j # ys \<Longrightarrow> {i. i < n \<and> j \<in> E i} \<subseteq> set xs"
  using assms unfolding kahn_inv_def prod.case by blast+

lemma kahn_inv_referrers_first:
  assumes inv: "kahn_inv n E (d, r, ord, em)" and "j < n" "em ! j" "i < n" "j \<in> E i"
  shows "em ! i"
proof -
  have "j \<in> set ord" using kahn_invD(7) [OF inv] assms(2,3) by simp
  then obtain xs ys where o: "ord = xs @ j # ys" by (meson split_list)
  have "i \<in> set ord" using kahn_invD(8) [OF inv o] assms(4,5) o by auto
  then show ?thesis using kahn_invD(7) [OF inv] by simp
qed

lemma kahn_inv_pending:
  assumes inv: "kahn_inv n E (d, r, ord, em)" and "t < n"
  shows "0 < d ! t \<longleftrightarrow> (\<exists>i<n. t \<in> E i \<and> \<not> em ! i)"
  using kahn_invD(3) [OF inv assms(2)] by (auto simp: card_gt_0_iff)

text \<open>Emitting a ready block: its targets lose one referrer, and those without another become ready.\<close>

lemma kahn_emit:
  assumes E: "edges_ok n E edges" and inv: "kahn_inv n E (d, r, ord, em)" and i: "i \<in> set r"
  shows "i < n" "\<not> em ! i" "t \<in> E i \<Longrightarrow> t < n \<and> t \<noteq> i \<and> 0 < d ! t \<and> \<not> em ! t"
    and "{k. k < n \<and> i \<in> E k} \<subseteq> set ord"
    and "fold kahn_relax (edges ! i) (d, r') =
      (map (\<lambda>j. if j \<in> E i then d ! j - 1 else d ! j) [0..<n],
       rev (filter (\<lambda>t. d ! t = 1) (edges ! i)) @ r')"
proof -
  show i': "i < n" "\<not> em ! i" using kahn_invD(5) [OF inv] i by auto
  have edges: "distinct (edges ! i)" "set (edges ! i) = E i" "E i \<subseteq> {..<n} - {i}"
    using E i'(1) by (auto simp: edges_ok_def)
  show tgt: "t < n \<and> t \<noteq> i \<and> 0 < d ! t \<and> \<not> em ! t" if "t \<in> E i" for t
    using that edges(3) i' kahn_inv_pending [OF inv, of t] kahn_inv_referrers_first [OF inv, of t i]
    by blast
  have "d ! i = 0" using kahn_invD(5) [OF inv] i by simp
  then show "{k. k < n \<and> i \<in> E k} \<subseteq> set ord"
    using kahn_inv_pending [OF inv i'(1)] kahn_invD(7) [OF inv] by auto
  show "fold kahn_relax (edges ! i) (d, r') =
      (map (\<lambda>j. if j \<in> E i then d ! j - 1 else d ! j) [0..<n],
       rev (filter (\<lambda>t. d ! t = 1) (edges ! i)) @ r')"
    using fold_kahn_relax [of "edges ! i" d r'] edges(1,2) tgt kahn_invD(1) [OF inv]
    by (simp add: subset_eq)
qed

lemma kahn_step:
  assumes E: "edges_ok n E edges" and inv: "kahn_inv n E (d, r, ord, em)" and i: "i \<in> set r"
  defines "st \<equiv> fold kahn_relax (edges ! i) (d, remove1 i r)"
  shows "kahn_inv n E (fst st, snd st, ord @ [i], em[i := True])"
proof -
  note D = kahn_invD [OF inv]
  note emit = kahn_emit [OF E inv i]
  let ?d = "map (\<lambda>j. if j \<in> E i then d ! j - 1 else d ! j) [0..<n]"
  let ?r = "rev (filter (\<lambda>t. d ! t = 1) (edges ! i)) @ remove1 i r"
  let ?e = "em[i := True]"
  have st: "fst st = ?d" "snd st = ?r" by (simp_all add: st_def emit(5))
  have edges: "distinct (edges ! i)" "set (edges ! i) = E i"
    using E emit(1) by (auto simp: edges_ok_def)
  have e: "?e ! k \<longleftrightarrow> k = i \<or> em ! k" if "k < n" for k
    using that D(2) emit(1) by (auto simp: nth_list_update)
  have "\<forall>j<n. ?d ! j = card {k. k < n \<and> j \<in> E k \<and> \<not> ?e ! k}"
  proof (intro allI impI)
    fix j assume j: "j < n"
    have "{k. k < n \<and> j \<in> E k \<and> \<not> ?e ! k} = {k. k < n \<and> j \<in> E k \<and> \<not> em ! k} - {i}"
      using e by auto
    then show "?d ! j = card {k. k < n \<and> j \<in> E k \<and> \<not> ?e ! k}"
      using D(3) [OF j] j emit(1,2) by (simp add: card_Diff_singleton_if)
  qed
  moreover have "set ?r = {j. j < n \<and> \<not> ?e ! j \<and> ?d ! j = 0}"
  proof -
    have "j \<in> set ?r \<longleftrightarrow> j \<in> E i \<and> d ! j = 1 \<or> j \<in> set r \<and> j \<noteq> i" for j
      using edges D(4) by auto
    moreover have "(j \<in> E i \<and> d ! j = 1 \<or> j \<in> set r \<and> j \<noteq> i) \<longleftrightarrow> j < n \<and> \<not> ?e ! j \<and> ?d ! j = 0" for j
      using e emit(3) [of j] by (cases "j < n") (auto simp: D(5))
    ultimately show ?thesis by blast
  qed
  moreover have "distinct ?r" using edges D(4,5) emit(3) by auto
  moreover have "distinct (ord @ [i])" "set (ord @ [i]) = {k. k < n \<and> ?e ! k}"
    using D(6,7) emit(1,2) e by auto
  moreover have "\<forall>xs j ys. ord @ [i] = xs @ j # ys \<longrightarrow> {k. k < n \<and> j \<in> E k} \<subseteq> set xs"
  proof (intro allI impI)
    fix xs j ys assume "ord @ [i] = xs @ j # ys"
    then show "{k. k < n \<and> j \<in> E k} \<subseteq> set xs"
      using emit(4) D(8) by (cases ys rule: rev_cases) auto
  qed
  ultimately show ?thesis
    unfolding kahn_inv_def prod.case st using D(2) by simp
qed

lemma kahn_loop_inv:
  assumes "edges_ok n E edges" "kahn_inv n E (d, r, ord, em)"
  shows "\<exists>d'. kahn_inv n E (d', [], kahn_loop bs edges (d, r, ord, em))"
  using assms
proof (induction bs edges "(d, r, ord, em)" arbitrary: d r ord em rule: kahn_loop.induct)
  case (1 bs edges d r ord em)
  show ?case
  proof (cases "r = []")
    case True
    with "1.prems" show ?thesis by (auto simp: kahn_loop.simps)
  next
    case False
    let ?i = "pq_top bs r"
    let ?st = "fold kahn_relax (edges ! ?i) (d, pq_pop bs r)"
    have i: "?i \<in> set r" using ready_queue.top_mem [of r] False by simp
    have ne: "\<not> em ! ?i" using kahn_emit(2) [OF "1.prems" i] .
    have "kahn_inv n E (fst ?st, snd ?st, ord @ [?i], em[?i := True])"
      unfolding pq_pop_def by (rule kahn_step [OF "1.prems" i])
    with "1.hyps"(2) [OF False refl refl ne refl "1.prems"(1)] False ne show ?thesis
      by (simp add: kahn_loop.simps [of bs edges d r] Let_def)
  qed
qed

text \<open>The loop emits every block to which no cycle leads.\<close>

lemma kahn_complete:
  assumes inv: "kahn_inv n E (d, [], ord, em)" and "j < n"
  defines "A \<equiv> {(a, b). a < n \<and> b < n \<and> b \<in> E a}"
  assumes "acyclic {(a, b) \<in> A. (b, j) \<in> A\<^sup>*}"
  shows "em ! j"
proof (rule ccontr)
  let ?R = "{(a, b) \<in> A. (b, j) \<in> A\<^sup>*}"
  let ?U = "{x. x < n \<and> (x, j) \<in> A\<^sup>* \<and> \<not> em ! x}"
  assume "\<not> em ! j"
  then have "j \<in> ?U" using assms(2) by simp
  have "finite A" by (rule finite_subset [of _ "{..<n} \<times> {..<n}"]) (auto simp: A_def)
  then have "finite ?R" by (rule finite_subset [rotated]) auto
  then have "wf ?R" using assms(4) by (rule finite_acyclic_wf)
  then obtain z where z: "z \<in> ?U" "\<And>y. (y, z) \<in> ?R \<Longrightarrow> y \<notin> ?U"
    using \<open>j \<in> ?U\<close> by (rule wfE_min) blast
  have "0 < d ! z" using kahn_invD(5) [OF inv] z(1) by auto
  then obtain i where "i < n" "z \<in> E i" "\<not> em ! i"
    using kahn_inv_pending [OF inv, of z] z(1) by blast
  moreover from this z(1) have "(i, z) \<in> A" by (simp add: A_def)
  ultimately show False
    using z by (auto intro: converse_rtrancl_into_rtrancl)
qed

section \<open>The finalization order\<close>

definition refers_rel :: "memory \<Rightarrow> BlockRecord list \<Rightarrow> (nat \<times> nat) set" where
  "refers_rel m bs = {(i, j). refers m bs i j}"

text \<open>No cycle of references leads to block \<open>j\<close>.\<close>

definition cycle_free :: "memory \<Rightarrow> BlockRecord list \<Rightarrow> nat \<Rightarrow> bool" where
  "cycle_free m bs j \<longleftrightarrow> acyclic {(a, b) \<in> refers_rel m bs. (b, j) \<in> (refers_rel m bs)\<^sup>*}"

lemma fold_pq_push: "fold pq_push xs q = rev xs @ q"
  by (induction xs arbitrary: q) (simp_all add: pq_push_def)

lemma kahn_inv_init:
  assumes "graph_ok n E (edges, indegree)"
  shows "kahn_inv n E
    (indegree, fold pq_push (filter (\<lambda>i. indegree ! i = 0) [0..<n]) [], [], replicate n False)"
proof -
  have "{i. i < n \<and> j \<in> E i \<and> \<not> replicate n False ! i} = {i. i < n \<and> j \<in> E i}" for j by auto
  with assms show ?thesis by (auto simp: kahn_inv_def graph_ok_def fold_pq_push)
qed

lemma finalization_indices_large:
  assumes bs: "blocks_listed bs" and n: "n = length bs" "1 < n"
  obtains d ord em where
    "finalization_indices m bs = Some (ord @ filter (\<lambda>i. \<not> em ! i) (rev [0..<n]))"
    "kahn_inv n (\<lambda>i. {j. refers m bs i j}) (d, [], ord, em)"
proof -
  let ?E = "\<lambda>i. {j. refers m bs i j}"
  obtain edges indegree where g:
    "build_graph m bs (index_by_begin bs) [0..<n] (replicate n [], replicate n 0) = Some (edges, indegree)"
    "graph_ok n ?E (edges, indegree)"
    using reference_graph [OF bs n(1)] by blast
  let ?st = "(indegree, fold pq_push (filter (\<lambda>i. indegree ! i = 0) [0..<n]) [], [], replicate n False)"
  have "edges_ok n ?E edges" using g(2) by (simp add: graph_ok_def edges_ok_def)
  from kahn_loop_inv [OF this kahn_inv_init [OF g(2)], of bs] obtain d where
    d: "kahn_inv n ?E (d, [], kahn_loop bs edges ?st)" by blast
  obtain ord em where "kahn_loop bs edges ?st = (ord, em)" by fastforce
  with d g(1) n that show ?thesis by (simp add: finalization_indices_def Let_def)
qed

lemma finalization_indices_spec:
  assumes bs: "blocks_listed bs"
  shows "\<exists>is. finalization_indices m bs = Some is \<and> distinct is \<and> set is = {..<length bs} \<and>
    (\<forall>i j. refers m bs i j \<longrightarrow> cycle_free m bs j \<longrightarrow> (\<exists>xs ys zs. is = xs @ i # ys @ j # zs))"
proof (cases "length bs \<le> 1")
  case True
  then show ?thesis
    by (auto simp: finalization_indices_def refers_def Let_def atLeast0LessThan)
next
  case False
  let ?n = "length bs" and ?E = "\<lambda>i. {j. refers m bs i j}"
  obtain d ord em where r:
    "finalization_indices m bs = Some (ord @ filter (\<lambda>i. \<not> em ! i) (rev [0..<?n]))"
    and inv: "kahn_inv ?n ?E (d, [], ord, em)"
    using finalization_indices_large [OF bs refl] False by (metis not_le)
  have A: "{(a, b). a < ?n \<and> b < ?n \<and> b \<in> ?E a} = refers_rel m bs"
    by (auto simp: refers_rel_def refers_def)
  have "\<exists>xs ys zs. ord @ rest = xs @ i # ys @ j # zs"
    if ij: "refers m bs i j" "cycle_free m bs j" for i j rest
  proof -
    have lt: "i < ?n" "j < ?n" using ij(1) by (auto simp: refers_def)
    have "em ! j"
      using kahn_complete [OF inv lt(2)] ij(2) unfolding A cycle_free_def by simp
    then have "j \<in> set ord" using kahn_invD(7) [OF inv] lt by simp
    then obtain us vs where j: "ord = us @ j # vs" by (meson split_list)
    have "i \<in> set us" using kahn_invD(8) [OF inv j] ij(1) lt by auto
    then obtain xs ys where "us = xs @ i # ys" by (meson split_list)
    with j show ?thesis by auto
  qed
  moreover have "distinct (ord @ filter (\<lambda>i. \<not> em ! i) (rev [0..<?n]))"
    "set (ord @ filter (\<lambda>i. \<not> em ! i) (rev [0..<?n])) = {..<?n}"
    using kahn_invD(6,7) [OF inv] by auto
  ultimately show ?thesis using r by blast
qed

end
