(* ===== verification/Thread_Registry.thy ===== *)
theory Thread_Registry
  imports Gc_State
begin

text \<open>
  Registered mutator threads and the cooperative stop-the-world handshake of
  \<open>src/GCManager.cpp\<close>: \<open>cooperate_with_stop_the_world_locked\<close>, the collector's wait,
  the release, and the operations that add and remove threads and explicit root ranges. A call
  has the id of its thread as an argument, for \<open>std::this_thread::get_id()\<close>.
\<close>

section \<open>Lookups\<close>

definition find_thread_state_locked :: "tid \<Rightarrow> gc_state \<Rightarrow> ThreadState option" where
  "find_thread_state_locked t s = om_find t (gc_threads s)"

text \<open>\<open>state != nullptr && state->stack_bottom != nullptr\<close>.\<close>

definition thread_registered :: "tid \<Rightarrow> gc_state \<Rightarrow> bool" where
  "thread_registered t s \<longleftrightarrow>
     (case find_thread_state_locked t s of
        None \<Rightarrow> False
      | Some ts \<Rightarrow> ts_stack_bottom ts \<noteq> 0)"

definition require_registered_thread_locked :: "tid \<Rightarrow> unit gc" where
  "require_registered_thread_locked t s =
     (if thread_registered t s then (Return (), s)
      else (Throw (Logic_Error Not_Registered), s))"

section \<open>The handshake\<close>

text \<open>\<open>stop_the_world_cv_.wait(lock, p)\<close>: tests the predicate before it releases the mutex.\<close>

definition cv_wait :: "(gc_state \<Rightarrow> bool) \<Rightarrow> unit gc" where
  "cv_wait p s = (if p s then (Return (), s) else (Wait p (\<lambda>t. (Return (), t)), s))"

definition may_proceed :: "tid \<Rightarrow> gc_state \<Rightarrow> bool" where
  "may_proceed current s \<longleftrightarrow>
     \<not> gc_stop_the_world_requested s \<or> gc_collector_thread s = current"

text \<open>\<open>fill(0)\<close>, then \<open>memcpy\<close> of the \<open>jmp_buf\<close>.\<close>

definition spill_registers :: "u64 list \<Rightarrow> u64 list" where
  "spill_registers ws =
     take kRegisterSpillWordCount (ws @ replicate kRegisterSpillWordCount 0)"

definition park_thread :: "gc_env \<Rightarrow> tid \<Rightarrow> gc_state \<Rightarrow> gc_state" where
  "park_thread env current s =
     s\<lparr>gc_threads := om_adjust current (\<lambda>ts. ts\<lparr>
         ts_parked_stack_top := e_stack_marker env,
         ts_fake_stack_handle := 0,
         ts_paused_for_collection := True,
         ts_register_spill := spill_registers (e_registers env)\<rparr>) (gc_threads s)\<rparr>"

definition unpark_thread :: "tid \<Rightarrow> gc_state \<Rightarrow> gc_state" where
  "unpark_thread current s =
     s\<lparr>gc_threads := om_adjust current (\<lambda>ts. ts\<lparr>
         ts_paused_for_collection := False,
         ts_parked_stack_top := 0,
         ts_fake_stack_handle := 0,
         ts_register_spill := replicate kRegisterSpillWordCount 0\<rparr>) (gc_threads s)\<rparr>"

definition cooperate_with_stop_the_world_locked :: "gc_env \<Rightarrow> tid \<Rightarrow> unit gc" where
  "cooperate_with_stop_the_world_locked env current s =
     (if may_proceed current s then (Return (), s)
      else if \<not> thread_registered current s then cv_wait (may_proceed current) s
      else bindp (lock_mutex s) (\<lambda>_ s.
        if may_proceed current s then (Return (), s)
        else if \<not> thread_registered current s then cv_wait (may_proceed current) s
        else bindp (cv_wait (\<lambda>s. \<not> gc_stop_the_world_requested s) (park_thread env current s))
               (\<lambda>_ s. (Return (), unpark_thread current s))))"

definition others_paused :: "tid \<Rightarrow> gc_state \<Rightarrow> bool" where
  "others_paused collector s \<longleftrightarrow>
     list_all (\<lambda>(t, ts). t = collector \<or> ts_stack_bottom ts = 0 \<or> ts_paused_for_collection ts)
       (gc_threads s)"

definition wait_for_other_threads_to_pause_locked :: "tid \<Rightarrow> unit gc" where
  "wait_for_other_threads_to_pause_locked collector s = cv_wait (others_paused collector) s"

definition release_stop_the_world :: "unit gc" where
  "release_stop_the_world s =
     bindp (lock_mutex s) (\<lambda>_ s.
       (Return (), s\<lparr>gc_collector_thread := no_thread, gc_stop_the_world_requested := False,
                     gc_collecting := False\<rparr>))"

text \<open>The two lines with which almost every operation starts.\<close>

definition enter :: "gc_env \<Rightarrow> tid \<Rightarrow> unit gc" where
  "enter env current s =
     bindp (lock_mutex s) (\<lambda>_ s. cooperate_with_stop_the_world_locked env current s)"

text \<open>The three assignments with which \<open>collect\<close>, \<open>shutdown\<close> and the snapshots stop the world.\<close>

definition request_stop :: "tid \<Rightarrow> gc_state \<Rightarrow> gc_state" where
  "request_stop collector s =
     s\<lparr>gc_collecting := True, gc_collector_thread := collector,
       gc_stop_the_world_requested := True\<rparr>"

text \<open>
  The end of the scope of a lock, where the mutex is free: other threads may take steps before
  the code after the scope goes on.
\<close>

definition leave :: "unit gc" where
  "leave s = (Wait (\<lambda>_. True) (\<lambda>t. (Return (), t)), s)"

section \<open>Thread registration\<close>

definition register_stack_bottom :: "gc_env \<Rightarrow> tid \<Rightarrow> addr \<Rightarrow> unit gc" where
  "register_stack_bottom env current stack_bottom s =
     (if stack_bottom = 0 then (Throw Invalid_Argument, s)
      else bindp (enter env current s) (\<lambda>_ s.
        if find_thread_state_locked current s = None \<and> e_alloc_fails env Threads_Node
        then (Throw Bad_Alloc, s)
        else (Return (), s\<lparr>gc_threads :=
               om_adjust current (\<lambda>ts. ts\<lparr>ts_stack_bottom := stack_bottom\<rparr>)
                 (om_emplace current new_ThreadState (gc_threads s))\<rparr>)))"

definition detect_current_thread_stack_bottom :: "gc_env \<Rightarrow> addr gc" where
  "detect_current_thread_stack_bottom env s =
     (case e_pthread_stack env of
        None \<Rightarrow> (Throw (Logic_Error No_Stack_Bounds), s)
      | Some (stack_base, stack_size) \<Rightarrow>
          if stack_base = 0 \<or> stack_size = 0 then (Throw (Logic_Error No_Stack_Bounds), s)
          else (Return (stack_base + stack_size), s))"

definition register_current_thread :: "gc_env \<Rightarrow> tid \<Rightarrow> unit gc" where
  "register_current_thread env current s =
     bindp (detect_current_thread_stack_bottom env s) (register_stack_bottom env current)"

definition unregister_current_thread :: "gc_env \<Rightarrow> tid \<Rightarrow> unit gc" where
  "unregister_current_thread env current s =
     bindp (enter env current s) (\<lambda>_ s.
       (Return (), s\<lparr>gc_threads := om_erase current (gc_threads s)\<rparr>))"

definition is_current_thread_registered :: "gc_env \<Rightarrow> tid \<Rightarrow> bool gc" where
  "is_current_thread_registered env current s =
     bindp (enter env current s) (\<lambda>_ s. (Return (thread_registered current s), s))"

definition safepoint :: "gc_env \<Rightarrow> tid \<Rightarrow> unit gc" where
  "safepoint env current s = enter env current s"

section \<open>Root ranges\<close>

definition normal_range :: "addr \<Rightarrow> addr \<Rightarrow> RootRange" where
  "normal_range b e =
     (if e < b then \<lparr>rr_begin = e, rr_end = b\<rparr> else \<lparr>rr_begin = b, rr_end = e\<rparr>)"

definition register_root_range :: "gc_env \<Rightarrow> tid \<Rightarrow> addr \<Rightarrow> addr \<Rightarrow> unit gc" where
  "register_root_range env current b e s =
     (if b = 0 \<or> e = 0 \<or> b = e then (Return (), s)
      else bindp (lock_mutex s) (\<lambda>_ s.
        if e_alloc_fails env Root_Ranges_Push then (Throw Bad_Alloc, s)
        else cooperate_with_stop_the_world_locked env current
               (s\<lparr>gc_root_ranges := gc_root_ranges s @ [normal_range b e]\<rparr>)))"

text \<open>\<open>std::find_if\<close> and \<open>erase\<close>: the first range with both endpoints goes.\<close>

definition unregister_root_range :: "gc_env \<Rightarrow> tid \<Rightarrow> addr \<Rightarrow> addr \<Rightarrow> unit gc" where
  "unregister_root_range env current b e s =
     (if b = 0 \<or> e = 0 \<or> b = e then (Return (), s)
      else bindp (enter env current s) (\<lambda>_ s.
        (Return (), s\<lparr>gc_root_ranges := remove1 (normal_range b e) (gc_root_ranges s)\<rparr>)))"

section \<open>Running them without interference\<close>

lemma run_cv_wait [prog_simps]: "run (cv_wait p s) = (if p s then (Done (), s) else (Stuck, s))"
  by (simp add: cv_wait_def prog_simps)

lemma run_cooperate [prog_simps]:
  "may_proceed current s \<Longrightarrow> run (cooperate_with_stop_the_world_locked env current s) = (Done (), s)"
  by (simp add: cooperate_with_stop_the_world_locked_def prog_simps)

lemma run_enter [prog_simps]: "may_proceed current s \<Longrightarrow> run (enter env current s) = (Done (), s)"
  by (simp add: enter_def prog_simps)

lemma run_leave [prog_simps]: "run (leave s) = (Done (), s)"
  by (simp add: leave_def prog_simps)

lemma run_require [prog_simps]:
  "run (require_registered_thread_locked t s) =
     (if thread_registered t s then (Done (), s) else (Threw (Logic_Error Not_Registered), s))"
  by (simp add: require_registered_thread_locked_def prog_simps)

lemma run_release [prog_simps]:
  "run (release_stop_the_world s) =
     (Done (), s\<lparr>gc_collector_thread := no_thread, gc_stop_the_world_requested := False,
                 gc_collecting := False\<rparr>)"
  by (simp add: release_stop_the_world_def prog_simps)

lemma may_proceed_request_stop [simp]: "may_proceed c (request_stop c s)"
  by (simp add: may_proceed_def request_stop_def)

lemma may_proceed_mem [simp]: "may_proceed c (s\<lparr>gc_mem := m\<rparr>) = may_proceed c s"
  by (simp add: may_proceed_def)

end
