(* ===== verification/Weak_Refs.thy ===== *)
theory Weak_Refs
  imports Block_Index Thread_Registry
begin

text \<open>
  The table of weak references of \<open>GC_Manager\<close>. Each entry pairs a target address with the
  address of the encoded word in a weak handle; the manager writes through that address. The
  locale \<open>weak_table\<close> is what weak handles rely on; it is interpreted on the vector
  operations of the source.
\<close>

section \<open>The vector\<close>

definition weak_index :: "addr \<Rightarrow> WeakRefEntry list \<Rightarrow> nat" where
  "weak_index st es = length (takeWhile (\<lambda>e. wr_storage e \<noteq> st) es)"

definition weak_lookup :: "addr \<Rightarrow> WeakRefEntry list \<Rightarrow> addr option" where
  "weak_lookup st es =
     (let i = weak_index st es in if i < length es then Some (wr_target (es ! i)) else None)"

definition weak_add :: "addr \<Rightarrow> addr \<Rightarrow> WeakRefEntry list \<Rightarrow> WeakRefEntry list" where
  "weak_add target st es = es @ [\<lparr>wr_target = target, wr_storage = st\<rparr>]"

text \<open>Swap with the back and pop.\<close>

definition weak_remove :: "addr \<Rightarrow> WeakRefEntry list \<Rightarrow> WeakRefEntry list" where
  "weak_remove st es =
     (let i = weak_index st es in
      if i < length es then butlast (es[i := last es]) else es)"

definition weak_move :: "addr \<Rightarrow> addr \<Rightarrow> WeakRefEntry list \<Rightarrow> WeakRefEntry list" where
  "weak_move old_st new_st es =
     (let i = weak_index old_st es in
      if i < length es then es[i := (es ! i)\<lparr>wr_storage := new_st\<rparr>] else es)"

definition weak_hit :: "addr \<Rightarrow> addr \<Rightarrow> WeakRefEntry \<Rightarrow> bool" where
  "weak_hit pb pe e \<longleftrightarrow> pb \<le> wr_target e \<and> wr_target e < pe"

definition weak_purge :: "addr \<Rightarrow> addr \<Rightarrow> WeakRefEntry list \<Rightarrow> WeakRefEntry list" where
  "weak_purge pb pe es = filter (\<lambda>e. \<not> weak_hit pb pe e) es"

section \<open>Operations of the manager\<close>

definition register_weak_ref :: "gc_env \<Rightarrow> tid \<Rightarrow> addr \<Rightarrow> addr \<Rightarrow> unit gc" where
  "register_weak_ref env current target storage s =
     bindp (enter env current s) (\<lambda>_ s.
       if storage = 0 then (Return (), s)
       else if find_block_locked target s = None
       then (Return (), s\<lparr>gc_mem := store_word (gc_mem s) storage 0\<rparr>)
       else if e_alloc_fails env Weak_Refs_Push then (Throw Bad_Alloc, s)
       else (Return (), s\<lparr>gc_weak_refs := weak_add target storage (gc_weak_refs s)\<rparr>))"

definition read_weak_ref :: "gc_env \<Rightarrow> tid \<Rightarrow> addr \<Rightarrow> addr gc" where
  "read_weak_ref env current storage s =
     bindp (enter env current s) (\<lambda>_ s.
       (Return (case weak_lookup storage (gc_weak_refs s) of None \<Rightarrow> 0 | Some target \<Rightarrow> target), s))"

definition unregister_weak_ref :: "gc_env \<Rightarrow> tid \<Rightarrow> addr \<Rightarrow> unit gc" where
  "unregister_weak_ref env current storage s =
     bindp (enter env current s) (\<lambda>_ s.
       (Return (), s\<lparr>gc_weak_refs := weak_remove storage (gc_weak_refs s)\<rparr>))"

definition copy_weak_ref :: "gc_env \<Rightarrow> tid \<Rightarrow> addr \<Rightarrow> addr \<Rightarrow> unit gc" where
  "copy_weak_ref env current old_storage new_storage s =
     bindp (enter env current s) (\<lambda>_ s.
       case weak_lookup old_storage (gc_weak_refs s) of
         None \<Rightarrow> (Return (), s\<lparr>gc_mem := store_word (gc_mem s) new_storage 0\<rparr>)
       | Some target \<Rightarrow>
           let encoded = load_word (gc_mem s) old_storage in
           if e_alloc_fails env Weak_Refs_Push then (Throw Bad_Alloc, s)
           else (Return (), s\<lparr>gc_weak_refs := weak_add target new_storage (gc_weak_refs s),
                              gc_mem := store_word (gc_mem s) new_storage encoded\<rparr>))"

definition update_weak_ref :: "gc_env \<Rightarrow> tid \<Rightarrow> addr \<Rightarrow> addr \<Rightarrow> unit gc" where
  "update_weak_ref env current old_storage new_storage s =
     bindp (enter env current s) (\<lambda>_ s.
       if weak_index old_storage (gc_weak_refs s) < length (gc_weak_refs s)
       then (Return (), s\<lparr>gc_mem := store_word
                (store_word (gc_mem s) new_storage (load_word (gc_mem s) old_storage)) old_storage 0,
              gc_weak_refs := weak_move old_storage new_storage (gc_weak_refs s)\<rparr>)
       else (Return (), s\<lparr>gc_mem := store_word (gc_mem s) new_storage 0\<rparr>))"

text \<open>The predicate of \<open>remove_if\<close> zeroes the storage of every entry it removes.\<close>

definition zero_storages :: "addr list \<Rightarrow> memory \<Rightarrow> memory" where
  "zero_storages sts m = fold (\<lambda>st m. store_word m st 0) sts m"

definition invalidate_weak_refs_for_block_locked :: "addr \<Rightarrow> addr \<Rightarrow> gc_state \<Rightarrow> gc_state" where
  "invalidate_weak_refs_for_block_locked pb pe s =
     s\<lparr>gc_mem := zero_storages (map wr_storage (filter (weak_hit pb pe) (gc_weak_refs s))) (gc_mem s),
       gc_weak_refs := weak_purge pb pe (gc_weak_refs s)\<rparr>"

section \<open>The contract weak handles rely on\<close>

locale weak_table =
  fixes invar :: "'t \<Rightarrow> bool"
    and lookup :: "addr \<Rightarrow> 't \<Rightarrow> addr option"
    and add :: "addr \<Rightarrow> addr \<Rightarrow> 't \<Rightarrow> 't"
    and remove :: "addr \<Rightarrow> 't \<Rightarrow> 't"
    and move :: "addr \<Rightarrow> addr \<Rightarrow> 't \<Rightarrow> 't"
    and purge :: "addr \<Rightarrow> addr \<Rightarrow> 't \<Rightarrow> 't"
  assumes lookup_add: "invar t \<Longrightarrow> lookup st t = None \<Longrightarrow>
      lookup st' (add tg st t) = (if st' = st then Some tg else lookup st' t)"
    and lookup_remove: "invar t \<Longrightarrow>
      lookup st' (remove st t) = (if st' = st then None else lookup st' t)"
    and lookup_move: "invar t \<Longrightarrow> lookup old t = Some tg \<Longrightarrow> lookup new t = None \<Longrightarrow>
      lookup st' (move old new t) =
        (if st' = new then Some tg else if st' = old then None else lookup st' t)"
    and lookup_purge: "invar t \<Longrightarrow> lookup st (purge lo hi t) =
      (case lookup st t of None \<Rightarrow> None
       | Some tg \<Rightarrow> if lo \<le> tg \<and> tg < hi then None else Some tg)"
    and invar_add: "invar t \<Longrightarrow> lookup st t = None \<Longrightarrow> invar (add tg st t)"
    and invar_remove: "invar t \<Longrightarrow> invar (remove st t)"
    and invar_move: "invar t \<Longrightarrow> lookup new t = None \<Longrightarrow> invar (move old new t)"
    and invar_purge: "invar t \<Longrightarrow> invar (purge lo hi t)"
begin

lemma add_remove:
  "invar t \<Longrightarrow> lookup st t = None \<Longrightarrow> lookup st' (remove st (add tg st t)) = lookup st' t"
  by (simp add: lookup_remove lookup_add invar_add)

lemma move_as_add_remove:
  assumes "invar t" "lookup old t = Some tg" "lookup new t = None"
  shows "lookup st' (move old new t) = lookup st' (remove old (add tg new t))"
  using assms by (auto simp: lookup_move lookup_remove lookup_add invar_add)

lemma purge_add:
  "invar t \<Longrightarrow> lookup st t = None \<Longrightarrow> lo \<le> tg \<Longrightarrow> tg < hi \<Longrightarrow>
   lookup st (purge lo hi (add tg st t)) = None"
  by (simp add: lookup_purge lookup_add invar_add)

lemma purge_idem: "invar t \<Longrightarrow> lookup st (purge lo hi (purge lo hi t)) = lookup st (purge lo hi t)"
  by (auto simp: lookup_purge invar_purge split: option.splits)

end

section \<open>The vector meets it\<close>

definition weak_inv :: "WeakRefEntry list \<Rightarrow> bool" where
  "weak_inv es \<longleftrightarrow> distinct (map wr_storage es)"

lemma weak_lookup_Cons:
  "weak_lookup st (e # es) = (if wr_storage e = st then Some (wr_target e) else weak_lookup st es)"
  by (simp add: weak_lookup_def weak_index_def Let_def)

lemma weak_lookup_Nil [simp]: "weak_lookup st [] = None"
  by (simp add: weak_lookup_def weak_index_def)

lemma weak_entry_eq: "\<lparr>wr_target = tg, wr_storage = st\<rparr> = e \<longleftrightarrow> wr_target e = tg \<and> wr_storage e = st"
  by (cases e) auto

lemma weak_entry_id [simp]: "\<lparr>wr_target = wr_target e, wr_storage = wr_storage e\<rparr> = e"
  by (cases e) simp

lemma weak_lookup_iff:
  "weak_inv es \<Longrightarrow> weak_lookup st es = Some tg \<longleftrightarrow> \<lparr>wr_target = tg, wr_storage = st\<rparr> \<in> set es"
  by (induction es) (auto simp: weak_lookup_Cons weak_inv_def image_iff weak_entry_eq)

lemma weak_lookup_None: "weak_lookup st es = None \<longleftrightarrow> st \<notin> wr_storage ` set es"
  by (induction es) (auto simp: weak_lookup_Cons)

lemma weak_index_None: "weak_index st es < length es \<longleftrightarrow> weak_lookup st es \<noteq> None"
  by (simp add: weak_lookup_def Let_def)

lemma weak_index_split:
  assumes "weak_lookup st es \<noteq> None"
  obtains xs e ys where "es = xs @ e # ys" "wr_storage e = st" "weak_index st es = length xs"
    "st \<notin> wr_storage ` set xs"
proof -
  let ?xs = "takeWhile (\<lambda>e. wr_storage e \<noteq> st) es" and ?d = "dropWhile (\<lambda>e. wr_storage e \<noteq> st) es"
  have "?d \<noteq> []" using assms by (auto simp: weak_lookup_None dropWhile_eq_Nil_conv)
  then obtain e ys where d: "?d = e # ys" by (cases ?d) auto
  have "wr_storage e = st" using hd_dropWhile [OF \<open>?d \<noteq> []\<close>] d by simp
  moreover have "es = ?xs @ e # ys" using d by (metis takeWhile_dropWhile_id)
  moreover have "st \<notin> wr_storage ` set ?xs" by (auto dest: set_takeWhileD)
  ultimately show ?thesis using that by (simp add: weak_index_def)
qed

lemma weak_remove_mset:
  assumes "weak_lookup st es \<noteq> None" "es = xs @ e # ys" "weak_index st es = length xs"
  shows "mset (weak_remove st es) = mset (xs @ ys)"
  using assms weak_index_None [of st es]
  by (cases ys rule: rev_cases) (auto simp: weak_remove_def Let_def butlast_append)

lemma weak_remove_set:
  assumes "weak_inv es"
  shows "set (weak_remove st es) = {e \<in> set es. wr_storage e \<noteq> st} \<and> weak_inv (weak_remove st es)"
proof (cases "weak_lookup st es = None")
  case True
  then show ?thesis
    using assms weak_index_None [of st es] by (auto simp: weak_remove_def Let_def weak_lookup_None)
next
  case False
  then obtain xs e ys where e: "es = xs @ e # ys" "wr_storage e = st" "weak_index st es = length xs"
    by (rule weak_index_split)
  have m: "mset (weak_remove st es) = mset (xs @ ys)" by (rule weak_remove_mset [OF False e(1,3)])
  then have "set (weak_remove st es) = set (xs @ ys)" by (rule mset_eq_setD)
  moreover have "mset (map wr_storage (weak_remove st es)) = mset (map wr_storage (xs @ ys))"
    using m by (metis mset_map)
  then have "distinct (map wr_storage (weak_remove st es)) = distinct (map wr_storage (xs @ ys))"
    by (rule mset_eq_imp_distinct_iff)
  ultimately show ?thesis
    using assms e by (auto simp: weak_inv_def image_iff)
qed

lemma weak_move_map:
  assumes "weak_inv es"
  shows "weak_move old new es =
    map (\<lambda>e. if wr_storage e = old then e\<lparr>wr_storage := new\<rparr> else e) es"
proof (cases "weak_lookup old es = None")
  case True
  then have "\<forall>e\<in>set es. wr_storage e \<noteq> old" by (auto simp: weak_lookup_None)
  then have "map (\<lambda>e. if wr_storage e = old then e\<lparr>wr_storage := new\<rparr> else e) es = es"
    by (simp add: map_idI)
  with True show ?thesis using weak_index_None [of old es] by (simp add: weak_move_def Let_def)
next
  case False
  then obtain xs e ys where e: "es = xs @ e # ys" "wr_storage e = old" "weak_index old es = length xs"
    "old \<notin> wr_storage ` set xs"
    by (rule weak_index_split)
  then have "old \<notin> wr_storage ` (set xs \<union> set ys)" using assms by (auto simp: weak_inv_def)
  then have "\<forall>x\<in>set xs \<union> set ys. wr_storage x \<noteq> old" by (metis imageI)
  then have "map (\<lambda>e. if wr_storage e = old then e\<lparr>wr_storage := new\<rparr> else e) xs = xs"
    "map (\<lambda>e. if wr_storage e = old then e\<lparr>wr_storage := new\<rparr> else e) ys = ys"
    by (simp_all add: map_idI)
  with e show ?thesis by (simp add: weak_move_def Let_def)
qed

lemma weak_lookup_purge:
  "weak_inv es \<Longrightarrow> weak_lookup st (weak_purge lo hi es) = (case weak_lookup st es of None \<Rightarrow> None
     | Some tg \<Rightarrow> if lo \<le> tg \<and> tg < hi then None else Some tg)"
proof (induction es)
  case (Cons e es)
  moreover have "weak_lookup st es = None" if "wr_storage e = st"
    using Cons.prems that by (auto simp: weak_inv_def weak_lookup_None)
  ultimately show ?case
    by (auto simp: weak_purge_def weak_hit_def weak_inv_def weak_lookup_Cons split: option.splits)
qed (simp add: weak_purge_def)

lemma weak_lookup_map_move:
  "weak_lookup old es = Some tg \<Longrightarrow> weak_lookup new es = None \<Longrightarrow>
   weak_lookup st (map (\<lambda>e. if wr_storage e = old then e\<lparr>wr_storage := new\<rparr> else e) es) =
     (if st = new then Some tg else if st = old then None else weak_lookup st es)"
proof -
  let ?f = "map (\<lambda>e. if wr_storage e = old then e\<lparr>wr_storage := new\<rparr> else e)"
  have at: "weak_lookup new es = None \<Longrightarrow> weak_lookup new (?f es) = weak_lookup old es" for es
    by (induction es) (auto simp: weak_lookup_Cons split: if_splits)
  have off: "st \<noteq> new \<Longrightarrow> weak_lookup st (?f es) = (if st = old then None else weak_lookup st es)"
    for es by (induction es) (auto simp: weak_lookup_Cons)
  show "weak_lookup old es = Some tg \<Longrightarrow> weak_lookup new es = None \<Longrightarrow> ?thesis"
    using at [of es] off [of es] by auto
qed

lemma option_eq_by_Some: "(\<And>x. a = Some x \<longleftrightarrow> b = Some x) \<Longrightarrow> a = b"
  by (metis not_Some_eq)

interpretation wtab: weak_table weak_inv weak_lookup weak_add weak_remove weak_move weak_purge
proof
  fix es :: "WeakRefEntry list" and st st' tg old new lo hi
  assume inv: "weak_inv es"
  show "weak_lookup st' (weak_remove st es) = (if st' = st then None else weak_lookup st' es)"
    using weak_remove_set [OF inv, of st] inv
    by (intro option_eq_by_Some) (auto simp: weak_lookup_iff)
  show inv_purge: "weak_inv (weak_purge lo hi es)"
    using inv by (simp add: weak_inv_def weak_purge_def distinct_map_filter)
  show "weak_lookup st (weak_purge lo hi es) = (case weak_lookup st es of None \<Rightarrow> None
       | Some tg \<Rightarrow> if lo \<le> tg \<and> tg < hi then None else Some tg)"
    by (rule weak_lookup_purge [OF inv])
  show "weak_inv (weak_remove st es)" using weak_remove_set [OF inv] by simp
  show "weak_inv (weak_add tg st es)" if "weak_lookup st es = None"
    using inv that by (simp add: weak_inv_def weak_add_def weak_lookup_None)
  then show "weak_lookup st' (weak_add tg st es) = (if st' = st then Some tg else weak_lookup st' es)"
    if "weak_lookup st es = None"
    using inv that
    by (intro option_eq_by_Some) (auto simp: weak_lookup_iff weak_lookup_None weak_add_def image_iff)
  show inv_move: "weak_inv (weak_move old new es)" if "weak_lookup new es = None"
    using inv that
    by (auto simp: weak_move_map weak_inv_def weak_lookup_None distinct_map comp_def inj_on_def image_iff)
  show "weak_lookup st' (weak_move old new es) =
      (if st' = new then Some tg else if st' = old then None else weak_lookup st' es)"
    if "weak_lookup old es = Some tg" "weak_lookup new es = None"
    using weak_lookup_map_move [OF that] inv by (simp add: weak_move_map)
qed

end
