(* ===== verification/Sweep.thy ===== *)
theory Sweep
  imports Marking Finalization_Order Weak_Refs
begin

text \<open>
  The sweep of \<open>src/GCManager.cpp\<close>: detaching dead blocks from the allocation map
  (\<open>sweep_locked\<close>, \<open>detach_all_blocks_locked\<close>), and running their finalizers and
  returning their memory (\<open>destroy_blocks\<close>). The sweep loop is shown equal to a closed form,
  \<open>swept\<close>, from which the invariant and the fate of weak references follow.
\<close>

section \<open>Operations\<close>

text \<open>One turn of the loop over \<open>allocations_\<close>.\<close>

definition sweep_entry :: "addr \<times> BlockRecord \<Rightarrow> gc_state \<Rightarrow> gc_state" where
  "sweep_entry p s =
     (let h = br_header (snd p); header = gc_headers s h in
      if is_marked header
      then s\<lparr>gc_headers := (gc_headers s)(h := set_marked False header)\<rparr>
      else let s = invalidate_weak_refs_for_block_locked
                     (br_payload_begin (snd p)) (br_payload_end (snd p)) s
           in s\<lparr>gc_managed_bytes := gc_managed_bytes s - ch_size header,
                gc_reserved_bytes := gc_reserved_bytes s - block_allocation_size header,
                gc_allocations := om_erase (fst p) (gc_allocations s)\<rparr>)"

definition unmarked_entries :: "gc_state \<Rightarrow> (addr \<times> BlockRecord) list" where
  "unmarked_entries s = filter (\<lambda>p. \<not> is_marked (header_of s (snd p))) (gc_allocations s)"

definition sweep_locked :: "gc_env \<Rightarrow> addr list gc" where
  "sweep_locked env s =
     (if gc_allocations s \<noteq> [] \<and> e_alloc_fails env Unreachable_Reserve
      then (Throw Bad_Alloc, s)
      else bindp (order_blocks_for_finalization_locked env (map snd (unmarked_entries s)) s)
             (\<lambda>ordered s. (Return ordered, fold sweep_entry (gc_allocations s) s)))"

definition detach_all_blocks_locked :: "gc_env \<Rightarrow> addr list gc" where
  "detach_all_blocks_locked env s =
     (if gc_allocations s \<noteq> [] \<and> e_alloc_fails env Detach_Reserve then (Throw Bad_Alloc, s)
      else bindp (order_blocks_for_finalization_locked env (map snd (gc_allocations s)) s)
             (\<lambda>ordered s. (Return ordered,
                s\<lparr>gc_allocations := [], gc_managed_bytes := 0, gc_reserved_bytes := 0\<rparr>)))"

definition free_block_memory :: "addr \<Rightarrow> gc_state \<Rightarrow> gc_state" where
  "free_block_memory h s =
     s\<lparr>gc_regions := filter (\<lambda>r. fst r \<noteq> h) (gc_regions s),
       gc_events := gc_events s @ [Freed h (allocation_alignment (gc_headers s h))]\<rparr>"

text \<open>The first loop of \<open>destroy_blocks\<close>; an exception out of a finalizer ends the process.\<close>

primrec run_finalizers :: "gc_env \<Rightarrow> addr list \<Rightarrow> unit gc" where
  "run_finalizers env [] = (\<lambda>s. (Return (), s))"
| "run_finalizers env (h # hs) = (\<lambda>s.
     if h = 0 then run_finalizers env hs s
     else case ch_destructor (gc_headers s h) of
       None \<Rightarrow> run_finalizers env hs s
     | Some d \<Rightarrow>
         let p = payload_pointer h s in
         bindp (catchp (e_finalize env d p (s\<lparr>gc_events := gc_events s @ [Finalized d p]\<rparr>))
                  (\<lambda>_ s. (Terminate, s)))
           (\<lambda>_ s. run_finalizers env hs s))"

definition destroy_blocks :: "gc_env \<Rightarrow> addr list \<Rightarrow> unit gc" where
  "destroy_blocks env hs s =
     bindp (run_finalizers env hs s) (\<lambda>_ s. (Return (), fold free_block_memory hs s))"

section \<open>The sweep in closed form\<close>

definition dead_hit :: "(addr \<times> BlockRecord) list \<Rightarrow> WeakRefEntry \<Rightarrow> bool" where
  "dead_hit ds e \<longleftrightarrow> list_ex (\<lambda>p. weak_hit (br_payload_begin (snd p)) (br_payload_end (snd p)) e) ds"

definition swept_by :: "(addr \<times> BlockRecord) list \<Rightarrow> gc_state \<Rightarrow> gc_state" where
  "swept_by ps s =
     (let ds = filter (\<lambda>p. \<not> is_marked (header_of s (snd p))) ps in
      s\<lparr>gc_headers := (\<lambda>a. if a \<in> br_header ` snd ` set ps then set_marked False (gc_headers s a)
                            else gc_headers s a),
        gc_allocations := filter (\<lambda>q. fst q \<notin> fst ` set ds) (gc_allocations s),
        gc_weak_refs := filter (\<lambda>e. \<not> dead_hit ds e) (gc_weak_refs s),
        gc_mem := zero_storages (map wr_storage (filter (dead_hit ds) (gc_weak_refs s))) (gc_mem s),
        gc_managed_bytes := gc_managed_bytes s -
          (\<Sum>p\<leftarrow>ds. ch_size (header_of s (snd p))),
        gc_reserved_bytes := gc_reserved_bytes s -
          (\<Sum>p\<leftarrow>ds. block_allocation_size (header_of s (snd p)))\<rparr>)"

definition swept :: "gc_state \<Rightarrow> gc_state" where
  "swept s = swept_by (gc_allocations s) s"

lemma zero_storages_apply:
  "zero_storages sts m = (\<lambda>x. if \<exists>st\<in>set sts. x - st < word_size then 0 else m x)"
  unfolding zero_storages_def
proof (induction sts arbitrary: m)
  case (Cons st sts)
  show ?case by (simp add: Cons.IH fun_eq_iff) (simp add: store_word_def)
qed simp

lemma load_zero_storages: "st \<in> set sts \<Longrightarrow> load_word (zero_storages sts m) st = 0"
proof (rule bit_word_eqI)
  fix n assume "st \<in> set sts" "n < LENGTH(64)"
  then have "n div 8 < 8" by simp
  with \<open>st \<in> set sts\<close> show "bit (load_word (zero_storages sts m) st) n \<longleftrightarrow> bit (0::u64) n"
    by (auto simp: bit_load_word zero_storages_apply of_nat_small_less intro!: bexI [of _ st])
qed

lemma zero_storages_zero_storages:
  "zero_storages us (zero_storages sts m) = zero_storages (sts @ us) m"
  by (auto simp: zero_storages_apply fun_eq_iff)

lemma zero_storages_cong: "set sts = set us \<Longrightarrow> zero_storages sts m = zero_storages us m"
  by (simp add: zero_storages_apply)

lemma set_marked_unmarked [simp]: "\<not> is_marked h \<Longrightarrow> set_marked False h = h"
  by (simp add: is_marked_def set_marked_def)

lemma sweep_entry_marked:
  "is_marked (header_of s (snd p)) \<Longrightarrow> sweep_entry p s =
     s\<lparr>gc_headers := (gc_headers s)(br_header (snd p) := set_marked False (header_of s (snd p)))\<rparr>"
  by (simp add: sweep_entry_def header_of_def Let_def)

lemma sweep_entry_unmarked:
  "\<not> is_marked (header_of s (snd p)) \<Longrightarrow> sweep_entry p s =
     s\<lparr>gc_mem := zero_storages (map wr_storage (filter (dead_hit [p]) (gc_weak_refs s))) (gc_mem s),
       gc_weak_refs := filter (\<lambda>e. \<not> dead_hit [p] e) (gc_weak_refs s),
       gc_managed_bytes := gc_managed_bytes s - ch_size (header_of s (snd p)),
       gc_reserved_bytes := gc_reserved_bytes s - block_allocation_size (header_of s (snd p)),
       gc_allocations := om_erase (fst p) (gc_allocations s)\<rparr>"
  by (simp add: sweep_entry_def header_of_def Let_def invalidate_weak_refs_for_block_locked_def
      dead_hit_def [abs_def] weak_purge_def)

lemma fold_sweep_entry:
  "distinct (map (br_header \<circ> snd) ps) \<Longrightarrow> fold sweep_entry ps s = swept_by ps s"
proof (induction ps arbitrary: s)
  case Nil
  then show ?case by (simp add: swept_by_def dead_hit_def zero_storages_def)
next
  case (Cons p ps)
  let ?t = "sweep_entry p s"
  have "br_header (snd q) \<noteq> br_header (snd p)" if "q \<in> set ps" for q
    using Cons.prems that by (auto simp: rev_image_eqI)
  then have hd: "header_of ?t (snd q) = header_of s (snd q)" if "q \<in> set ps" for q
    using that
    by (cases "is_marked (header_of s (snd p))")
      (auto simp: sweep_entry_marked sweep_entry_unmarked header_of_def)
  have ds: "filter (\<lambda>q. \<not> is_marked (header_of ?t (snd q))) ps =
      filter (\<lambda>q. \<not> is_marked (header_of s (snd q))) ps" (is "_ = ?ds")
    by (rule filter_cong) (simp_all add: hd)
  have sums: "map (\<lambda>q. f (header_of ?t (snd q))) ?ds = map (\<lambda>q. f (header_of s (snd q))) ?ds"
    for f :: "ChunkHeader \<Rightarrow> u64"
    by (rule map_cong) (simp_all add: hd)
  have IH: "fold sweep_entry (p # ps) s = swept_by ps ?t"
    using Cons by simp
  show ?case
  proof (cases "is_marked (header_of s (snd p))")
    case True
    have "swept_by ps ?t = swept_by (p # ps) s"
      unfolding swept_by_def ds Let_def sums
      by (rule gc_state.equality)
        (use True in \<open>auto simp: sweep_entry_marked header_of_def fun_eq_iff\<close>)
    with IH show ?thesis by simp
  next
    case False
    have "zero_storages (map wr_storage (filter (dead_hit ?ds) (gc_weak_refs ?t))) (gc_mem ?t) =
        zero_storages (map wr_storage (filter (dead_hit (p # ?ds)) (gc_weak_refs s))) (gc_mem s)"
      using False
      by (force simp: sweep_entry_unmarked zero_storages_zero_storages dead_hit_def
          intro!: zero_storages_cong)
    then have "swept_by ps ?t = swept_by (p # ps) s"
      unfolding swept_by_def ds Let_def sums
      by (intro gc_state.equality)
        (use False in \<open>auto simp: sweep_entry_unmarked header_of_def fun_eq_iff om_erase_def
           dead_hit_def diff_diff_eq intro!: filter_cong\<close>)
    with IH show ?thesis by simp
  qed
qed

section \<open>What the sweep does to the manager\<close>

lemma index_inv_distinct_headers:
  "index_inv s \<Longrightarrow> distinct (map (br_header \<circ> snd) (gc_allocations s))"
  by (auto simp: distinct_map inj_on_def index_inv_header_inj strict_sorted_iff
      dest: index_inv_om_wf [unfolded om_wf_def])

lemma sweep_fold: "index_inv s \<Longrightarrow> fold sweep_entry (gc_allocations s) s = swept s"
  by (simp add: swept_def fold_sweep_entry index_inv_distinct_headers)

definition live_entries :: "gc_state \<Rightarrow> (addr \<times> BlockRecord) list" where
  "live_entries s = filter (\<lambda>p. is_marked (header_of s (snd p))) (gc_allocations s)"

lemma swept_allocations:
  assumes "index_inv s"
  shows "gc_allocations (swept s) = live_entries s"
proof -
  have "fst q \<in> fst ` set (unmarked_entries s) \<longleftrightarrow> q \<in> set (unmarked_entries s)"
    if "q \<in> set (gc_allocations s)" for q
    using that index_inv_om_wf [OF assms]
    by (auto simp: unmarked_entries_def om_wf_def strict_sorted_iff distinct_map dest: inj_onD)
  then show ?thesis
    by (auto simp: swept_def swept_by_def Let_def live_entries_def unmarked_entries_def
        intro!: filter_cong)
qed

lemma swept_sel:
  "gc_regions (swept s) = gc_regions s" "gc_events (swept s) = gc_events s"
  "gc_threads (swept s) = gc_threads s" "gc_root_ranges (swept s) = gc_root_ranges s"
  "gc_collection_threshold_bytes (swept s) = gc_collection_threshold_bytes s"
  "gc_collector_thread (swept s) = gc_collector_thread s"
  "gc_stop_the_world_requested (swept s) = gc_stop_the_world_requested s"
  "gc_collecting (swept s) = gc_collecting s" "gc_stats (swept s) = gc_stats s"
  by (simp_all add: swept_def swept_by_def Let_def)

declare swept_sel [simp, frame_simps]

lemma swept_blocks: "index_inv s \<Longrightarrow> blocks (swept s) = marked_blocks s"
  by (auto simp: blocks_def swept_allocations live_entries_def marked_blocks_def)

lemma swept_shape: "same_shape (gc_headers s a) (gc_headers (swept s) a)"
  by (simp add: swept_def swept_by_def Let_def)

lemma header_shape:
  "same_shape h h' \<Longrightarrow> ch_size h' = ch_size h \<and> block_allocation_size h' = block_allocation_size h"
  by (simp add: same_shape_def block_allocation_size_def)

lemma index_inv_filter:
  "index_inv s \<Longrightarrow> index_inv (s\<lparr>gc_allocations := filter P (gc_allocations s)\<rparr>)"
  by (auto simp: index_inv_def blocks_apart_def list_all_iff sorted_wrt_filter)

lemma swept_index_inv: "index_inv s \<Longrightarrow> index_inv (swept s)"
proof -
  assume inv: "index_inv s"
  let ?r = "s\<lparr>gc_allocations := live_entries s\<rparr>"
  have "index_inv ?r" using index_inv_filter [OF inv] by (simp add: live_entries_def)
  moreover have "index_inv (swept s) = index_inv ?r"
    by (rule index_inv_cong) (simp_all add: swept_allocations inv header_of_def swept_shape)
  ultimately show ?thesis by simp
qed

text \<open>Subtracting the sizes of some entries from the byte counters gives the sizes of the rest.\<close>

lemma of_nat_sum_unat: "(of_nat (\<Sum>p\<leftarrow>xs. unat (f p)) :: u64) = (\<Sum>p\<leftarrow>xs. f p)"
  by (induction xs) simp_all

lemma sum_list_split:
  fixes f :: "'a \<Rightarrow> nat"
  shows "(\<Sum>p\<leftarrow>xs. f p) = (\<Sum>p\<leftarrow>filter P xs. f p) + (\<Sum>p\<leftarrow>filter (\<lambda>p. \<not> P p) xs. f p)"
  by (induction xs) simp_all

lemma unat_counter_split:
  fixes c :: u64
  assumes "unat c = (\<Sum>p\<leftarrow>xs. unat (f p))"
  shows "unat (c - (\<Sum>p\<leftarrow>filter (\<lambda>p. \<not> P p) xs. f p)) = (\<Sum>p\<leftarrow>filter P xs. unat (f p))"
proof -
  let ?l = "\<Sum>p\<leftarrow>filter P xs. unat (f p)" and ?d = "\<Sum>p\<leftarrow>filter (\<lambda>p. \<not> P p) xs. unat (f p)"
  have u: "unat c = ?l + ?d" using assms sum_list_split [of "\<lambda>p. unat (f p)" xs P] by simp
  have "c = of_nat (unat c)" by simp
  then have "c = of_nat ?l + of_nat ?d" unfolding u by (simp only: of_nat_add)
  then have "c - (\<Sum>p\<leftarrow>filter (\<lambda>p. \<not> P p) xs. f p) = of_nat ?l" by (simp add: of_nat_sum_unat)
  moreover have "?l < 2 ^ 64" using u unat_less_64 [of c] by linarith
  ultimately show ?thesis by (simp add: unat_of_nat)
qed

lemma swept_accounting:
  assumes "index_inv s" "accounting s"
  shows "accounting (swept s)"
proof -
  let ?P = "\<lambda>p. is_marked (header_of s (snd p))"
  have sz: "ch_size (header_of (swept s) b) = ch_size (header_of s b)"
    "block_allocation_size (header_of (swept s) b) = block_allocation_size (header_of s b)" for b
    using header_shape [OF swept_shape] by (simp_all add: header_of_def)
  have "unat (gc_managed_bytes s) = (\<Sum>p\<leftarrow>gc_allocations s. unat (ch_size (header_of s (snd p))))"
    "unat (gc_reserved_bytes s) =
      (\<Sum>p\<leftarrow>gc_allocations s. unat (block_allocation_size (header_of s (snd p))))"
    using assms(2) by (simp_all add: accounting_def)
  from this [THEN unat_counter_split, where P = ?P] show ?thesis
    unfolding accounting_def sz swept_allocations [OF assms(1)] live_entries_def
    by (simp add: swept_def swept_by_def Let_def)
qed

lemma swept_regions_ok: "index_inv s \<Longrightarrow> regions_ok s \<Longrightarrow> regions_ok (swept s)"
  using header_shape [OF swept_shape]
  by (auto simp: regions_ok_def swept_allocations live_entries_def list_all_iff header_of_def)

lemma swept_heap_inv: "heap_inv s \<Longrightarrow> heap_inv (swept s)"
  by (simp add: heap_inv_def swept_index_inv swept_accounting swept_regions_ok)

section \<open>The dead blocks in finalization order\<close>

lemma blocks_listed_entries:
  assumes "index_inv s"
  shows "blocks_listed (map snd (filter P (gc_allocations s)))"
proof -
  have ok: "\<forall>p\<in>set (gc_allocations s). block_ok (gc_headers s) p"
    using assms by (simp add: index_inv_block_ok)
  have "sorted_wrt (\<lambda>p q. br_payload_end (snd p) \<le> br_payload_begin (snd q)) (gc_allocations s)"
    using assms unfolding index_inv_def blocks_apart_def
    by (elim conjE sorted_wrt_mono_rel [rotated]) (meson block_ok_bounds(1) less_imp_le ok order_trans)
  then have "sorted_wrt (\<lambda>b c. br_payload_end b \<le> br_payload_begin c) (map snd (filter P (gc_allocations s)))"
    by (simp add: sorted_wrt_map sorted_wrt_filter)
  moreover have "\<forall>p\<in>set (gc_allocations s). br_payload_begin (snd p) < br_payload_end (snd p) \<and>
      unat (br_payload_end (snd p)) \<le> 2 ^ 63"
    using ok block_ok_bounds(2) by (auto simp: block_ok_def Let_def)
  ultimately show ?thesis by (auto simp: blocks_listed_def)
qed

text \<open>Some allocation of a container of the manager fails.\<close>

definition out_of_memory :: "gc_env \<Rightarrow> bool" where
  "out_of_memory env \<longleftrightarrow> (\<exists>site. e_alloc_fails env site)"

text \<open>
  References among a set of blocks, other than those of a block to itself, and lists of headers in
  which a referrer comes before what it refers to unless a cycle leads to the target.
\<close>

definition dead_rel :: "gc_state \<Rightarrow> BlockRecord set \<Rightarrow> (BlockRecord \<times> BlockRecord) set" where
  "dead_rel s D = {(a, b). a \<in> D \<and> b \<in> D \<and> a \<noteq> b \<and> b \<in> refs s a}"

definition referrers_first :: "gc_state \<Rightarrow> BlockRecord set \<Rightarrow> addr list \<Rightarrow> bool" where
  "referrers_first s D hs \<longleftrightarrow>
     (\<forall>a b. (a, b) \<in> dead_rel s D \<longrightarrow> (\<forall>x. (x, x) \<in> (dead_rel s D)\<^sup>+ \<longrightarrow> (x, b) \<notin> (dead_rel s D)\<^sup>*) \<longrightarrow>
       (\<exists>xs ys zs. hs = xs @ br_header a # ys @ br_header b # zs))"

lemma refers_iff_dead_rel:
  assumes inv: "index_inv s" and bs: "set bs \<subseteq> blocks s" "distinct bs" and ij: "i < length bs" "j < length bs"
  shows "refers (gc_mem s) bs i j \<longleftrightarrow> (bs ! i, bs ! j) \<in> dead_rel s (set bs)"
proof -
  have "bs ! j \<in> blocks s" using bs(1) ij(2) by (meson nth_mem subsetD)
  then have "bs ! j \<in> refs s (bs ! i) \<longleftrightarrow>
      (\<exists>w\<in>set (payload_words (gc_mem s) (bs ! i)). br_payload_begin (bs ! j) \<le> w \<and> w < br_payload_end (bs ! j))"
    by (simp add: refs_def targets_def find_block_iff [OF inv])
  then show ?thesis using ij bs(2) by (auto simp: refers_def dead_rel_def nth_eq_iff_index_eq)
qed

lemma refers_rel_path:
  assumes "index_inv s" "set bs \<subseteq> blocks s" "distinct bs" "(i, j) \<in> (refers_rel (gc_mem s) bs)\<^sup>+"
  shows "(bs ! i, bs ! j) \<in> (dead_rel s (set bs))\<^sup>+"
proof -
  have step: "(bs ! x, bs ! y) \<in> dead_rel s (set bs)" if "(x, y) \<in> refers_rel (gc_mem s) bs" for x y
    using that refers_iff_dead_rel [OF assms(1-3), of x y] by (auto simp: refers_rel_def refers_def)
  from assms(4) show ?thesis
    by (induction rule: trancl_induct) (auto intro: step trancl_into_trancl)
qed

lemma finalization_indices_referrers_first:
  assumes inv: "index_inv s" and bs: "set bs \<subseteq> blocks s" "distinct bs"
    and order: "\<forall>i j. refers (gc_mem s) bs i j \<longrightarrow> cycle_free (gc_mem s) bs j \<longrightarrow> (\<exists>xs ys zs. is = xs @ i # ys @ j # zs)"
  shows "referrers_first s (set bs) (map (\<lambda>i. br_header (bs ! i)) is)"
  unfolding referrers_first_def
proof (intro allI impI)
  let ?D = "dead_rel s (set bs)" and ?R = "refers_rel (gc_mem s) bs"
  fix a b assume ab: "(a, b) \<in> ?D" "\<forall>x. (x, x) \<in> ?D\<^sup>+ \<longrightarrow> (x, b) \<notin> ?D\<^sup>*"
  then obtain i j where ij: "i < length bs" "j < length bs" "a = bs ! i" "b = bs ! j"
    by (auto simp: dead_rel_def in_set_conv_nth)
  have "cycle_free (gc_mem s) bs j" unfolding cycle_free_def
  proof (rule acyclicI, rule allI, rule notI)
    fix x assume x: "(x, x) \<in> {(a, b). (a, b) \<in> ?R \<and> (b, j) \<in> ?R\<^sup>*}\<^sup>+"
    then have "(x, x) \<in> ?R\<^sup>+" by (rule trancl_mono) auto
    moreover from x have "(x, j) \<in> ?R\<^sup>*" by (rule tranclE) auto
    ultimately have "(x, x) \<in> ?R\<^sup>+" "(x, j) \<in> ?R\<^sup>+" by (auto simp: rtrancl_eq_or_trancl)
    with refers_rel_path [OF inv bs] ab(2) ij(4) show False by (meson trancl_into_rtrancl)
  qed
  moreover have "refers (gc_mem s) bs i j" using ab(1) ij refers_iff_dead_rel [OF inv bs ij(1,2)] by simp
  ultimately obtain xs ys zs where "is = xs @ i # ys @ j # zs" using order by blast
  then show "\<exists>xs ys zs. map (\<lambda>i. br_header (bs ! i)) is = xs @ br_header a # ys @ br_header b # zs"
    using ij by (intro exI [of _ "map (\<lambda>i. br_header (bs ! i)) xs"] exI [of _ "map (\<lambda>i. br_header (bs ! i)) ys"]
      exI [of _ "map (\<lambda>i. br_header (bs ! i)) zs"]) simp
qed

lemma referrers_first_frame:
  "refs t = refs s \<Longrightarrow> referrers_first t D hs = referrers_first s D hs"
  by (simp add: referrers_first_def dead_rel_def)

lemma order_blocks_cases:
  assumes inv: "index_inv s" and bs: "bs = map snd (filter P (gc_allocations s))"
  obtains (throws) "order_blocks_for_finalization_locked env bs s = (Throw Bad_Alloc, s)"
      "out_of_memory env"
    | (returns) hs where "order_blocks_for_finalization_locked env bs s = (Return hs, s)"
      "mset hs = mset (map br_header bs)" "referrers_first s (set bs) hs"
proof (cases "bs \<noteq> [] \<and> e_alloc_fails env Ordering_Graph")
  case True
  then show ?thesis
    by (intro throws) (auto simp: order_blocks_for_finalization_locked_def out_of_memory_def)
next
  case False
  have l: "blocks_listed bs" unfolding bs by (rule blocks_listed_entries [OF inv])
  have d: "distinct bs"
    by (rule blocks_listed_distinct [OF l])
  have sub: "set bs \<subseteq> blocks s" by (auto simp: bs blocks_def)
  obtain xs where i: "finalization_indices (gc_mem s) bs = Some xs" "distinct xs" "set xs = {..<length bs}"
    and order: "\<forall>i j. refers (gc_mem s) bs i j \<longrightarrow> cycle_free (gc_mem s) bs j \<longrightarrow> (\<exists>us ys zs. xs = us @ i # ys @ j # zs)"
    using finalization_indices_spec [OF l] by blast
  have "mset xs = mset [0..<length bs]"
    using i set_eq_iff_mset_eq_distinct [of xs "[0..<length bs]"] by (simp add: atLeast0LessThan)
  then have "mset (map (\<lambda>i. br_header (bs ! i)) xs) = mset (map (\<lambda>i. br_header (bs ! i)) [0..<length bs])"
    by (metis mset_map)
  also have "map (\<lambda>i. br_header (bs ! i)) [0..<length bs] = map br_header bs"
    by (metis (no_types, lifting) map_nth map_map comp_apply map_cong)
  finally show ?thesis
    using i(1) False finalization_indices_referrers_first [OF inv sub d order]
    by (intro returns) (auto simp: order_blocks_for_finalization_locked_def)
qed

text \<open>The sweep either throws and leaves the manager as it was, or detaches every dead block.\<close>

lemma unmarked_blocks: "set (map snd (unmarked_entries s)) = blocks s - marked_blocks s"
  by (auto simp: unmarked_entries_def blocks_def marked_blocks_def rev_image_eqI)

lemma sweep_locked_cases:
  assumes "index_inv s"
  obtains (throws) "sweep_locked env s = (Throw Bad_Alloc, s)" "out_of_memory env"
    | (returns) hs where "sweep_locked env s = (Return hs, swept s)"
      "mset hs = mset (map (br_header \<circ> snd) (unmarked_entries s))"
      "referrers_first s (blocks s - marked_blocks s) hs"
proof (cases "gc_allocations s \<noteq> [] \<and> e_alloc_fails env Unreachable_Reserve")
  case True
  then show ?thesis by (intro throws) (auto simp: sweep_locked_def out_of_memory_def)
next
  case False
  from assms unmarked_entries_def [of s, THEN arg_cong, of "map snd"] show ?thesis
    by (cases rule: order_blocks_cases [where env = env])
      (use False assms throws returns unmarked_blocks [of s] in \<open>auto simp: sweep_locked_def sweep_fold\<close>)
qed

section \<open>Weak references across the sweep\<close>

lemma weak_hit_block:
  assumes "index_inv s" "(k, b) \<in> set (gc_allocations s)"
  shows "weak_hit (br_payload_begin b) (br_payload_end b) e \<longleftrightarrow>
    find_block_locked (wr_target e) s = Some b"
  using assms by (auto simp: weak_hit_def find_block_iff blocks_def intro: rev_image_eqI)

lemma dead_hit_unmarked:
  assumes "index_inv s"
  shows "dead_hit (unmarked_entries s) e \<longleftrightarrow>
    (\<exists>b \<in> blocks s - marked_blocks s. find_block_locked (wr_target e) s = Some b)"
proof -
  have "b \<in> blocks s - marked_blocks s \<longleftrightarrow> (\<exists>k. (k, b) \<in> set (unmarked_entries s))" for b
    by (auto simp: unmarked_entries_def blocks_def marked_blocks_def rev_image_eqI)
  moreover have "dead_hit (unmarked_entries s) e \<longleftrightarrow>
      (\<exists>(k, b) \<in> set (unmarked_entries s). find_block_locked (wr_target e) s = Some b)"
    unfolding dead_hit_def list_ex_iff
    by (intro bex_cong) (auto simp: unmarked_entries_def weak_hit_block [OF assms])
  ultimately show ?thesis by auto
qed

lemma swept_weak_refs:
  "gc_weak_refs (swept s) = filter (\<lambda>e. \<not> dead_hit (unmarked_entries s) e) (gc_weak_refs s)"
  "gc_mem (swept s) = zero_storages
     (map wr_storage (filter (dead_hit (unmarked_entries s)) (gc_weak_refs s))) (gc_mem s)"
  by (simp_all add: swept_def swept_by_def Let_def unmarked_entries_def)

section \<open>Finalizers\<close>

text \<open>
  What the manager relies on of a finalizer: it returns, and it leaves the tables that describe
  blocks and threads alone. It may write to memory, drop weak references, drop root ranges and
  read statistics, which is what destructors of handles do.
\<close>

definition finalizer_frame :: "gc_state \<Rightarrow> gc_state \<Rightarrow> bool" where
  "finalizer_frame s t \<longleftrightarrow>
     gc_headers t = gc_headers s \<and> gc_regions t = gc_regions s \<and> gc_events t = gc_events s \<and>
     gc_allocations t = gc_allocations s \<and> gc_threads t = gc_threads s \<and>
     gc_managed_bytes t = gc_managed_bytes s \<and> gc_reserved_bytes t = gc_reserved_bytes s \<and>
     gc_collection_threshold_bytes t = gc_collection_threshold_bytes s \<and>
     gc_collector_thread t = gc_collector_thread s \<and>
     gc_stop_the_world_requested t = gc_stop_the_world_requested s \<and>
     gc_collecting t = gc_collecting s \<and> gc_stats t = gc_stats s"

definition finalizers_return :: "gc_env \<Rightarrow> bool" where
  "finalizers_return env \<longleftrightarrow>
     (\<forall>d p s. \<exists>t. run (e_finalize env d p s) = (Done (), t) \<and> finalizer_frame s t)"

lemma finalizer_frame_refl [simp]: "finalizer_frame s s"
  by (simp add: finalizer_frame_def)

lemma finalizer_frame_trans: "finalizer_frame s t \<Longrightarrow> finalizer_frame t u \<Longrightarrow> finalizer_frame s u"
  by (simp add: finalizer_frame_def)

lemma finalizer_frame_events:
  "finalizer_frame s t \<Longrightarrow>
   finalizer_frame (s\<lparr>gc_events := gc_events s @ es\<rparr>) (t\<lparr>gc_events := gc_events t @ es\<rparr>)"
  by (simp add: finalizer_frame_def)

lemma finalizer_frame_payload: "finalizer_frame s t \<Longrightarrow> payload_pointer h t = payload_pointer h s"
  by (simp add: finalizer_frame_def payload_pointer_def)

text \<open>The destructor of a weak handle is such a finalizer.\<close>

lemma unregister_weak_ref_frame:
  "may_proceed c s \<Longrightarrow>
   \<exists>t. run (unregister_weak_ref env c st s) = (Done (), t) \<and> finalizer_frame s t"
  by (simp add: unregister_weak_ref_def prog_simps finalizer_frame_def)

definition finalization_of :: "gc_state \<Rightarrow> addr \<Rightarrow> event list" where
  "finalization_of s h =
     (if h = 0 then [] else case ch_destructor (gc_headers s h) of
        None \<Rightarrow> []
      | Some d \<Rightarrow> [Finalized d (payload_pointer h s)])"

definition finalizations :: "gc_state \<Rightarrow> addr list \<Rightarrow> event list" where
  "finalizations s hs = concat (map (finalization_of s) hs)"

lemma finalizations_cong:
  "gc_headers t = gc_headers s \<Longrightarrow> finalizations t hs = finalizations s hs"
proof -
  assume "gc_headers t = gc_headers s"
  then have "finalization_of t = finalization_of s"
    by (simp add: fun_eq_iff finalization_of_def payload_pointer_def split: option.split)
  then show ?thesis by (simp add: finalizations_def)
qed

lemma run_finalizers_result:
  assumes "finalizers_return env"
  shows "\<exists>t. run (run_finalizers env hs s) = (Done (), t) \<and>
    finalizer_frame (s\<lparr>gc_events := gc_events s @ finalizations s hs\<rparr>) t"
proof (induction hs arbitrary: s)
  case Nil
  then show ?case by (simp add: prog_simps finalizations_def finalizer_frame_def)
next
  case (Cons h hs)
  show ?case
  proof (cases "finalization_of s h")
    case Nil
    then show ?thesis using Cons.IH [of s]
      by (auto simp: finalization_of_def finalizations_def split: if_splits option.splits)
  next
    case (Cons ev evs)
    then obtain d where d: "h \<noteq> 0" "ch_destructor (gc_headers s h) = Some d"
      by (auto simp: finalization_of_def split: if_splits option.splits)
    let ?s = "s\<lparr>gc_events := gc_events s @ [Finalized d (payload_pointer h s)]\<rparr>"
    from assms obtain u where u:
      "run (e_finalize env d (payload_pointer h s) ?s) = (Done (), u)" "finalizer_frame ?s u"
      unfolding finalizers_return_def by blast
    from Cons.IH [of u] obtain t where t: "run (run_finalizers env hs u) = (Done (), t)"
      "finalizer_frame (u\<lparr>gc_events := gc_events u @ finalizations u hs\<rparr>) t" by blast
    have "finalizations u hs = finalizations s hs"
      using u(2) by (intro finalizations_cong) (simp add: finalizer_frame_def)
    moreover have "finalizations s (h # hs) = Finalized d (payload_pointer h s) # finalizations s hs"
      using d by (simp add: finalizations_def finalization_of_def)
    ultimately have "finalizer_frame (s\<lparr>gc_events := gc_events s @ finalizations s (h # hs)\<rparr>) t"
      using finalizer_frame_trans [OF finalizer_frame_events [OF u(2)] t(2)] by simp
    with d u(1) t(1) show ?thesis by (auto simp: Let_def prog_simps)
  qed
qed

lemma fold_free:
  "fold free_block_memory hs s =
     s\<lparr>gc_regions := filter (\<lambda>r. fst r \<notin> set hs) (gc_regions s),
       gc_events := gc_events s @ map (\<lambda>h. Freed h (allocation_alignment (gc_headers s h))) hs\<rparr>"
proof (induction hs arbitrary: s)
  case (Cons h hs)
  have "fold free_block_memory (h # hs) s = fold free_block_memory hs (free_block_memory h s)" by simp
  then show ?case by (simp only: Cons.IH) (simp add: free_block_memory_def conj_commute)
qed simp

text \<open>Every finalizer runs before any block is freed; each block is freed once.\<close>

lemma destroy_blocks_result:
  assumes "finalizers_return env"
  shows "\<exists>t. run (destroy_blocks env hs s) = (Done (), t) \<and>
    finalizer_frame (s\<lparr>gc_regions := filter (\<lambda>r. fst r \<notin> set hs) (gc_regions s),
      gc_events := gc_events s @ finalizations s hs @
        map (\<lambda>h. Freed h (allocation_alignment (gc_headers s h))) hs\<rparr>) t"
proof -
  from run_finalizers_result [OF assms, of hs s] obtain t where
    "run (run_finalizers env hs s) = (Done (), t)"
    "finalizer_frame (s\<lparr>gc_events := gc_events s @ finalizations s hs\<rparr>) t" by blast
  then show ?thesis
    by (simp add: destroy_blocks_def prog_simps fold_free) (simp add: finalizer_frame_def)
qed

lemma destroy_blocks_throwing:
  assumes "h \<noteq> 0" "ch_destructor (gc_headers s h) = Some d"
    and "run (e_finalize env d (payload_pointer h s)
      (s\<lparr>gc_events := gc_events s @ [Finalized d (payload_pointer h s)]\<rparr>)) = (Threw x, t)"
  shows "run (destroy_blocks env (h # hs) s) = (Terminated, t)"
  using assms by (simp add: destroy_blocks_def prog_simps Let_def)

text \<open>What is registered stays registered when other blocks are freed.\<close>

lemma heap_inv_cong:
  assumes "finalizer_frame s t" "heap_inv s"
  shows "heap_inv t"
proof -
  have h: "header_of t = header_of s" using assms(1) by (simp add: finalizer_frame_def header_of_def fun_eq_iff)
  show ?thesis
    using assms by (simp add: heap_inv_def index_inv_def accounting_def regions_ok_def h finalizer_frame_def)
qed

lemma heap_inv_free:
  assumes "heap_inv s" "\<forall>p\<in>set (gc_allocations s). br_header (snd p) \<notin> set hs"
  shows "heap_inv (s\<lparr>gc_regions := filter (\<lambda>r. fst r \<notin> set hs) (gc_regions s), gc_events := es\<rparr>)"
  using assms
  by (auto simp: heap_inv_def index_inv_def accounting_def regions_ok_def header_of_def list_all_iff)

text \<open>
  An exception from a finalizer ends the process before any block is freed.
\<close>

lemma throwing_finalizer_terminates:
  assumes "h \<noteq> 0" "ch_destructor (gc_headers s h) = Some d"
    and "\<And>u. run (e_finalize env d (payload_pointer h s) u) = (Threw x, u)"
  shows "\<exists>t. run (destroy_blocks env (h # hs) s) = (Terminated, t) \<and> gc_regions t = gc_regions s"
  using destroy_blocks_throwing [OF assms(1,2) assms(3)] by simp

text \<open>
  A registered root range is normalised and appended; unregistering it, with its ends in
  either order, leaves the same ranges and nothing else changed.
\<close>

lemma root_range_round_trip:
  assumes "may_proceed c s" "\<not> out_of_memory env" "b \<noteq> 0" "e \<noteq> 0" "b \<noteq> e"
  shows "\<exists>t. run (register_root_range env c b e s) = (Done (), t) \<and>
    gc_root_ranges t = gc_root_ranges s @ [\<lparr>rr_begin = min b e, rr_end = max b e\<rparr>] \<and>
    (\<exists>u. run (unregister_root_range env c e b t) = (Done (), u) \<and>
      mset (gc_root_ranges u) = mset (gc_root_ranges s) \<and> u\<lparr>gc_root_ranges := []\<rparr> = s\<lparr>gc_root_ranges := []\<rparr>)"
proof -
  have n: "normal_range b e = \<lparr>rr_begin = min b e, rr_end = max b e\<rparr>" "normal_range e b = normal_range b e"
    by (auto simp: normal_range_def min_def max_def)
  have mp: "may_proceed c (s\<lparr>gc_root_ranges := r\<rparr>)" for r using assms(1) by (simp add: may_proceed_def)
  show ?thesis
    using assms mp n
    by (simp add: register_root_range_def unregister_root_range_def prog_simps out_of_memory_def)
qed

end
