(* ===== verification/Collector.thy ===== *)
theory Collector
  imports Sweep
begin

text \<open>
  The collection cycle of \<open>src/GCManager.cpp\<close>: \<open>collect\<close>,
  \<open>collect_if_needed\<close> and \<open>shutdown\<close>. The lemmas say what a call does when it runs
  without interference, on every branch: it returns having removed exactly the unreachable
  blocks, or it throws having changed mark flags only.
\<close>

section \<open>Collection\<close>

definition record_collection :: "gc_env \<Rightarrow> addr list \<Rightarrow> gc_state \<Rightarrow> gc_state" where
  "record_collection env unreachable s =
     (let bytes_freed = (\<Sum>h\<leftarrow>unreachable. ch_size (gc_headers s h));
          dur = e_clock_now env - e_clock_start env;
          st = gc_stats s
      in s\<lparr>gc_stats := st\<lparr>
             st_total_collections := st_total_collections st + 1,
             st_blocks_reclaimed_last := of_nat (length unreachable),
             st_bytes_reclaimed_last := bytes_freed,
             st_bytes_reclaimed_total := st_bytes_reclaimed_total st + bytes_freed,
             st_duration_last := dur,
             st_duration_total := st_duration_total st + dur\<rparr>\<rparr>)"

text \<open>The part of \<open>collect\<close> that runs while the world is stopped and the mutex is held.\<close>

definition collect_locked :: "gc_env \<Rightarrow> tid \<Rightarrow> addr list gc" where
  "collect_locked env collector s =
     (let s = clear_marks_locked s in
      if gc_allocations s \<noteq> [] \<and> e_alloc_fails env Worklist_Reserve then (Throw Bad_Alloc, s)
      else case mark_phase env collector s of
             None \<Rightarrow> (Diverge, s)
           | Some s \<Rightarrow>
               bindp (sweep_locked env s) (\<lambda>unreachable s.
                 (Return unreachable, record_collection env unreachable s)))"

text \<open>The handler shared by \<open>collect\<close> and \<open>shutdown\<close>: resume the world and rethrow.\<close>

definition release_and_rethrow :: "gc_exn \<Rightarrow> 'a gc" where
  "release_and_rethrow x s = bindp (release_stop_the_world s) (\<lambda>_ s. (Throw x, s))"

definition collect :: "gc_env \<Rightarrow> tid \<Rightarrow> unit gc" where
  "collect env current s =
     bindp (enter env current s) (\<lambda>_ s.
       if gc_collecting s then (Return (), s)
       else bindp (require_registered_thread_locked current s) (\<lambda>_ s.
         bindp (catchp (bindp (wait_for_other_threads_to_pause_locked current (request_stop current s))
                          (\<lambda>_ s. collect_locked env current s))
                  release_and_rethrow)
           (\<lambda>unreachable s. bindp (leave s) (\<lambda>_ s.
              bindp (destroy_blocks env unreachable s) (\<lambda>_ s. release_stop_the_world s)))))"

definition collect_if_needed :: "gc_env \<Rightarrow> tid \<Rightarrow> size_t \<Rightarrow> unit gc" where
  "collect_if_needed env current incoming_payload_bytes s =
     bindp (enter env current s) (\<lambda>_ s.
     bindp (require_registered_thread_locked current s) (\<lambda>_ s.
       let projected =
             (if add_would_overflow (gc_managed_bytes s) incoming_payload_bytes then size_max
              else gc_managed_bytes s + incoming_payload_bytes);
           should_collect = (\<not> gc_collecting s \<and> gc_collection_threshold_bytes s \<le> projected)
       in bindp (leave s) (\<lambda>_ s.
            if should_collect then collect env current s else (Return (), s))))"

section \<open>Shutdown\<close>

definition shutdown_locked :: "gc_env \<Rightarrow> addr list gc" where
  "shutdown_locked env s =
     (if list_ex (\<lambda>p. br_constructing (snd p)) (gc_allocations s)
      then (Throw (Logic_Error Shutdown_During_Construction), s)
      else bindp (detach_all_blocks_locked env s) (\<lambda>blocks s.
        (Return blocks,
         s\<lparr>gc_mem := zero_storages (filter (\<lambda>st. st \<noteq> 0) (map wr_storage (gc_weak_refs s))) (gc_mem s),
           gc_weak_refs := [],
           gc_stats := new_GCStats\<rparr>)))"

definition shutdown :: "gc_env \<Rightarrow> tid \<Rightarrow> unit gc" where
  "shutdown env current s =
     bindp (enter env current s) (\<lambda>_ s.
       if gc_collecting s then (Return (), s)
       else
         bindp (catchp (bindp (wait_for_other_threads_to_pause_locked current (request_stop current s))
                          (\<lambda>_ s. shutdown_locked env s))
                  release_and_rethrow)
           (\<lambda>blocks s. bindp (leave s) (\<lambda>_ s.
              bindp (destroy_blocks env blocks s) (\<lambda>_ s. release_stop_the_world s))))"

section \<open>The collection, run alone\<close>

lemma reachable_cong:
  assumes "gc_mem t = gc_mem s" "gc_allocations t = gc_allocations s" "gc_threads t = gc_threads s"
    "gc_root_ranges t = gc_root_ranges s"
  shows "reachable env c t = reachable env c s"
  using assms
  by (simp add: reachable_def ref_rel_def refs_def targets_def find_block_locked_def blocks_def
      root_candidates_def)

lemma heap_inv_marks_only:
  assumes "marks_only s t" "heap_inv s"
  shows "heap_inv t"
proof -
  have "ch_size (header_of t b) = ch_size (header_of s b)"
    "block_allocation_size (header_of t b) = block_allocation_size (header_of s b)" for b
    using header_shape [OF marks_only_shape [OF assms(1)]] by (simp_all add: header_of_def)
  then show ?thesis
    using assms marks_only_inv [OF assms(1)]
    by (simp add: heap_inv_def accounting_def regions_ok_def frame_simps)
qed

definition unreachable_headers :: "gc_env \<Rightarrow> tid \<Rightarrow> gc_state \<Rightarrow> addr list" where
  "unreachable_headers env c s =
     map (br_header \<circ> snd) (filter (\<lambda>p. snd p \<notin> reachable env c s) (gc_allocations s))"

lemma record_collection_sel [simp]:
  "gc_mem (record_collection env hs s) = gc_mem s"
  "gc_headers (record_collection env hs s) = gc_headers s"
  "gc_regions (record_collection env hs s) = gc_regions s"
  "gc_events (record_collection env hs s) = gc_events s"
  "gc_allocations (record_collection env hs s) = gc_allocations s"
  "gc_threads (record_collection env hs s) = gc_threads s"
  "gc_weak_refs (record_collection env hs s) = gc_weak_refs s"
  "gc_managed_bytes (record_collection env hs s) = gc_managed_bytes s"
  "gc_reserved_bytes (record_collection env hs s) = gc_reserved_bytes s"
  by (simp_all add: record_collection_def Let_def)

lemma collect_locked_cases:
  assumes inv: "heap_inv s"
  obtains (throws) t where "collect_locked env c s = (Throw Bad_Alloc, t)" "marks_only s t" "out_of_memory env"
    | (returns) hs m where "collect_locked env c s = (Return hs, record_collection env hs (swept m))"
      "marks_only s m" "marked_blocks m = reachable env c s"
      "mset hs = mset (unreachable_headers env c s)"
      "referrers_first s (blocks s - reachable env c s) hs"
proof (cases "gc_allocations (clear_marks_locked s) \<noteq> [] \<and> e_alloc_fails env Worklist_Reserve")
  case True
  then show ?thesis
    by (intro throws [OF _ clear_marks_only]) (auto simp: collect_locked_def Let_def out_of_memory_def)
next
  case False
  from inv have i: "index_inv s" by (simp add: heap_inv_def)
  from clear_and_mark [OF i, of env c] obtain m where m:
    "mark_phase env c (clear_marks_locked s) = Some m" "marks_only s m"
    "marked_blocks m = reachable env c s" by blast
  then have c: "collect_locked env c s = bindp (sweep_locked env m) (\<lambda>unreachable s.
      (Return unreachable, record_collection env unreachable s))"
    using False by (auto simp: collect_locked_def Let_def)
  have "unmarked_entries m = filter (\<lambda>p. snd p \<notin> marked_blocks m) (gc_allocations m)"
    unfolding unmarked_entries_def
    by (rule filter_cong) (auto simp: marked_blocks_def blocks_def)
  then have un: "map (br_header \<circ> snd) (unmarked_entries m) = unreachable_headers env c s"
    using m(2,3) by (simp add: unreachable_headers_def frame_simps)
  from marks_only_inv [OF m(2) i] show ?thesis
  proof (cases rule: sweep_locked_cases [where env = env])
    case t: throws
    with throws m(2) show ?thesis by (auto simp: c)
  next
    case h: (returns hs)
    from h(3) have "referrers_first s (blocks s - reachable env c s) hs"
      using referrers_first_frame [OF marks_only_refs [OF m(2)]] marks_only_blocks [OF m(2)] m(3) by simp
    with h returns m(2,3) un show ?thesis by (auto simp: c)
  qed
qed

text \<open>A thread that can start a collection now, with nothing to wait for.\<close>

definition can_collect :: "tid \<Rightarrow> gc_state \<Rightarrow> bool" where
  "can_collect c s \<longleftrightarrow> may_proceed c s \<and> \<not> gc_collecting s \<and> thread_registered c s \<and> others_paused c s"

lemma request_stop_sel [simp]:
  "gc_mem (request_stop c s) = gc_mem s" "gc_allocations (request_stop c s) = gc_allocations s"
  "gc_threads (request_stop c s) = gc_threads s" "gc_root_ranges (request_stop c s) = gc_root_ranges s"
  "gc_headers (request_stop c s) = gc_headers s" "gc_regions (request_stop c s) = gc_regions s"
  "gc_events (request_stop c s) = gc_events s" "gc_weak_refs (request_stop c s) = gc_weak_refs s"
  "gc_managed_bytes (request_stop c s) = gc_managed_bytes s"
  "gc_reserved_bytes (request_stop c s) = gc_reserved_bytes s" "gc_stats (request_stop c s) = gc_stats s"
  "gc_collection_threshold_bytes (request_stop c s) = gc_collection_threshold_bytes s"
  by (simp_all add: request_stop_def)

lemma request_stop_refs: "refs (request_stop c s) = refs s"
  by (simp add: refs_def targets_def find_block_locked_def fun_eq_iff)

lemma heap_inv_tables:
  assumes "gc_headers t = gc_headers s" "gc_allocations t = gc_allocations s"
    "gc_regions t = gc_regions s" "gc_managed_bytes t = gc_managed_bytes s"
    "gc_reserved_bytes t = gc_reserved_bytes s"
  shows "heap_inv t = heap_inv s"
proof -
  have "header_of t = header_of s" using assms(1) by (simp add: header_of_def fun_eq_iff)
  with assms show ?thesis
    by (simp add: heap_inv_def index_inv_def accounting_def regions_ok_def)
qed

lemma run_collect_unfold:
  assumes "can_collect c s"
  shows "run (collect env c s) =
    bind_outcome (catch_outcome (run (collect_locked env c (request_stop c s)))
        (\<lambda>x t. run (release_and_rethrow x t :: (gc_state, addr list) prog \<times> gc_state)))
      (\<lambda>hs t. bind_outcome (run (destroy_blocks env hs t)) (\<lambda>_ u. run (release_stop_the_world u)))"
  using assms
  by (simp add: can_collect_def collect_def prog_simps others_paused_def
      wait_for_other_threads_to_pause_locked_def)

lemma finalizations_shape:
  assumes "\<And>a. same_shape (gc_headers s a) (gc_headers t a)"
  shows "finalizations t hs = finalizations s hs"
proof -
  have "finalization_of t h = finalization_of s h" for h
    using assms [of h]
    by (simp add: finalization_of_def payload_pointer_def same_shape_def split: option.split)
  then show ?thesis by (simp add: finalizations_def cong: map_cong)
qed

definition frees :: "gc_state \<Rightarrow> addr list \<Rightarrow> event list" where
  "frees s hs = map (\<lambda>h. Freed h (allocation_alignment (gc_headers s h))) hs"

lemma frees_shape:
  "(\<And>a. same_shape (gc_headers s a) (gc_headers t a)) \<Longrightarrow> frees t hs = frees s hs"
  by (simp add: frees_def same_shape_def allocation_alignment_def)

lemma destroy_then_release:
  assumes "finalizers_return env"
  shows "\<exists>t. bind_outcome (run (destroy_blocks env hs s)) (\<lambda>_ u. run (release_stop_the_world u)) =
      (Done (), t) \<and>
    finalizer_frame (s\<lparr>gc_regions := filter (\<lambda>r. fst r \<notin> set hs) (gc_regions s),
      gc_events := gc_events s @ finalizations s hs @ frees s hs,
      gc_collector_thread := no_thread, gc_stop_the_world_requested := False,
      gc_collecting := False\<rparr>) t"
  using destroy_blocks_result [OF assms, of hs s]
  by (auto simp: prog_simps finalizer_frame_def frees_def)

text \<open>What a collection that ran to its end has done.\<close>

definition collected :: "gc_env \<Rightarrow> tid \<Rightarrow> gc_state \<Rightarrow> addr list \<Rightarrow> gc_state \<Rightarrow> bool" where
  "collected env c s hs t \<longleftrightarrow>
     heap_inv t \<and>
     gc_allocations t = filter (\<lambda>p. snd p \<in> reachable env c s) (gc_allocations s) \<and>
     gc_regions t = filter (\<lambda>r. fst r \<notin> set hs) (gc_regions s) \<and>
     gc_events t = gc_events s @ finalizations s hs @ frees s hs \<and>
     gc_threads t = gc_threads s \<and>
     gc_collector_thread t = no_thread \<and> \<not> gc_stop_the_world_requested t \<and> \<not> gc_collecting t \<and>
     mset hs = mset (unreachable_headers env c s) \<and>
     referrers_first s (blocks s - reachable env c s) hs"

lemma swept_marked_allocations:
  assumes "index_inv s" "marks_only s m" "marked_blocks m = R"
  shows "gc_allocations (swept m) = filter (\<lambda>p. snd p \<in> R) (gc_allocations s)"
proof -
  have "live_entries m = filter (\<lambda>p. snd p \<in> marked_blocks m) (gc_allocations m)"
    unfolding live_entries_def
    by (rule filter_cong) (auto simp: marked_blocks_def blocks_def)
  then show ?thesis
    using assms by (simp add: swept_allocations marks_only_inv frame_simps)
qed

lemma unreachable_headers_apart:
  assumes "index_inv s" "mset hs = mset (unreachable_headers env c s)"
    "p \<in> set (gc_allocations s)" "snd p \<in> reachable env c s"
  shows "br_header (snd p) \<notin> set hs"
proof
  assume "br_header (snd p) \<in> set hs"
  then obtain q where "q \<in> set (gc_allocations s)" "snd q \<notin> reachable env c s"
    "br_header (snd q) = br_header (snd p)"
    using mset_eq_setD [OF assms(2)] by (auto simp: unreachable_headers_def)
  with assms show False using index_inv_header_inj [OF assms(1), of q p] by auto
qed

text \<open>Destroying blocks that are no longer registered, and resuming the world.\<close>

lemma destroy_keeps_inv:
  assumes "finalizers_return env" "heap_inv s"
    and "\<forall>p\<in>set (gc_allocations s). br_header (snd p) \<notin> set hs"
  shows "\<exists>t. bind_outcome (run (destroy_blocks env hs s)) (\<lambda>_ u. run (release_stop_the_world u)) =
      (Done (), t) \<and> heap_inv t \<and>
    finalizer_frame (s\<lparr>gc_regions := filter (\<lambda>r. fst r \<notin> set hs) (gc_regions s),
      gc_events := gc_events s @ finalizations s hs @ frees s hs,
      gc_collector_thread := no_thread, gc_stop_the_world_requested := False,
      gc_collecting := False\<rparr>) t"
proof -
  let ?w = "s\<lparr>gc_regions := filter (\<lambda>r. fst r \<notin> set hs) (gc_regions s),
    gc_events := gc_events s @ finalizations s hs @ frees s hs\<rparr>"
  let ?v = "?w\<lparr>gc_collector_thread := no_thread, gc_stop_the_world_requested := False,
    gc_collecting := False\<rparr>"
  have "heap_inv ?w" by (rule heap_inv_free [OF assms(2,3)])
  then have "heap_inv ?v" using heap_inv_tables [of ?v ?w] by simp
  with destroy_then_release [OF assms(1), of hs s] heap_inv_cong show ?thesis by blast
qed

text \<open>A collection that failed has changed mark flags only, and the world is resumed.\<close>

definition uncollected :: "gc_state \<Rightarrow> gc_state \<Rightarrow> bool" where
  "uncollected s t \<longleftrightarrow>
     marks_only (s\<lparr>gc_collector_thread := no_thread, gc_stop_the_world_requested := False,
       gc_collecting := False\<rparr>) t"

lemma uncollected_inv: "uncollected s t \<Longrightarrow> heap_inv s \<Longrightarrow> heap_inv t"
  unfolding uncollected_def
  by (erule heap_inv_marks_only) (subst heap_inv_tables [of _ s]; simp)

lemma marks_only_release:
  "marks_only (request_stop c s) t \<Longrightarrow>
   uncollected s (t\<lparr>gc_collector_thread := no_thread, gc_stop_the_world_requested := False,
     gc_collecting := False\<rparr>)"
proof -
  assume m: "marks_only (request_stop c s) t"
  then have "\<forall>a. set_marked False (gc_headers t a) = set_marked False (gc_headers s a)"
    by (simp add: marks_only_def)
  then show ?thesis
    using marks_only_sel [OF m]
    by (auto simp: uncollected_def marks_only_def intro!: gc_state.equality)
qed

lemma collect_cases:
  assumes inv: "heap_inv s" and can: "can_collect c s" and fin: "finalizers_return env"
  obtains (throws) t where "run (collect env c s) = (Threw Bad_Alloc, t)" "uncollected s t"
      "out_of_memory env"
    | (returns) hs t where "run (collect env c s) = (Done (), t)" "collected env c s hs t"
proof -
  let ?s = "request_stop c s" and ?R = "reachable env c s"
  have i: "index_inv s" using inv by (simp add: heap_inv_def)
  have r: "reachable env c ?s = ?R" by (rule reachable_cong) simp_all
  have inv': "heap_inv ?s" using inv heap_inv_tables [of ?s s] by simp
  then show ?thesis
  proof (cases rule: collect_locked_cases [where env = env and c = c])
    case (throws t)
    then show ?thesis
      using marks_only_release that(1)
      by (auto simp: run_collect_unfold [OF can] prog_simps release_and_rethrow_def)
  next
    case m: (returns hs m)
    let ?u = "record_collection env hs (swept m)"
    have hs: "mset hs = mset (unreachable_headers env c s)" using m(4) by (simp add: r unreachable_headers_def)
    have al: "gc_allocations (swept m) = filter (\<lambda>p. snd p \<in> ?R) (gc_allocations s)"
      using swept_marked_allocations [OF _ m(2,3)] inv' by (simp add: heap_inv_def r)
    have "heap_inv (swept m)" by (intro swept_heap_inv heap_inv_marks_only [OF m(2) inv'])
    then have "heap_inv ?u" using heap_inv_tables [of ?u "swept m"] by simp
    moreover have "\<forall>p\<in>set (gc_allocations ?u). br_header (snd p) \<notin> set hs"
      using unreachable_headers_apart [OF i hs] by (simp add: al)
    moreover have first: "referrers_first s (blocks s - reachable env c s) hs"
      using m(5) referrers_first_frame [OF request_stop_refs] by (simp add: r blocks_def)
    ultimately obtain t where t:
      "bind_outcome (run (destroy_blocks env hs ?u)) (\<lambda>_ u. run (release_stop_the_world u)) = (Done (), t)"
      "heap_inv t" "finalizer_frame (?u\<lparr>gc_regions := filter (\<lambda>r. fst r \<notin> set hs) (gc_regions ?u),
        gc_events := gc_events ?u @ finalizations ?u hs @ frees ?u hs,
        gc_collector_thread := no_thread, gc_stop_the_world_requested := False,
        gc_collecting := False\<rparr>) t"
      using destroy_keeps_inv [OF fin] by blast
    have "same_shape (gc_headers s a) (gc_headers ?u a)" for a
      using marks_only_shape [OF m(2), of a] swept_shape [of m a] by (simp add: same_shape_def)
    then have "finalizations ?u hs = finalizations s hs" "frees ?u hs = frees s hs"
      by (simp_all add: finalizations_shape frees_shape)
    then have "collected env c s hs t"
      using t(2,3) hs first marks_only_sel [OF m(2)] al by (simp add: collected_def finalizer_frame_def)
    with t(1) m(1) that(2) show ?thesis by (auto simp: run_collect_unfold [OF can] prog_simps)
  qed
qed

section \<open>Shutdown, run alone\<close>

lemma run_shutdown_unfold:
  assumes "may_proceed c s" "\<not> gc_collecting s" "others_paused c s"
  shows "run (shutdown env c s) =
    bind_outcome (catch_outcome (run (shutdown_locked env (request_stop c s)))
        (\<lambda>x t. run (release_and_rethrow x t :: (gc_state, addr list) prog \<times> gc_state)))
      (\<lambda>hs t. bind_outcome (run (destroy_blocks env hs t)) (\<lambda>_ u. run (release_stop_the_world u)))"
  using assms
  by (simp add: shutdown_def prog_simps others_paused_def wait_for_other_threads_to_pause_locked_def)

lemma detach_all_cases:
  assumes "index_inv s"
  obtains (throws) "detach_all_blocks_locked env s = (Throw Bad_Alloc, s)" "out_of_memory env"
    | (returns) hs where "detach_all_blocks_locked env s = (Return hs,
        s\<lparr>gc_allocations := [], gc_managed_bytes := 0, gc_reserved_bytes := 0\<rparr>)"
      "mset hs = mset (map (br_header \<circ> snd) (gc_allocations s))" "referrers_first s (blocks s) hs"
proof (cases "gc_allocations s \<noteq> [] \<and> e_alloc_fails env Detach_Reserve")
  case True
  then show ?thesis by (intro throws) (auto simp: detach_all_blocks_locked_def out_of_memory_def)
next
  case False
  have "map snd (gc_allocations s) = map snd (filter (\<lambda>_. True) (gc_allocations s))" by simp
  with assms show ?thesis
    by (cases rule: order_blocks_cases [where env = env])
      (use False throws returns in \<open>auto simp: detach_all_blocks_locked_def blocks_def\<close>)
qed

text \<open>What a shutdown that ran to its end has done.\<close>

definition shut_down :: "gc_state \<Rightarrow> addr list \<Rightarrow> gc_state \<Rightarrow> bool" where
  "shut_down s hs t \<longleftrightarrow>
     gc_allocations t = [] \<and> gc_managed_bytes t = 0 \<and> gc_reserved_bytes t = 0 \<and>
     gc_stats t = new_GCStats \<and>
     gc_regions t = filter (\<lambda>r. fst r \<notin> set hs) (gc_regions s) \<and>
     gc_events t = gc_events s @ finalizations s hs @ frees s hs \<and>
     mset hs = mset (map (br_header \<circ> snd) (gc_allocations s)) \<and> referrers_first s (blocks s) hs \<and>
     gc_collector_thread t = no_thread \<and> \<not> gc_stop_the_world_requested t \<and> \<not> gc_collecting t"

definition resumed :: "gc_state \<Rightarrow> gc_state" where
  "resumed s = s\<lparr>gc_collector_thread := no_thread, gc_stop_the_world_requested := False, gc_collecting := False\<rparr>"

lemma shutdown_cases:
  assumes inv: "index_inv s" and can: "may_proceed c s" "\<not> gc_collecting s" "others_paused c s"
    and fin: "finalizers_return env"
  obtains (constructing) "\<exists>b\<in>blocks s. br_constructing b"
      "run (shutdown env c s) = (Threw (Logic_Error Shutdown_During_Construction), resumed s)"
    | (throws) "\<forall>b\<in>blocks s. \<not> br_constructing b" "out_of_memory env"
      "run (shutdown env c s) = (Threw Bad_Alloc, resumed s)"
    | (returns) hs t where "\<forall>b\<in>blocks s. \<not> br_constructing b"
      "run (shutdown env c s) = (Done (), t)" "shut_down s hs t"
proof -
  let ?s = "request_stop c s"
  have rs: "?s\<lparr>gc_collector_thread := no_thread, gc_stop_the_world_requested := False,
      gc_collecting := False\<rparr> = resumed s"
    by (simp add: request_stop_def resumed_def)
  have ex: "list_ex (\<lambda>p. br_constructing (snd p)) (gc_allocations s) \<longleftrightarrow> (\<exists>b\<in>blocks s. br_constructing b)"
    by (auto simp: list_ex_iff blocks_def)
  note unfold = run_shutdown_unfold [OF can, of env]
  show ?thesis
  proof (cases "\<exists>b\<in>blocks s. br_constructing b")
    case True
    have "run (shutdown env c s) = (Threw (Logic_Error Shutdown_During_Construction), resumed s)"
      using True rs ex by (simp add: unfold shutdown_locked_def prog_simps release_and_rethrow_def)
    with True show ?thesis by (rule constructing)
  next
    case False
    then have ok: "\<forall>b\<in>blocks s. \<not> br_constructing b" by blast
    have "index_inv ?s" using inv by (simp add: index_inv_def)
    then show ?thesis
    proof (cases rule: detach_all_cases [where env = env])
      case throws': throws
      have "run (shutdown env c s) = (Threw Bad_Alloc, resumed s)"
        using throws'(1) False rs ex by (simp add: unfold shutdown_locked_def prog_simps release_and_rethrow_def)
      from throws [OF ok throws'(2) this] show ?thesis .
    next
      case hs: (returns hs)
      let ?m = "zero_storages (filter (\<lambda>st. st \<noteq> 0) (map wr_storage (gc_weak_refs s))) (gc_mem s)"
      let ?u = "?s\<lparr>gc_allocations := [], gc_managed_bytes := 0, gc_reserved_bytes := 0, gc_mem := ?m,
        gc_weak_refs := [], gc_stats := new_GCStats\<rparr>"
      have "run (shutdown_locked env ?s) = (Done hs, ?u)"
        using hs ex False by (simp add: shutdown_locked_def prog_simps)
      moreover have "finalizations ?u hs = finalizations s hs"
        by (rule finalizations_cong) simp
      moreover have "frees ?u hs = frees s hs" by (simp add: frees_def)
      moreover from destroy_then_release [OF fin, of hs ?u] obtain t where t:
        "bind_outcome (run (destroy_blocks env hs ?u)) (\<lambda>_ u. run (release_stop_the_world u)) = (Done (), t)"
        "finalizer_frame (?u\<lparr>gc_regions := filter (\<lambda>r. fst r \<notin> set hs) (gc_regions ?u),
          gc_events := gc_events ?u @ finalizations ?u hs @ frees ?u hs,
          gc_collector_thread := no_thread, gc_stop_the_world_requested := False,
          gc_collecting := False\<rparr>) t" by blast
      moreover have "referrers_first s (blocks s) hs"
        using hs(3) referrers_first_frame [OF request_stop_refs] by (simp add: blocks_def)
      ultimately have "run (shutdown env c s) = (Done (), t)" "shut_down s hs t"
        using hs(2) by (simp add: unfold, simp add: shut_down_def finalizer_frame_def)
      from returns [OF ok this] show ?thesis .
    qed
  qed
qed

section \<open>Reachable blocks\<close>

lemma reachable_blocks: "reachable env c s \<subseteq> blocks s"
proof -
  have "y \<in> blocks s" if "(x, y) \<in> (ref_rel s)\<^sup>*" "x \<in> blocks s" for x y
    using that by (induction rule: rtrancl_induct) (auto simp: ref_rel_def refs_def dest: subsetD [OF targets_blocks])
  then show ?thesis using targets_blocks unfolding reachable_def by blast
qed

lemma collected_blocks: "collected env c s hs t \<Longrightarrow> blocks t = reachable env c s"
  using reachable_blocks [of env c s] by (auto simp: collected_def blocks_def image_iff)

lemma candidate_reachable:
  assumes "w \<in> set (root_candidates env c s)" "find_block_locked w s = Some b"
  shows "b \<in> reachable env c s"
  using assms unfolding reachable_def targets_def by blast

lemma reachable_step:
  assumes "a \<in> reachable env c s" "w \<in> set (payload_words (gc_mem s) a)" "find_block_locked w s = Some b"
  shows "b \<in> reachable env c s"
proof -
  have "a \<in> blocks s" using assms(1) reachable_blocks by blast
  then have "(a, b) \<in> ref_rel s" using assms(2,3) by (auto simp: ref_rel_def refs_def targets_def)
  with assms(1) show ?thesis unfolding reachable_def by (blast intro: rtrancl_into_rtrancl)
qed

lemma range_candidate:
  assumes "b \<noteq> 0" "e \<noteq> 0" "unat a mod 8 = 0" "unat (min b e) \<le> unat a" "unat a + 8 \<le> unat (max b e)"
  shows "load_word m a \<in> set (range_candidates m b e)"
  using assms set_word_addrs [of b e a] by (simp add: range_candidates_def)

lemma collect_keeps_reachable:
  assumes "heap_inv s" "can_collect c s" "finalizers_return env" "b \<in> reachable env c s"
  shows "\<exists>r t. run (collect env c s) = (r, t) \<and> (r = Done () \<or> r = Threw Bad_Alloc) \<and>
    (br_payload_begin b, b) \<in> set (gc_allocations t)"
proof -
  have "b \<in> blocks s" using assms(4) reachable_blocks by blast
  then have b: "(br_payload_begin b, b) \<in> set (gc_allocations s)"
    using assms(1) by (simp add: heap_inv_def blocks_iff)
  from assms(1-3) show ?thesis
  proof (cases rule: collect_cases)
    case (throws t)
    with b show ?thesis
      using marks_only_sel(4) [OF throws(2) [unfolded uncollected_def]] by simp
  next
    case (returns hs t)
    with b assms(4) show ?thesis by (simp add: collected_def)
  qed
qed

lemma unreachable_headers_distinct:
  assumes "index_inv s" "mset hs = mset (unreachable_headers env c s)"
  shows "distinct hs"
    "set hs = br_header ` (blocks s - reachable env c s)"
proof -
  have "distinct (unreachable_headers env c s)"
    using index_inv_distinct_headers [OF assms(1)] by (simp add: unreachable_headers_def distinct_map_filter)
  then show "distinct hs" using mset_eq_imp_distinct_iff [OF assms(2)] by simp
  show "set hs = br_header ` (blocks s - reachable env c s)"
    using mset_eq_setD [OF assms(2)] by (auto simp: unreachable_headers_def blocks_def)
qed

section \<open>The threshold\<close>

lemma collect_if_needed_result:
  assumes "may_proceed c s" "thread_registered c s"
  shows "run (collect_if_needed env c n s) =
    (if \<not> gc_collecting s \<and>
        unat (gc_collection_threshold_bytes s) \<le> min (unat (gc_managed_bytes s) + unat n) (2 ^ 64 - 1)
     then run (collect env c s) else (Done (), s))"
proof -
  have "(if add_would_overflow (gc_managed_bytes s) n then size_max else gc_managed_bytes s + n) =
      saturating_add (gc_managed_bytes s) n"
    by (simp add: saturating_add_def)
  then show ?thesis
    using assms unat_saturating_add [of "gc_managed_bytes s" n]
    by (simp add: collect_if_needed_def prog_simps Let_def word_le_nat_alt)
qed

text \<open>Inside a collection, for example in a finalizer, \<open>collect\<close> and \<open>shutdown\<close> return at once.\<close>

lemma nested_collect_is_a_no_op:
  assumes "gc_collecting s" "may_proceed c s"
  shows "run (collect env c s) = (Done (), s) \<and> run (shutdown env c s) = (Done (), s)"
  using assms by (simp add: collect_def shutdown_def prog_simps)

end
