(* ===== verification/Diagnostics.thy ===== *)
theory Diagnostics
  imports Collector
begin

text \<open>
  The read-only interface of the manager: thresholds and counters, \<open>stats\<close>,
  \<open>is_live\<close>, and the snapshots \<open>object_info\<close>, \<open>live_objects\<close> and
  \<open>dump_heap\<close>, which stop the world while they read payloads.
\<close>

section \<open>Counters\<close>

definition set_collection_threshold_bytes :: "gc_env \<Rightarrow> tid \<Rightarrow> size_t \<Rightarrow> unit gc" where
  "set_collection_threshold_bytes env current threshold_bytes s =
     bindp (enter env current s) (\<lambda>_ s.
       (Return (), s\<lparr>gc_collection_threshold_bytes := threshold_bytes\<rparr>))"

definition collection_threshold_bytes :: "gc_env \<Rightarrow> tid \<Rightarrow> size_t gc" where
  "collection_threshold_bytes env current s =
     bindp (enter env current s) (\<lambda>_ s. (Return (gc_collection_threshold_bytes s), s))"

definition managed_bytes :: "gc_env \<Rightarrow> tid \<Rightarrow> size_t gc" where
  "managed_bytes env current s =
     bindp (enter env current s) (\<lambda>_ s. (Return (gc_managed_bytes s), s))"

definition managed_block_count :: "gc_env \<Rightarrow> tid \<Rightarrow> size_t gc" where
  "managed_block_count env current s =
     bindp (enter env current s) (\<lambda>_ s. (Return (of_nat (length (gc_allocations s))), s))"

definition stats_snapshot :: "gc_state \<Rightarrow> GCStats" where
  "stats_snapshot s =
     (gc_stats s)\<lparr>
       st_live_bytes := gc_managed_bytes s,
       st_live_blocks := of_nat (length (gc_allocations s)),
       st_reserved_bytes := gc_reserved_bytes s,
       st_registered_threads := of_nat (length (gc_threads s)),
       st_registered_root_ranges := of_nat (length (gc_root_ranges s)),
       st_registered_weak_refs := of_nat (length (gc_weak_refs s)),
       st_fragmentation_ratio :=
         (if gc_reserved_bytes s = 0 then (0, 1)
          else (gc_reserved_bytes s - gc_managed_bytes s, gc_reserved_bytes s))\<rparr>"

definition stats :: "gc_env \<Rightarrow> tid \<Rightarrow> GCStats gc" where
  "stats env current s = bindp (enter env current s) (\<lambda>_ s. (Return (stats_snapshot s), s))"

definition is_live :: "gc_env \<Rightarrow> tid \<Rightarrow> addr \<Rightarrow> bool gc" where
  "is_live env current payload s =
     (if payload = 0 then (Return False, s)
      else bindp (enter env current s) (\<lambda>_ s. (Return (find_block_locked payload s \<noteq> None), s)))"

section \<open>Descriptions of blocks\<close>

text \<open>One turn of the payload loop of \<open>collect_outgoing_references_locked\<close>.\<close>

definition add_reference :: "BlockRecord \<Rightarrow> gc_state \<Rightarrow> u64 \<Rightarrow> addr list \<Rightarrow> addr list" where
  "add_reference block s candidate references =
     (case find_block_locked candidate s of
        None \<Rightarrow> references
      | Some target \<Rightarrow>
          if target = block then references
          else let payload = payload_pointer (br_header target) s in
               if payload \<in> set references then references else references @ [payload])"

definition collect_outgoing_references_locked :: "gc_env \<Rightarrow> BlockRecord \<Rightarrow> addr list gc" where
  "collect_outgoing_references_locked env block s =
     (case payload_cursors (br_payload_begin block) (br_payload_end block) of
        None \<Rightarrow> (Diverge, s)
      | Some cursors \<Rightarrow>
          let references = fold (\<lambda>cur. add_reference block s (load_word (gc_mem s) cur)) cursors []
          in if references \<noteq> [] \<and> e_alloc_fails env Snapshot_Vector then (Throw Bad_Alloc, s)
             else (Return references, s))"

definition describe_block_locked :: "gc_env \<Rightarrow> BlockRecord \<Rightarrow> HeapObjectInfo gc" where
  "describe_block_locked env block s =
     (let header = gc_headers s (br_header block) in
      bindp (collect_outgoing_references_locked env block s) (\<lambda>references s.
        (Return \<lparr>ho_payload = payload_pointer (br_header block) s,
                 ho_payload_size = ch_size header,
                 ho_reserved_size = block_allocation_size header,
                 ho_payload_offset = ucast (ch_payload_offset header),
                 ho_allocation_alignment = allocation_alignment header,
                 ho_marked = is_marked header,
                 ho_outgoing_references = references\<rparr>, s)))"

primrec describe_blocks :: "gc_env \<Rightarrow> BlockRecord list \<Rightarrow> HeapObjectInfo list gc" where
  "describe_blocks env [] = (\<lambda>s. (Return [], s))"
| "describe_blocks env (b # bs) = (\<lambda>s.
     bindp (describe_block_locked env b s) (\<lambda>info s.
       bindp (describe_blocks env bs s) (\<lambda>infos s. (Return (info # infos), s))))"

section \<open>Snapshots\<close>

text \<open>
  The frame shared by \<open>live_objects\<close> and \<open>object_info\<close>: stop the world unless a
  collection is under way, run the body, and resume the world on both exits.
\<close>

definition with_stopped_world :: "gc_env \<Rightarrow> tid \<Rightarrow> 'a gc \<Rightarrow> 'a gc" where
  "with_stopped_world env current body s =
     bindp (enter env current s) (\<lambda>_ s.
       if gc_collecting s then body s
       else bindp (catchp
           (bindp (wait_for_other_threads_to_pause_locked current (request_stop current s))
              (\<lambda>_ s. body s))
           release_and_rethrow)
         (\<lambda>result s. bindp (release_stop_the_world s) (\<lambda>_ s. (Return result, s))))"

definition live_objects :: "gc_env \<Rightarrow> tid \<Rightarrow> HeapObjectInfo list gc" where
  "live_objects env current =
     with_stopped_world env current (\<lambda>s.
       if gc_allocations s \<noteq> [] \<and> e_alloc_fails env Snapshot_Vector then (Throw Bad_Alloc, s)
       else describe_blocks env (map snd (gc_allocations s)) s)"

definition object_info :: "gc_env \<Rightarrow> tid \<Rightarrow> addr \<Rightarrow> HeapObjectInfo option gc" where
  "object_info env current pointer =
     (if pointer = 0 then (\<lambda>s. (Return None, s))
      else with_stopped_world env current (\<lambda>s.
        case find_block_locked pointer s of
          None \<Rightarrow> (Return None, s)
        | Some block \<Rightarrow>
            bindp (describe_block_locked env block s) (\<lambda>info s. (Return (Some info), s))))"

text \<open>The lines \<open>dump_heap\<close> writes, before they are formatted as text.\<close>

datatype dump_line =
    Heap_Line size_t size_t size_t "size_t \<times> size_t"
  | Object_Line addr size_t size_t size_t size_t
  | Reference_Line addr

definition dump_object :: "HeapObjectInfo \<Rightarrow> dump_line list" where
  "dump_object o1 =
     Object_Line (ho_payload o1) (ho_payload_size o1) (ho_reserved_size o1)
       (ho_allocation_alignment o1) (of_nat (length (ho_outgoing_references o1))) #
     map Reference_Line (ho_outgoing_references o1)"

definition dump_heap :: "gc_env \<Rightarrow> tid \<Rightarrow> dump_line list gc" where
  "dump_heap env current s =
     bindp (stats env current s) (\<lambda>snapshot s.
     bindp (live_objects env current s) (\<lambda>objects s.
       (Return (Heap_Line (of_nat (length objects)) (st_live_bytes snapshot)
          (st_reserved_bytes snapshot) (st_fragmentation_ratio snapshot) #
          concat (map dump_object objects)), s)))"

section \<open>Outgoing references\<close>

lemma payload_pointer_block:
  assumes "index_inv s" "b \<in> blocks s"
  shows "payload_pointer (br_header b) s = br_payload_begin b"
proof -
  have "block_ok (gc_headers s) (br_payload_begin b, b)"
    using assms by (simp add: blocks_iff index_inv_block_ok)
  then have u: "unat (br_payload_begin b) =
      unat (br_header b) + unat (ch_payload_offset (gc_headers s (br_header b)))"
    unfolding block_ok_def Let_def snd_conv by blast
  have "unat (ucast (ch_payload_offset (gc_headers s (br_header b))) :: u64) =
      unat (ch_payload_offset (gc_headers s (br_header b)))"
    by (simp add: unsigned_ucast_eq take_bit_nat_eq_self_iff order_less_le_trans [OF unsigned_less])
  with u show ?thesis
    using unat_less_64 [of "br_payload_begin b"]
    by (simp add: payload_pointer_def word_unat_eq_iff unat_word_ariths)
qed

lemma fold_add_reference:
  assumes "index_inv s" "distinct rs"
  shows "distinct (fold (add_reference b s) ws rs) \<and>
    set (fold (add_reference b s) ws rs) =
      set rs \<union> br_payload_begin ` (targets s (set ws) - {b})"
  using assms(2)
proof (induction ws arbitrary: rs)
  case (Cons w ws)
  have "distinct (add_reference b s w rs) \<and>
      set (add_reference b s w rs) = set rs \<union> br_payload_begin ` (targets s {w} - {b})"
    using Cons.prems payload_pointer_block [OF assms(1)] find_block_mem [of w s]
    by (auto simp: add_reference_def targets_def Let_def split: option.splits)
  with Cons.IH [of "add_reference b s w rs"] show ?case
    using targets_insert [of s w "set ws"] by auto
qed (simp add: targets_def)

lemma collect_outgoing_references_result:
  assumes inv: "index_inv s" and b: "b \<in> blocks s" and ok: "\<not> e_alloc_fails env Snapshot_Vector"
  shows "\<exists>rs. collect_outgoing_references_locked env b s = (Return rs, s) \<and> distinct rs \<and>
    set rs = br_payload_begin ` (refs s b - {b})"
proof -
  have "block_ok (gc_headers s) (br_payload_begin b, b)"
    using inv b by (simp add: blocks_iff index_inv_block_ok)
  from payload_cursors_block [OF this, where m = "gc_mem s"] obtain cs where cs:
    "payload_cursors (br_payload_begin b) (br_payload_end b) = Some cs"
    "map (load_word (gc_mem s)) cs = payload_words (gc_mem s) b" by auto
  have "fold (\<lambda>cur. add_reference b s (load_word (gc_mem s) cur)) cs [] =
      fold (add_reference b s) (payload_words (gc_mem s) b) []"
    by (simp add: cs(2) [symmetric] fold_map comp_def)
  with fold_add_reference [OF inv, of "[]" b "payload_words (gc_mem s) b"] cs(1) ok show ?thesis
    by (simp add: collect_outgoing_references_locked_def Let_def refs_def)
qed

text \<open>What a description says of a block.\<close>

definition describes :: "gc_state \<Rightarrow> BlockRecord \<Rightarrow> HeapObjectInfo \<Rightarrow> bool" where
  "describes s b info \<longleftrightarrow>
     ho_payload info = br_payload_begin b \<and>
     ho_payload_size info = br_payload_end b - br_payload_begin b \<and>
     ho_reserved_size info = br_payload_end b - br_header b \<and>
     distinct (ho_outgoing_references info) \<and>
     set (ho_outgoing_references info) = br_payload_begin ` (refs s b - {b})"

lemma describe_block_result:
  assumes inv: "index_inv s" and b: "b \<in> blocks s" and ok: "\<not> e_alloc_fails env Snapshot_Vector"
  shows "\<exists>info. describe_block_locked env b s = (Return info, s) \<and> describes s b info"
proof -
  let ?h = "gc_headers s (br_header b)"
  have "block_ok (gc_headers s) (br_payload_begin b, b)"
    using inv b by (simp add: blocks_iff index_inv_block_ok)
  then have "unat (br_payload_end b) = unat (br_payload_begin b) + unat (ch_size ?h)"
    unfolding block_ok_def Let_def snd_conv by blast
  then have e: "br_payload_end b = br_payload_begin b + ch_size ?h"
    using unat_less_64 [of "br_payload_end b"] by (simp add: word_unat_eq_iff unat_word_ariths)
  moreover have "br_payload_begin b = br_header b + ucast (ch_payload_offset ?h)"
    using payload_pointer_block [OF inv b] by (simp add: payload_pointer_def)
  ultimately have "ch_size ?h = br_payload_end b - br_payload_begin b"
    "block_allocation_size ?h = br_payload_end b - br_header b"
    by (simp_all add: block_allocation_size_def)
  then show ?thesis
    using collect_outgoing_references_result [OF inv b ok] payload_pointer_block [OF inv b]
    by (auto simp: describe_block_locked_def Let_def describes_def)
qed

lemma describe_blocks_result:
  assumes inv: "index_inv s" and ok: "\<not> e_alloc_fails env Snapshot_Vector"
  shows "set bs \<subseteq> blocks s \<Longrightarrow>
    \<exists>infos. describe_blocks env bs s = (Return infos, s) \<and> list_all2 (describes s) bs infos"
proof (induction bs)
  case (Cons b bs)
  then show ?case using describe_block_result [OF inv _ ok, of b] by fastforce
qed simp

section \<open>Snapshots, run alone\<close>

lemma run_with_stopped_world:
  assumes "may_proceed c s" "\<not> gc_collecting s" "others_paused c s"
    and "body (request_stop c s) = (Return x, request_stop c s)"
  shows "run (with_stopped_world env c body s) = (Done x, resumed s)"
  using assms
  by (simp add: with_stopped_world_def prog_simps wait_for_other_threads_to_pause_locked_def
      others_paused_def resumed_def request_stop_def)

lemma live_objects_result:
  assumes inv: "index_inv s" and can: "may_proceed c s" "\<not> gc_collecting s" "others_paused c s"
    and ok: "\<not> e_alloc_fails env Snapshot_Vector"
  shows "\<exists>infos. run (live_objects env c s) = (Done infos, resumed s) \<and>
    list_all2 (describes s) (map snd (gc_allocations s)) infos"
proof -
  let ?s = "request_stop c s"
  have "index_inv ?s" "blocks ?s = blocks s" using inv by (simp_all add: index_inv_def blocks_def)
  moreover have "describes ?s = describes s" by (simp add: describes_def fun_eq_iff request_stop_refs)
  ultimately obtain infos where
    "describe_blocks env (map snd (gc_allocations s)) ?s = (Return infos, ?s)"
    "list_all2 (describes s) (map snd (gc_allocations s)) infos"
    using describe_blocks_result [of ?s env "map snd (gc_allocations s)"] ok by (auto simp: blocks_def)
  then show ?thesis
    using run_with_stopped_world [OF can, where x = infos and env = env and
        body = "\<lambda>s. describe_blocks env (map snd (gc_allocations s)) s"] ok
    by (simp add: live_objects_def)
qed

lemma object_info_result:
  assumes inv: "index_inv s" and can: "may_proceed c s" "\<not> gc_collecting s" "others_paused c s"
    and ok: "\<not> e_alloc_fails env Snapshot_Vector" and p: "p \<noteq> 0"
  shows "case find_block_locked p s of
      None \<Rightarrow> run (object_info env c p s) = (Done None, resumed s)
    | Some b \<Rightarrow> \<exists>info. run (object_info env c p s) = (Done (Some info), resumed s) \<and> describes s b info"
proof -
  let ?s = "request_stop c s"
  let ?body = "\<lambda>s. case find_block_locked p s of None \<Rightarrow> (Return None, s)
    | Some block \<Rightarrow> bindp (describe_block_locked env block s) (\<lambda>info s. (Return (Some info), s))"
  have f: "find_block_locked p ?s = find_block_locked p s" by (simp add: find_block_locked_def)
  have i: "index_inv ?s" "blocks ?s = blocks s" using inv by (simp_all add: index_inv_def blocks_def)
  have d: "describes ?s = describes s" by (simp add: describes_def fun_eq_iff request_stop_refs)
  note r = run_with_stopped_world [OF can, where env = env and body = ?body]
  show ?thesis
  proof (cases "find_block_locked p s")
    case None
    then show ?thesis using r f p by (simp add: object_info_def)
  next
    case (Some b)
    then have "b \<in> blocks ?s" using i(2) find_block_mem by simp
    from describe_block_result [OF i(1) this ok] obtain info where
      "describe_block_locked env b ?s = (Return info, ?s)" "describes s b info" by (auto simp: d)
    with Some r [of "Some info"] f p show ?thesis by (auto simp: object_info_def)
  qed
qed

end
