(* ===== verification/Allocation.thy ===== *)
theory Allocation
  imports Collector
begin

text \<open>
  The allocation path of \<open>src/GCManager.cpp\<close>: \<open>malloc_internal\<close>,
  \<open>finish_construction\<close> and \<open>release_unconstructed\<close>. The lemmas show that a block
  comes out aligned, zeroed and apart from all others, that every operation keeps the heap
  invariant, and that every failure returns the memory.
\<close>

section \<open>Operations\<close>

text \<open>\<open>::operator new(total_size, std::align_val_t(alignment))\<close>.\<close>

definition operator_new :: "gc_env \<Rightarrow> size_t \<Rightarrow> size_t \<Rightarrow> addr gc" where
  "operator_new env n alignment s =
     (case e_op_new env s n alignment of
        None \<Rightarrow> (Throw Bad_Alloc, s)
      | Some a \<Rightarrow> (Return a, s\<lparr>gc_regions := (a, n) # gc_regions s\<rparr>))"

text \<open>The first attempt, and after \<open>std::bad_alloc\<close> a collection and a second one.\<close>

definition allocate_raw :: "gc_env \<Rightarrow> tid \<Rightarrow> size_t \<Rightarrow> size_t \<Rightarrow> addr gc" where
  "allocate_raw env current n alignment s =
     catchp (operator_new env n alignment s) (\<lambda>x s.
       if x = Bad_Alloc
       then bindp (collect env current s) (\<lambda>_ s. operator_new env n alignment s)
       else (Throw x, s))"

definition init_header ::
    "addr \<Rightarrow> size_t \<Rightarrow> DestructorFn option \<Rightarrow> size_t \<Rightarrow> size_t \<Rightarrow> gc_state \<Rightarrow> gc_state" where
  "init_header raw payload_size destructor p_offset alignment s =
     (let header = set_allocation_alignment alignment (set_marked False
            (new_ChunkHeader\<lparr>ch_size := payload_size, ch_destructor := destructor,
               ch_magic_number := kChunkMagicNumber, ch_payload_offset := ucast p_offset\<rparr>))
      in s\<lparr>gc_headers := (gc_headers s)(raw := header)\<rparr>)"

text \<open>The second critical section: counters, zeroed payload, registration.\<close>

definition publish_block ::
    "gc_env \<Rightarrow> tid \<Rightarrow> addr \<Rightarrow> size_t \<Rightarrow> size_t \<Rightarrow> bool \<Rightarrow> unit gc" where
  "publish_block env current header payload_size total_size constructing s =
     bindp (enter env current s) (\<lambda>_ s.
     bindp (require_registered_thread_locked current s) (\<lambda>_ s.
       if add_would_overflow (gc_managed_bytes s) payload_size \<or>
          add_would_overflow (gc_reserved_bytes s) total_size
       then (Throw Bad_Alloc, s)
       else
         let s = s\<lparr>gc_mem := memset_zero (gc_mem s) (payload_pointer header s) payload_size\<rparr>
         in bindp (register_block_locked env header s) (\<lambda>_ s.
              (Return (), s\<lparr>gc_allocations := om_adjust (payload_begin header s)
                 (\<lambda>b. b\<lparr>br_constructing := constructing\<rparr>) (gc_allocations s)\<rparr>))))"

definition malloc_internal ::
    "gc_env \<Rightarrow> tid \<Rightarrow> size_t \<Rightarrow> size_t \<Rightarrow> DestructorFn option \<Rightarrow> bool \<Rightarrow> addr gc" where
  "malloc_internal env current payload_size payload_alignment destructor constructing s =
     (if payload_size = 0 \<or> \<not> has_single_bit payload_alignment then (Throw Bad_Alloc, s)
      else
        bindp (enter env current s) (\<lambda>_ s.
        bindp (require_registered_thread_locked current s) (\<lambda>_ s.
        bindp (leave s) (\<lambda>_ s.
          let alignment = normalize_alignment payload_alignment in
          case round_up_to_alignment sizeof_ChunkHeader alignment of
            None \<Rightarrow> (Throw Bad_Alloc, s)
          | Some p_offset \<Rightarrow>
              if 65535 < p_offset \<or> add_would_overflow p_offset payload_size
              then (Throw Bad_Alloc, s)
              else let total_size = p_offset + payload_size in
                bindp (allocate_raw env current total_size alignment s) (\<lambda>raw s.
                bindp (catchp
                    (publish_block env current raw payload_size total_size constructing
                      (init_header raw payload_size destructor p_offset alignment s))
                    (\<lambda>x s. bindp (leave s) (\<lambda>_ s. (Throw x, free_block_memory raw s))))
                  (\<lambda>_ s. (Return (payload_pointer raw s), s)))))))"

definition finish_construction :: "gc_env \<Rightarrow> tid \<Rightarrow> addr \<Rightarrow> unit gc" where
  "finish_construction env current payload s =
     bindp (enter env current s) (\<lambda>_ s.
       case om_find payload (gc_allocations s) of
         None \<Rightarrow> (Throw (Logic_Error Unknown_Allocation), s)
       | Some _ \<Rightarrow> (Return (), s\<lparr>gc_allocations :=
           om_adjust payload (\<lambda>b. b\<lparr>br_constructing := False\<rparr>) (gc_allocations s)\<rparr>))"

definition release_unconstructed :: "gc_env \<Rightarrow> tid \<Rightarrow> addr \<Rightarrow> unit gc" where
  "release_unconstructed env current payload s =
     (if payload = 0 then (Return (), s)
      else
        bindp (enter env current s) (\<lambda>_ s.
        bindp (require_registered_thread_locked current s) (\<lambda>_ s.
          case om_find payload (gc_allocations s) of
            None \<Rightarrow> (Return (), s)
          | Some block \<Rightarrow>
              let header = gc_headers s (br_header block);
                  s = invalidate_weak_refs_for_block_locked
                        (br_payload_begin block) (br_payload_end block)
                        (s\<lparr>gc_managed_bytes := gc_managed_bytes s - ch_size header,
                           gc_reserved_bytes := gc_reserved_bytes s - block_allocation_size header\<rparr>);
                  s = s\<lparr>gc_allocations := om_erase payload (gc_allocations s)\<rparr>
              in bindp (leave s) (\<lambda>_ s. (Return (), free_block_memory (br_header block) s)))))"

section \<open>Registration of a block\<close>

lemma blocks_apart_Cons:
  "blocks_apart (p # m) \<longleftrightarrow> (\<forall>q\<in>set m. br_payload_end (snd p) \<le> br_header (snd q)) \<and> blocks_apart m"
  by (simp add: blocks_apart_def)

lemma set_om_emplace_subset: "set (om_emplace k v m) \<subseteq> insert (k, v) (set m)"
  by (induction m) auto

lemma blocks_apart_emplace:
  assumes "blocks_apart m" "\<forall>p\<in>set m. block_ok H p" "block_ok H (k, b)"
    and "\<forall>p\<in>set m. br_payload_end (snd p) \<le> br_header b \<or> br_payload_end b \<le> br_header (snd p)"
  shows "blocks_apart (om_emplace k b m)"
  using assms
proof (induction m)
  case (Cons p m)
  have before: "fst p < k" if "br_payload_end (snd p) \<le> br_header b"
    using block_ok_chain(1) [of H p "(k, b)"] Cons.prems that by simp
  have after: "k < fst p" if "br_payload_end b \<le> br_header (snd p)"
    using block_ok_chain(1) [of H "(k, b)" p] Cons.prems that by simp
  have bounds: "br_header (snd p) < br_payload_end (snd p)"
    using block_ok_bounds [of H p] Cons.prems by auto
  show ?case
  proof (cases "br_payload_end (snd p) \<le> br_header b")
    case True
    then have "om_emplace k b (p # m) = p # om_emplace k b m" using before by auto
    moreover have "\<forall>q\<in>set (om_emplace k b m). br_payload_end (snd p) \<le> br_header (snd q)"
      using set_om_emplace_subset [of k b m] Cons.prems True by (auto simp: blocks_apart_Cons)
    ultimately show ?thesis using Cons by (simp add: blocks_apart_Cons)
  next
    case False
    then have le: "br_payload_end b \<le> br_header (snd p)" using Cons.prems by auto
    then have "om_emplace k b (p # m) = (k, b) # p # m" using after by simp
    moreover have "br_payload_end b \<le> br_header (snd q)" if "q \<in> set m" for q
      using that Cons.prems(1) le bounds
      by (meson blocks_apart_Cons less_imp_le order_trans)
    ultimately show ?thesis using Cons.prems(1) le by (simp add: blocks_apart_Cons)
  qed
qed (simp add: blocks_apart_def)

lemma sum_list_om_emplace:
  fixes f :: "'k::linorder \<times> 'v \<Rightarrow> nat"
  assumes "k \<notin> fst ` set m"
  shows "(\<Sum>p\<leftarrow>om_emplace k v m. f p) = f (k, v) + (\<Sum>p\<leftarrow>m. f p)"
  using assms by (induction m) auto

lemma unat_ucast_small:
  "unat (x :: u64) \<le> 65535 \<Longrightarrow> unat (ucast (ucast x :: u16) :: u64) = unat x \<and> unat (ucast x :: u16) = unat x"
  by (simp add: unsigned_ucast_eq unsigned_take_bit_eq take_bit_nat_def)

lemma normalize_alignment_pow2:
  assumes "has_single_bit al"
  shows "has_single_bit (normalize_alignment al)" "unat al dvd unat (normalize_alignment al)"
proof -
  from assms obtain k where k: "k < 64" "al = 2 ^ k" by (auto simp: has_single_bit_iff)
  have u: "unat al = 2 ^ k" using k by (simp add: unat_pow2)
  have n: "normalize_alignment al = (if k \<le> 4 then 2 ^ 4 else al)"
  proof (cases "k \<le> 4")
    case True
    then have "(2::nat) ^ k \<le> 2 ^ 4" by (intro power_increasing) simp_all
    then have "unat al \<le> 16" using u by simp
    then have "al \<le> 16" by (simp add: word_le_nat_alt)
    then show ?thesis using True by (simp add: normalize_alignment_def max_def)
  next
    case False
    then have "(2::nat) ^ 4 \<le> 2 ^ k" by (intro power_increasing) simp_all
    then have "16 \<le> al" using u by (simp add: word_le_nat_alt)
    then show ?thesis using False by (auto simp: normalize_alignment_def max_def)
  qed
  show "has_single_bit (normalize_alignment al)"
    using n k by (auto simp: has_single_bit_iff intro: exI [of _ 4])
  show "unat al dvd unat (normalize_alignment al)"
    using n u unat_pow2 [of 4] by (auto simp: le_imp_power_dvd simp del: power_numeral)
qed

section \<open>A fresh block\<close>

text \<open>A region of \<open>off + n\<close> bytes at \<open>raw\<close> that overlaps no region in use.\<close>

definition fits :: "gc_state \<Rightarrow> addr \<Rightarrow> size_t \<Rightarrow> size_t \<Rightarrow> bool" where
  "fits s raw off n \<longleftrightarrow>
     32 \<le> unat off \<and> unat off \<le> 65535 \<and> n \<noteq> 0 \<and>
     unat raw + unat off + unat n \<le> 2 ^ 63 \<and>
     list_all (\<lambda>r. unat (fst r) + unat (snd r) \<le> unat raw \<or>
       unat raw + unat off + unat n \<le> unat (fst r)) (gc_regions s)"

lemma fits_apart:
  assumes "heap_inv s" "fits s raw off n" "p \<in> set (gc_allocations s)"
  shows "unat (br_payload_end (snd p)) \<le> unat raw \<or>
    unat raw + unat off + unat n \<le> unat (br_header (snd p))"
proof -
  have ok: "block_ok (gc_headers s) p" using assms(1,3) by (simp add: heap_inv_def index_inv_block_ok)
  have "(br_header (snd p), block_allocation_size (header_of s (snd p))) \<in> set (gc_regions s)"
    using assms(1,3) by (auto simp: heap_inv_def regions_ok_def list_all_iff)
  with assms(2) show ?thesis
    unfolding fits_def list_all_iff by (metis block_region [OF ok] fst_conv snd_conv)
qed

lemma fits_header:
  assumes "heap_inv s" "fits s raw off n" "p \<in> set (gc_allocations s)"
  shows "br_header (snd p) \<noteq> raw"
proof
  assume eq: "br_header (snd p) = raw"
  have "br_header (snd p) < br_payload_end (snd p)"
    using assms(1,3) block_ok_bounds [of "gc_headers s" p]
    by (meson heap_inv_def index_inv_block_ok order_less_trans)
  with fits_apart [OF assms] eq assms(2) show False
    by (auto simp: word_less_nat_alt fits_def)
qed

text \<open>Headers of unregistered blocks, new regions, memory and statistics do not matter.\<close>

lemma heap_inv_extend:
  assumes "heap_inv s" "gc_allocations t = gc_allocations s"
    and "\<And>p. p \<in> set (gc_allocations s) \<Longrightarrow> gc_headers t (br_header (snd p)) = gc_headers s (br_header (snd p))"
    and "set (gc_regions s) \<subseteq> set (gc_regions t)"
    and "gc_managed_bytes t = gc_managed_bytes s" "gc_reserved_bytes t = gc_reserved_bytes s"
  shows "heap_inv t"
proof -
  have hd: "header_of t (snd p) = header_of s (snd p)" if "p \<in> set (gc_allocations s)" for p
    using assms(3) that by (simp add: header_of_def)
  have "index_inv t = index_inv s"
    using hd by (intro index_inv_cong) (auto simp: assms(2) blocks_def)
  moreover have "(\<Sum>p\<leftarrow>gc_allocations s. unat (ch_size (header_of t (snd p)))) =
      (\<Sum>p\<leftarrow>gc_allocations s. unat (ch_size (header_of s (snd p))))"
    "(\<Sum>p\<leftarrow>gc_allocations s. unat (block_allocation_size (header_of t (snd p)))) =
      (\<Sum>p\<leftarrow>gc_allocations s. unat (block_allocation_size (header_of s (snd p))))"
    by (simp_all add: hd cong: sum_list_cong)
  ultimately have "index_inv t" "accounting t"
    using assms by (simp_all add: heap_inv_def accounting_def)
  moreover have "regions_ok t"
    using assms hd by (auto simp: heap_inv_def regions_ok_def list_all_iff)
  ultimately show ?thesis by (simp add: heap_inv_def)
qed

definition block_at :: "addr \<Rightarrow> size_t \<Rightarrow> size_t \<Rightarrow> bool \<Rightarrow> BlockRecord" where
  "block_at raw off n c =
     \<lparr>br_header = raw, br_payload_begin = raw + off, br_payload_end = raw + off + n,
      br_constructing = c\<rparr>"

text \<open>A region with an initialised header that is not registered yet.\<close>

definition raw_block :: "gc_state \<Rightarrow> addr \<Rightarrow> size_t \<Rightarrow> size_t \<Rightarrow> bool" where
  "raw_block s raw off n \<longleftrightarrow>
     (let h = gc_headers s raw in
      ch_size h = n \<and> ch_payload_offset h = ucast off \<and> ch_magic_number h = kChunkMagicNumber) \<and>
     32 \<le> unat off \<and> unat off \<le> 65535 \<and> n \<noteq> 0 \<and> unat raw + unat off + unat n \<le> 2 ^ 63 \<and>
     (raw, off + n) \<in> set (gc_regions s) \<and>
     (\<forall>p\<in>set (gc_allocations s). unat (br_payload_end (snd p)) \<le> unat raw \<or>
        unat raw + unat off + unat n \<le> unat (br_header (snd p)))"

lemma ucast_offset: "unat (off :: u64) \<le> 65535 \<Longrightarrow> (ucast (ucast off :: u16) :: u64) = off"
  by (simp add: word_unat_eq_iff unat_ucast_small)

lemma raw_block_arith:
  assumes "raw_block s raw off n"
  shows "unat (raw + off) = unat raw + unat off" "unat (raw + off + n) = unat raw + unat off + unat n"
    "unat (off + n) = unat off + unat n" "payload_begin raw s = raw + off"
    "payload_pointer raw s = raw + off" "block_allocation_size (gc_headers s raw) = off + n"
    "ch_size (gc_headers s raw) = n"
proof -
  have b: "unat raw + unat off + unat n \<le> 2 ^ 63" "unat off \<le> 65535"
    using assms by (simp_all add: raw_block_def)
  show *: "unat (raw + off) = unat raw + unat off" "unat (off + n) = unat off + unat n"
    using b by (simp_all add: unat_word_ariths)
  show "unat (raw + off + n) = unat raw + unat off + unat n"
    using b unat_add_no_overflow [of "raw + off" n] by (simp add: add_would_overflow_iff *)
qed (use assms in \<open>simp_all add: raw_block_def Let_def payload_begin_def payload_pointer_def
       block_allocation_size_def ucast_offset\<close>)

lemma raw_block_ok:
  assumes "raw_block s raw off n"
  shows "block_ok (gc_headers s) (raw + off, block_at raw off n c)"
  using assms raw_block_arith [OF assms] unat_ucast_small [of off]
  by (simp add: block_ok_def block_at_def Let_def raw_block_def)

lemma raw_block_apart:
  assumes "raw_block s raw off n" "p \<in> set (gc_allocations s)"
  shows "br_payload_end (snd p) \<le> br_header (block_at raw off n c) \<or>
    br_payload_end (block_at raw off n c) \<le> br_header (snd p)"
  using assms raw_block_arith(2) [OF assms(1)]
  by (auto simp: raw_block_def block_at_def word_le_nat_alt)

lemma raw_block_key:
  assumes "index_inv s" "raw_block s raw off n"
  shows "raw + off \<notin> fst ` set (gc_allocations s)"
proof
  assume "raw + off \<in> fst ` set (gc_allocations s)"
  then obtain p where p: "p \<in> set (gc_allocations s)" "fst p = raw + off" by auto
  have ok: "block_ok (gc_headers s) p" using assms(1) p by (simp add: index_inv_block_ok)
  note new = raw_block_ok [OF assms(2), of False]
  from raw_block_apart [OF assms(2) p(1), of False] p(2) show False
    using block_ok_chain(1) [OF ok new] block_ok_chain(1) [OF new ok] by auto
qed

text \<open>Threads, flags and events are as before.\<close>

definition same_control :: "gc_state \<Rightarrow> gc_state \<Rightarrow> bool" where
  "same_control s t \<longleftrightarrow>
     gc_threads t = gc_threads s \<and> gc_collector_thread t = gc_collector_thread s \<and>
     gc_stop_the_world_requested t = gc_stop_the_world_requested s \<and>
     gc_collecting t = gc_collecting s \<and> gc_events t = gc_events s"

lemma same_control_can_collect: "same_control s t \<Longrightarrow> can_collect c s \<Longrightarrow> can_collect c t"
  by (simp add: same_control_def can_collect_def may_proceed_def thread_registered_def
      find_thread_state_locked_def others_paused_def)

lemma same_control_trans: "same_control s t \<Longrightarrow> same_control t u \<Longrightarrow> same_control s u"
  by (simp add: same_control_def)

definition registered_state :: "addr \<Rightarrow> size_t \<Rightarrow> size_t \<Rightarrow> bool \<Rightarrow> gc_state \<Rightarrow> gc_state \<Rightarrow> bool" where
  "registered_state raw off n c s t \<longleftrightarrow>
     gc_allocations t = om_emplace (raw + off) (block_at raw off n c) (gc_allocations s) \<and>
     gc_headers t = gc_headers s \<and> gc_regions t = gc_regions s \<and>
     gc_managed_bytes t = gc_managed_bytes s + n \<and>
     gc_reserved_bytes t = gc_reserved_bytes s + (off + n) \<and> gc_weak_refs t = gc_weak_refs s \<and>
     gc_root_ranges t = gc_root_ranges s \<and>
     gc_collection_threshold_bytes t = gc_collection_threshold_bytes s \<and> same_control s t"

lemma registered_inv:
  assumes inv: "heap_inv s" and raw: "raw_block s raw off n"
    and ov: "\<not> add_would_overflow (gc_managed_bytes s) n" "\<not> add_would_overflow (gc_reserved_bytes s) (off + n)"
    and t: "registered_state raw off n c s t"
  shows "heap_inv t"
proof -
  let ?b = "block_at raw off n c" and ?m = "gc_allocations s"
  have i: "index_inv s" using inv by (simp add: heap_inv_def)
  have al: "gc_allocations t = om_emplace (raw + off) ?b ?m"
    and hd: "gc_headers t = gc_headers s" "header_of t = header_of s"
    using t by (simp_all add: registered_state_def header_of_def fun_eq_iff)
  have sub: "set (gc_allocations t) \<subseteq> insert (raw + off, ?b) (set ?m)"
    unfolding al by (rule set_om_emplace_subset)
  have ok: "\<forall>p\<in>set ?m. block_ok (gc_headers s) p" using i by (simp add: index_inv_block_ok)
  note new = raw_block_ok [OF raw, of c]
  have "blocks_apart (gc_allocations t)"
    unfolding al using i ok new raw_block_apart [OF raw]
    by (intro blocks_apart_emplace) (auto simp: index_inv_def)
  then have "index_inv t" using sub ok new by (auto simp: index_inv_def list_all_iff hd)
  moreover have "header_of s ?b = gc_headers s raw" by (simp add: header_of_def block_at_def)
  then have "accounting t"
    using inv t raw_block_key [OF i raw] raw_block_arith(6,7) [OF raw] ov
    by (simp add: heap_inv_def accounting_def registered_state_def hd sum_list_om_emplace
        unat_add_no_overflow)
  moreover have "regions_ok t"
    using inv t sub raw raw_block_arith(6) [OF raw]
    by (auto simp: heap_inv_def regions_ok_def list_all_iff registered_state_def raw_block_def hd
        header_of_def block_at_def dest!: subsetD)
  ultimately show ?thesis by (simp add: heap_inv_def)
qed

section \<open>Publishing\<close>

lemma om_adjust_other: "k \<notin> fst ` set m \<Longrightarrow> om_adjust k f m = m"
  by (induction m) (auto simp: om_adjust_def)

lemma om_adjust_emplace:
  "k \<notin> fst ` set m \<Longrightarrow> om_adjust k f (om_emplace k v m) = om_emplace k (f v) m"
proof (induction m)
  case (Cons p m)
  then show ?case using om_adjust_other [of k m f] by (auto simp: om_adjust_def)
qed (simp add: om_adjust_def)

text \<open>The code of \<open>publish_block\<close> after its handshake.\<close>

lemma publish_body_cases:
  assumes i: "index_inv s" and raw: "raw_block s raw off n"
    and body: "m = (if add_would_overflow (gc_managed_bytes s) n \<or> add_would_overflow (gc_reserved_bytes s) (off + n)
       then (Throw Bad_Alloc, s)
       else
         let s = s\<lparr>gc_mem := memset_zero (gc_mem s) (payload_pointer raw s) n\<rparr>
         in bindp (register_block_locked env raw s) (\<lambda>_ s.
              (Return (), s\<lparr>gc_allocations := om_adjust (payload_begin raw s)
                 (\<lambda>b. b\<lparr>br_constructing := constructing\<rparr>) (gc_allocations s)\<rparr>)))"
  obtains (throws) x where "m = (Throw Bad_Alloc, s\<lparr>gc_mem := x\<rparr>)"
    | (returns) t where "m = (Return (), t)"
      "registered_state raw off n constructing s t"
      "gc_mem t = memset_zero (gc_mem s) (raw + off) n"
      "\<not> add_would_overflow (gc_managed_bytes s) n"
      "\<not> add_would_overflow (gc_reserved_bytes s) (off + n)"
proof -
  note ar = raw_block_arith [OF raw]
  let ?ov = "add_would_overflow (gc_managed_bytes s) n \<or> add_would_overflow (gc_reserved_bytes s) (off + n)"
  let ?m = "memset_zero (gc_mem s) (raw + off) n"
  let ?t = "add_block raw (s\<lparr>gc_mem := ?m\<rparr>)"
  let ?u = "?t\<lparr>gc_allocations := om_adjust (payload_begin raw ?t)
    (\<lambda>b. b\<lparr>br_constructing := constructing\<rparr>) (gc_allocations ?t)\<rparr>"
  have pb: "payload_begin raw (s\<lparr>gc_mem := ?m\<rparr>) = raw + off" "payload_begin raw ?t = raw + off"
    using ar(4) by (simp_all add: payload_begin_def add_block_def Let_def)
  show ?thesis
  proof (cases "?ov \<or> e_alloc_fails env Allocations_Node")
    case True
    then have "\<exists>x. m = (Throw Bad_Alloc, s\<lparr>gc_mem := x\<rparr>)"
      by (cases ?ov) (use ar(5) in \<open>auto simp: body register_block_locked_def
            Let_def intro: exI [of _ "gc_mem s"]\<close>)
    with throws show ?thesis by blast
  next
    case False
    then have "m = (Return (), ?u)"
      using ar(5) by (simp add: body register_block_locked_def Let_def)
    moreover have "registered_state raw off n constructing s ?u"
      unfolding registered_state_def pb(2) using raw_block_key [OF i raw] ar(6,7) pb(1)
      by (simp add: add_block_def Let_def om_adjust_emplace block_at_def same_control_def)
    moreover have "gc_mem ?u = ?m" by (simp add: add_block_def Let_def)
    ultimately show ?thesis using False returns by blast
  qed
qed

lemma publish_cases:
  assumes run: "may_proceed c s" "thread_registered c s"
    and i: "index_inv s" and raw: "raw_block s raw off n"
  obtains (throws) m where
      "run (publish_block env c raw n (off + n) constructing s) = (Threw Bad_Alloc, s\<lparr>gc_mem := m\<rparr>)"
    | (returns) t where
      "run (publish_block env c raw n (off + n) constructing s) = (Done (), t)"
      "registered_state raw off n constructing s t"
      "gc_mem t = memset_zero (gc_mem s) (raw + off) n"
      "\<not> add_would_overflow (gc_managed_bytes s) n"
      "\<not> add_would_overflow (gc_reserved_bytes s) (off + n)"
proof -
  define m where "m = (if add_would_overflow (gc_managed_bytes s) n \<or> add_would_overflow (gc_reserved_bytes s) (off + n)
       then (Throw Bad_Alloc, s)
       else
         let s = s\<lparr>gc_mem := memset_zero (gc_mem s) (payload_pointer raw s) n\<rparr>
         in bindp (register_block_locked env raw s) (\<lambda>_ s.
              (Return (), s\<lparr>gc_allocations := om_adjust (payload_begin raw s)
                 (\<lambda>b. b\<lparr>br_constructing := constructing\<rparr>) (gc_allocations s)\<rparr>)))"
  then have r: "run (publish_block env c raw n (off + n) constructing s) = run m"
    using run by (simp add: publish_block_def run_bindp run_enter run_require)
  from publish_body_cases [OF i raw m_def] show ?thesis
    using that by cases (simp_all add: r run_leaf)
qed

section \<open>Allocation, run alone\<close>

text \<open>A state in which the second critical section starts: none or one collection later.\<close>

definition maybe_collected :: "gc_env \<Rightarrow> tid \<Rightarrow> gc_state \<Rightarrow> gc_state \<Rightarrow> bool" where
  "maybe_collected env c s u \<longleftrightarrow> u = s \<or> (\<exists>hs. collected env c s hs u)"

lemma maybe_collected_ready:
  assumes "heap_inv s" "can_collect c s" "maybe_collected env c s u"
  shows "heap_inv u" "may_proceed c u" "thread_registered c u" "set (gc_regions u) \<subseteq> set (gc_regions s)"
    "can_collect c u"
  using assms
  by (auto simp: maybe_collected_def collected_def can_collect_def may_proceed_def
      thread_registered_def find_thread_state_locked_def others_paused_def)

lemma maybe_collected_keeps:
  assumes "maybe_collected env c s u"
  shows "blocks u = blocks s \<or> blocks u = reachable env c s \<inter> blocks s"
  using assms by (auto simp: maybe_collected_def collected_def blocks_def)

lemma allocate_raw_cases:
  assumes inv: "heap_inv s" and can: "can_collect c s" and fin: "finalizers_return env"
  obtains (throws) t where "run (allocate_raw env c n al s) = (Threw Bad_Alloc, t)"
      "heap_inv t" "set (gc_regions t) \<subseteq> set (gc_regions s)"
      "maybe_collected env c s t \<or> uncollected s t"
    | (returns) raw u where "run (allocate_raw env c n al s) = (Done raw, u\<lparr>gc_regions := (raw, n) # gc_regions u\<rparr>)"
      "maybe_collected env c s u" "e_op_new env u n al = Some raw" "e_op_new env s n al \<noteq> None \<longrightarrow> u = s"
proof (cases "e_op_new env s n al")
  case (Some raw)
  then show ?thesis
    by (intro returns [of raw s]) (simp_all add: allocate_raw_def operator_new_def prog_simps maybe_collected_def)
next
  case None
  from inv can fin show ?thesis
  proof (cases rule: collect_cases)
    case (throws t)
    then show ?thesis
      using None uncollected_inv [OF throws(2) inv] marks_only_sel [OF throws(2) [unfolded uncollected_def]]
      by (intro that(1) [of t]) (simp_all add: allocate_raw_def operator_new_def prog_simps)
  next
    case u: (returns hs u)
    then have mc: "maybe_collected env c s u" by (auto simp: maybe_collected_def)
    show ?thesis
    proof (cases "e_op_new env u n al")
      case None': None
      show ?thesis
        using None None' u(1) mc maybe_collected_ready [OF inv can mc]
        by (intro that(1) [of u]) (simp_all add: allocate_raw_def operator_new_def prog_simps)
    next
      case (Some raw)
      then show ?thesis
        using None u(1) mc
        by (intro that(2) [of raw u]) (simp_all add: allocate_raw_def operator_new_def prog_simps)
    qed
  qed
qed

text \<open>The state after the header is written, before the block is registered.\<close>

definition header_written ::
    "addr \<Rightarrow> size_t \<Rightarrow> size_t \<Rightarrow> DestructorFn option \<Rightarrow> size_t \<Rightarrow> gc_state \<Rightarrow> gc_state" where
  "header_written raw off n d al u = init_header raw n d off al (u\<lparr>gc_regions := (raw, off + n) # gc_regions u\<rparr>)"

lemma header_written_sel [simp]:
  "gc_allocations (header_written raw off n d al u) = gc_allocations u"
  "gc_threads (header_written raw off n d al u) = gc_threads u"
  "gc_mem (header_written raw off n d al u) = gc_mem u"
  "gc_regions (header_written raw off n d al u) = (raw, off + n) # gc_regions u"
  "gc_managed_bytes (header_written raw off n d al u) = gc_managed_bytes u"
  "gc_reserved_bytes (header_written raw off n d al u) = gc_reserved_bytes u"
  "gc_stop_the_world_requested (header_written raw off n d al u) = gc_stop_the_world_requested u"
  "gc_collector_thread (header_written raw off n d al u) = gc_collector_thread u"
  "gc_collecting (header_written raw off n d al u) = gc_collecting u"
  "gc_events (header_written raw off n d al u) = gc_events u"
  "gc_root_ranges (header_written raw off n d al u) = gc_root_ranges u"
  "gc_weak_refs (header_written raw off n d al u) = gc_weak_refs u"
  "gc_collection_threshold_bytes (header_written raw off n d al u) = gc_collection_threshold_bytes u"
  by (simp_all add: header_written_def init_header_def Let_def)

lemma header_written_header:
  "gc_headers (header_written raw off n d al u) a =
     (if a = raw then set_allocation_alignment al (set_marked False
        (new_ChunkHeader\<lparr>ch_size := n, ch_destructor := d, ch_magic_number := kChunkMagicNumber,
           ch_payload_offset := ucast off\<rparr>)) else gc_headers u a)"
  by (simp add: header_written_def init_header_def Let_def)

lemma header_written_inv:
  assumes "heap_inv u" "fits u raw off n"
  shows "heap_inv (header_written raw off n d al u)"
  using assms(1) by (rule heap_inv_extend) (auto simp: header_written_header fits_header [OF assms])

lemma header_written_raw:
  assumes "heap_inv u" "fits u raw off n"
  shows "raw_block (header_written raw off n d al u) raw off n"
  using assms fits_apart [OF assms]
  by (simp add: raw_block_def header_written_header Let_def set_allocation_alignment_def fits_def)

lemma op_new_fits:
  assumes "op_new_ok env" "e_op_new env u (off + n) al = Some raw"
    and "32 \<le> unat off" "unat off \<le> 65535" "n \<noteq> 0" "\<not> add_would_overflow off n"
  shows "fits u raw off n" "unat al dvd unat raw"
proof -
  have "unat al dvd unat raw \<and> unat raw + unat (off + n) \<le> 2 ^ 63 \<and> region_free (gc_regions u) raw (off + n)"
    using assms(1,2) by (simp add: op_new_ok_def)
  then show "fits u raw off n" "unat al dvd unat raw"
    using assms(3-) by (simp_all add: fits_def region_free_def unat_add_no_overflow add.assoc)
qed

lemma release_after_failure:
  assumes "heap_inv u" "fits u raw off n"
  shows "heap_inv (free_block_memory raw (header_written raw off n d al u\<lparr>gc_mem := m\<rparr>))"
proof -
  let ?s = "header_written raw off n d al u\<lparr>gc_mem := m\<rparr>"
  have "heap_inv ?s" using header_written_inv [OF assms] heap_inv_tables [of ?s] by simp
  moreover have "\<forall>p\<in>set (gc_allocations ?s). br_header (snd p) \<notin> set [raw]"
    using fits_header [OF assms] by simp
  ultimately have "heap_inv (?s\<lparr>gc_regions := filter (\<lambda>r. fst r \<notin> set [raw]) (gc_regions ?s),
      gc_events := gc_events ?s @ [Freed raw (allocation_alignment (gc_headers ?s raw))]\<rparr>)"
    by (rule heap_inv_free)
  then show ?thesis by (simp add: free_block_memory_def)
qed

text \<open>What a successful allocation has done, from the state \<open>u\<close> in which memory was found.\<close>

definition allocated ::
    "gc_state \<Rightarrow> addr \<Rightarrow> size_t \<Rightarrow> size_t \<Rightarrow> DestructorFn option \<Rightarrow> size_t \<Rightarrow> bool \<Rightarrow> gc_state \<Rightarrow> bool" where
  "allocated u raw off n d al constructing t \<longleftrightarrow>
     heap_inv t \<and> fits u raw off n \<and>
     gc_allocations t = om_emplace (raw + off) (block_at raw off n constructing) (gc_allocations u) \<and>
     gc_headers t = gc_headers (header_written raw off n d al u) \<and>
     gc_mem t = memset_zero (gc_mem u) (raw + off) n \<and>
     gc_regions t = (raw, off + n) # gc_regions u \<and> gc_weak_refs t = gc_weak_refs u \<and>
     gc_root_ranges t = gc_root_ranges u \<and>
     gc_collection_threshold_bytes t = gc_collection_threshold_bytes u \<and> same_control u t"

lemma place_block_cases:
  assumes inv: "heap_inv u" and run: "may_proceed c u" "thread_registered c u" and f: "fits u raw off n"
  obtains (throws) m where
      "run (publish_block env c raw n (off + n) constructing (header_written raw off n d al u)) =
        (Threw Bad_Alloc, header_written raw off n d al u\<lparr>gc_mem := m\<rparr>)"
    | (returns) t where
      "run (publish_block env c raw n (off + n) constructing (header_written raw off n d al u)) = (Done (), t)"
      "allocated u raw off n d al constructing t"
proof -
  let ?s = "header_written raw off n d al u"
  note inv' = header_written_inv [OF inv f, of d al] and raw = header_written_raw [OF inv f, of d al]
  have "may_proceed c ?s" "thread_registered c ?s" "index_inv ?s"
    using run inv' by (simp_all add: may_proceed_def thread_registered_def find_thread_state_locked_def heap_inv_def)
  from this raw show ?thesis
  proof (cases rule: publish_cases [where env = env and constructing = constructing])
    case (throws m)
    then show ?thesis by (rule that(1))
  next
    case (returns t)
    have "heap_inv t" using registered_inv [OF inv' raw] returns by simp
    with returns f show ?thesis
      by (intro that(2) [of t]) (auto simp: allocated_def registered_state_def same_control_def)
  qed
qed

lemma payload_pointer_allocated:
  "allocated u raw off n d al b t \<Longrightarrow> payload_pointer raw t = raw + off"
  by (simp add: allocated_def payload_pointer_def header_written_header set_allocation_alignment_def
      ucast_offset fits_def)

lemma malloc_internal_unfold:
  assumes "n \<noteq> 0" "has_single_bit al" "may_proceed c s" "thread_registered c s"
    and "round_up_to_alignment sizeof_ChunkHeader (normalize_alignment al) = Some off"
    and "\<not> (65535 < off \<or> add_would_overflow off n)"
  shows "run (malloc_internal env c n al d constructing s) =
    bind_outcome (run (allocate_raw env c (off + n) (normalize_alignment al) s)) (\<lambda>raw u.
      bind_outcome (catch_outcome
          (run (publish_block env c raw n (off + n) constructing
            (init_header raw n d off (normalize_alignment al) u)))
          (\<lambda>x t. (Threw x, free_block_memory raw t)))
        (\<lambda>_ t. (Done (payload_pointer raw t), t)))"
  using assms by (simp add: malloc_internal_def prog_simps Let_def)

lemma malloc_internal_refused:
  assumes "may_proceed c s" "thread_registered c s"
    and "n = 0 \<or> \<not> has_single_bit al \<or>
      (case round_up_to_alignment sizeof_ChunkHeader (normalize_alignment al) of
         None \<Rightarrow> True | Some off \<Rightarrow> 65535 < off \<or> add_would_overflow off n)"
  shows "run (malloc_internal env c n al d constructing s) = (Threw Bad_Alloc, s)"
  using assms by (auto simp: malloc_internal_def prog_simps split: option.splits)

lemma malloc_cases:
  assumes inv: "heap_inv s" and can: "can_collect c s" and fin: "finalizers_return env" and new: "op_new_ok env"
  obtains (throws) t where "run (malloc_internal env c n al d constructing s) = (Threw Bad_Alloc, t)"
      "heap_inv t" "set (gc_regions t) \<subseteq> set (gc_regions s)"
    | (returns) raw off u t where
      "run (malloc_internal env c n al d constructing s) = (Done (raw + off), t)"
      "maybe_collected env c s u" "allocated u raw off n d (normalize_alignment al) constructing t"
      "unat (normalize_alignment al) dvd unat raw" "has_single_bit al"
      "round_up_to_alignment sizeof_ChunkHeader (normalize_alignment al) = Some off"
      "e_op_new env s (off + n) (normalize_alignment al) \<noteq> None \<longrightarrow> u = s"
proof -
  let ?al = "normalize_alignment al"
  have run: "may_proceed c s" "thread_registered c s" using can by (simp_all add: can_collect_def)
  show ?thesis
  proof (cases "n = 0 \<or> \<not> has_single_bit al \<or> (case round_up_to_alignment sizeof_ChunkHeader ?al of
      None \<Rightarrow> True | Some off \<Rightarrow> 65535 < off \<or> add_would_overflow off n)")
    case True
    show ?thesis using malloc_internal_refused [OF run True] inv by (rule that(1)) (rule subset_refl)
  next
    case False
    then obtain off where off: "round_up_to_alignment sizeof_ChunkHeader ?al = Some off"
      "\<not> (65535 < off \<or> add_would_overflow off n)" "n \<noteq> 0" "has_single_bit al"
      by (auto split: option.splits)
    have b: "32 \<le> unat off" "unat off \<le> 65535"
      using round_up_to_alignment_Some(2) [OF off(1)] off(2) by (simp_all add: word_less_nat_alt)
    note m = malloc_internal_unfold [OF off(3,4) run off(1,2), of env d constructing]
    from inv can fin show ?thesis
    proof (cases rule: allocate_raw_cases [where n = "off + n" and al = ?al])
      case (throws t)
      then show ?thesis by (intro that(1) [of t]) (simp_all add: m)
    next
      case r: (returns raw u)
      note ready = maybe_collected_ready [OF inv can r(2)]
      have f: "fits u raw off n" "unat ?al dvd unat raw"
        using op_new_fits [OF new r(3) b off(3)] off(2) by auto
      have h: "init_header raw n d off ?al (u\<lparr>gc_regions := (raw, off + n) # gc_regions u\<rparr>) =
          header_written raw off n d ?al u" by (simp add: header_written_def)
      from ready(1-3) f(1) show ?thesis
      proof (cases rule: place_block_cases [where env = env and constructing = constructing and d = d and al = ?al])
        case (throws x)
        show ?thesis
          using throws release_after_failure [OF ready(1) f(1)] ready(4)
          by (intro that(1) [of "free_block_memory raw (header_written raw off n d ?al u\<lparr>gc_mem := x\<rparr>)"])
            (auto simp: m r(1) h free_block_memory_def)
      next
        case (returns t)
        then show ?thesis
          by (intro that(2) [OF _ r(2) returns(2) f(2) off(4,1) r(4)])
            (simp add: m r(1) h payload_pointer_allocated [OF returns(2)])
      qed
    qed
  qed
qed

section \<open>Completed and abandoned construction\<close>

lemma om_adjust_conv: "om_adjust k f m = map (\<lambda>p. (fst p, if fst p = k then f (snd p) else snd p)) m"
  by (simp add: om_adjust_def)

lemma heap_inv_constructing:
  "heap_inv s \<Longrightarrow>
   heap_inv (s\<lparr>gc_allocations := om_adjust k (\<lambda>b. b\<lparr>br_constructing := c\<rparr>) (gc_allocations s)\<rparr>)"
proof -
  assume inv: "heap_inv s"
  let ?f = "\<lambda>p. (fst p, if fst p = k then (snd p)\<lparr>br_constructing := c\<rparr> else snd p)"
  let ?t = "s\<lparr>gc_allocations := map ?f (gc_allocations s)\<rparr>"
  have br: "br_header (snd (?f p)) = br_header (snd p)" "br_payload_end (snd (?f p)) = br_payload_end (snd p)"
    "br_payload_begin (snd (?f p)) = br_payload_begin (snd p)" "header_of ?t (snd (?f p)) = header_of s (snd p)" for p
    by (simp_all add: header_of_def)
  have "block_ok (gc_headers s) (?f p) = block_ok (gc_headers s) p" for p
    by (simp only: block_ok_def Let_def br fst_conv)
  then have "index_inv ?t"
    using inv by (simp add: heap_inv_def index_inv_def blocks_apart_def list.pred_map comp_def
        sorted_wrt_map list_all_iff br del: snd_conv)
  moreover have "accounting ?t"
    using inv by (simp add: heap_inv_def accounting_def comp_def br del: snd_conv)
  moreover have "regions_ok ?t"
    using inv by (simp add: heap_inv_def regions_ok_def list.pred_map comp_def br del: snd_conv)
  ultimately show ?thesis by (simp add: heap_inv_def om_adjust_conv)
qed

lemma finish_construction_result:
  assumes "may_proceed c s"
  shows "run (finish_construction env c p s) =
    (case om_find p (gc_allocations s) of
       None \<Rightarrow> (Threw (Logic_Error Unknown_Allocation), s)
     | Some _ \<Rightarrow> (Done (), s\<lparr>gc_allocations :=
         om_adjust p (\<lambda>b. b\<lparr>br_constructing := False\<rparr>) (gc_allocations s)\<rparr>))"
  using assms by (simp add: finish_construction_def prog_simps split: option.split)

lemma filter_key:
  assumes "om_wf m" "om_find k m = Some b"
  shows "filter (\<lambda>p. fst p = k) m = [(k, b)]"
  using assms
proof (induction m)
  case (Cons p m)
  then have m: "om_wf m" "\<forall>q\<in>set m. fst p < fst q" by (auto simp: om_wf_def)
  then have "fst p = k \<Longrightarrow> filter (\<lambda>q. fst q = k) m = []" by (auto simp: filter_empty_conv)
  with Cons m show ?case by (cases p) (auto simp: om_find_def)
qed (simp add: om_find_def)

text \<open>The state after a block is taken out of the map.\<close>

definition unlinked :: "addr \<Rightarrow> BlockRecord \<Rightarrow> gc_state \<Rightarrow> gc_state" where
  "unlinked k b s =
     (invalidate_weak_refs_for_block_locked (br_payload_begin b) (br_payload_end b)
       (s\<lparr>gc_managed_bytes := gc_managed_bytes s - ch_size (header_of s b),
          gc_reserved_bytes := gc_reserved_bytes s - block_allocation_size (header_of s b)\<rparr>))
       \<lparr>gc_allocations := om_erase k (gc_allocations s)\<rparr>"

lemma unlinked_sel [simp]:
  "gc_headers (unlinked k b s) = gc_headers s" "gc_regions (unlinked k b s) = gc_regions s"
  "gc_allocations (unlinked k b s) = om_erase k (gc_allocations s)"
  "gc_events (unlinked k b s) = gc_events s"
  by (simp_all add: unlinked_def invalidate_weak_refs_for_block_locked_def)

lemma unlinked_inv:
  assumes inv: "heap_inv s" and b: "om_find k (gc_allocations s) = Some b"
  shows "heap_inv (unlinked k b s)"
proof -
  let ?m = "gc_allocations s" and ?t = "unlinked k b s"
  have i: "index_inv s" using inv by (simp add: heap_inv_def)
  have hd: "header_of ?t = header_of s" by (simp add: header_of_def fun_eq_iff)
  have one: "filter (\<lambda>p. \<not> fst p \<noteq> k) ?m = [(k, b)]"
    using filter_key [OF index_inv_om_wf [OF i] b] by simp
  have "index_inv ?t"
    using index_inv_filter [OF i, of "\<lambda>p. fst p \<noteq> k"]
    by (simp add: index_inv_def om_erase_def)
  moreover have "unat (gc_managed_bytes s) = (\<Sum>p\<leftarrow>?m. unat (ch_size (header_of s (snd p))))"
    "unat (gc_reserved_bytes s) = (\<Sum>p\<leftarrow>?m. unat (block_allocation_size (header_of s (snd p))))"
    using inv by (simp_all add: heap_inv_def accounting_def)
  from this [THEN unat_counter_split, where P = "\<lambda>p. fst p \<noteq> k", unfolded one]
  have "accounting ?t"
    unfolding accounting_def hd
    by (simp add: unlinked_def om_erase_def invalidate_weak_refs_for_block_locked_def)
  moreover have "regions_ok ?t"
    using inv by (auto simp: heap_inv_def regions_ok_def hd om_erase_def list_all_iff)
  ultimately show ?thesis by (simp add: heap_inv_def)
qed

lemma release_unconstructed_result:
  assumes "may_proceed c s" "thread_registered c s" "p \<noteq> 0"
  shows "run (release_unconstructed env c p s) =
    (case om_find p (gc_allocations s) of
       None \<Rightarrow> (Done (), s)
     | Some b \<Rightarrow> (Done (), free_block_memory (br_header b) (unlinked p b s)))"
  using assms
  by (simp add: release_unconstructed_def prog_simps Let_def unlinked_def header_of_def
      invalidate_weak_refs_for_block_locked_def split: option.split)

lemma release_unconstructed_inv:
  assumes inv: "heap_inv s" and b: "om_find p (gc_allocations s) = Some b"
  shows "heap_inv (free_block_memory (br_header b) (unlinked p b s))"
proof -
  let ?t = "unlinked p b s"
  have i: "index_inv s" using inv by (simp add: heap_inv_def)
  have pb: "(p, b) \<in> set (gc_allocations s)" using b om_find_mem [OF index_inv_om_wf [OF i]] by blast
  have "\<forall>q\<in>set (gc_allocations ?t). br_header (snd q) \<notin> set [br_header b]"
    using index_inv_header_inj [OF i pb] by (auto simp: om_erase_def)
  from heap_inv_free [OF unlinked_inv [OF inv b] this] show ?thesis
    by (simp add: free_block_memory_def)
qed

section \<open>What an allocation gives\<close>

lemma allocated_blocks:
  assumes "heap_inv u" "allocated u raw off n d al c t"
  shows "blocks t = insert (block_at raw off n c) (blocks u)" "block_at raw off n c \<notin> blocks u"
    "\<forall>b\<in>blocks u. br_payload_end b \<le> br_header (block_at raw off n c) \<or>
      br_payload_end (block_at raw off n c) \<le> br_header b"
    "unat (raw + off) = unat raw + unat off"
    "unat (br_payload_end (block_at raw off n c)) = unat (raw + off) + unat n"
proof -
  let ?b = "block_at raw off n c"
  have f: "fits u raw off n" and al: "gc_allocations t = om_emplace (raw + off) ?b (gc_allocations u)"
    using assms(2) by (simp_all add: allocated_def)
  have i: "index_inv u" using assms(1) by (simp add: heap_inv_def)
  note raw = header_written_raw [OF assms(1) f, of d al]
  have "raw + off \<notin> fst ` set (gc_allocations u)"
    using raw_block_key [OF _ raw] header_written_inv [OF assms(1) f] by (simp add: heap_inv_def)
  then show "blocks t = insert ?b (blocks u)" "?b \<notin> blocks u"
    using set_om_emplace [OF index_inv_om_wf [OF i]] blocks_iff [OF i, of ?b]
    by (auto simp: al blocks_def block_at_def rev_image_eqI)
  show "\<forall>b\<in>blocks u. br_payload_end b \<le> br_header ?b \<or> br_payload_end ?b \<le> br_header b"
    using raw_block_apart [OF raw, of _ c] by (auto simp: blocks_def)
  show "unat (raw + off) = unat raw + unat off"
    "unat (br_payload_end ?b) = unat (raw + off) + unat n"
    using raw_block_arith(1,2) [OF raw] by (simp_all add: block_at_def)
qed

lemma allocated_header:
  assumes "allocated u raw off n d al c t" "has_single_bit al"
  shows "ch_destructor (header_of t (block_at raw off n c)) = d"
    "allocation_alignment (header_of t (block_at raw off n c)) = al"
  using assms
  by (simp_all add: header_of_def block_at_def allocated_def header_written_header
      allocation_alignment_roundtrip) (simp add: set_allocation_alignment_def)

lemma aligned_payload:
  assumes "has_single_bit al" "unat (normalize_alignment al) dvd unat raw"
    and "round_up_to_alignment sizeof_ChunkHeader (normalize_alignment al) = Some off"
    and "unat (raw + off) = unat raw + unat off"
  shows "unat al dvd unat (raw + off)"
  using normalize_alignment_pow2(2) [OF assms(1)] assms(2,4) round_up_to_alignment_Some(4) [OF assms(3)]
  by (metis dvd_add dvd_trans)

lemma maybe_collected_reachable:
  "maybe_collected env c s u \<Longrightarrow> reachable env c s \<subseteq> blocks u"
  using maybe_collected_keeps [of env c s u] reachable_blocks [of env c s] by auto

lemma malloc_succeeds:
  assumes "may_proceed c s" "thread_registered c s" "\<not> out_of_memory env"
    and "n \<noteq> 0" "has_single_bit al"
    and off: "round_up_to_alignment sizeof_ChunkHeader (normalize_alignment al) = Some off"
      "off \<le> 65535" "\<not> add_would_overflow off n"
    and new: "e_op_new env s (off + n) (normalize_alignment al) = Some raw"
    and "\<not> add_would_overflow (gc_managed_bytes s) n"
      "\<not> add_would_overflow (gc_reserved_bytes s) (off + n)"
  shows "\<exists>t. run (malloc_internal env c n al d constructing s) = (Done (raw + off), t)"
proof -
  let ?s = "header_written raw off n d (normalize_alignment al) s"
  have h: "init_header raw n d off (normalize_alignment al) (s\<lparr>gc_regions := (raw, off + n) # gc_regions s\<rparr>) = ?s"
    by (simp add: header_written_def)
  have mp: "may_proceed c ?s" "thread_registered c ?s"
    using assms(1,2) by (simp_all add: may_proceed_def thread_registered_def find_thread_state_locked_def)
  have "unat off \<le> 65535" using off(2) by (simp add: word_le_nat_alt)
  then have pp: "(ucast (ch_payload_offset (gc_headers ?s raw)) :: u64) = off"
    by (simp add: header_written_header set_allocation_alignment_def ucast_offset)
  have "run (allocate_raw env c (off + n) (normalize_alignment al) s) =
      (Done raw, s\<lparr>gc_regions := (raw, off + n) # gc_regions s\<rparr>)"
    by (simp add: allocate_raw_def operator_new_def prog_simps new)
  moreover have "\<not> (65535 < off \<or> add_would_overflow off n)" using off(2,3) by auto
  ultimately show ?thesis
    using assms(3,10-) mp pp
    by (simp add: malloc_internal_unfold [OF assms(4,5,1,2) off(1)] h publish_block_def prog_simps
        register_block_locked_def out_of_memory_def add_block_def payload_pointer_def Let_def)
qed

text \<open>
  A thread that is not registered is refused by every operation that allocates or collects.
\<close>

lemma unregistered_threads_are_refused:
  assumes "may_proceed c s" "\<not> gc_collecting s" "\<not> thread_registered c s" "n \<noteq> 0" "has_single_bit al" "p \<noteq> 0"
  shows "run (collect env c s) = (Threw (Logic_Error Not_Registered), s) \<and>
    run (collect_if_needed env c n s) = (Threw (Logic_Error Not_Registered), s) \<and>
    run (malloc_internal env c n al d constructing s) = (Threw (Logic_Error Not_Registered), s) \<and>
    run (release_unconstructed env c p s) = (Threw (Logic_Error Not_Registered), s)"
  using assms
  by (simp add: collect_def collect_if_needed_def malloc_internal_def release_unconstructed_def prog_simps)

end
