(* ===== verification/Handshake.thy ===== *)
theory Handshake
  imports Rely_Guarantee Diagnostics Allocation
begin

text \<open>
  Several threads. The state of the system is the state of the manager and, for each thread, the
  program it has still to execute; a step lets one thread go on from a wait whose condition
  holds to its next wait, or start a call, or run user code. A rely-guarantee judgement \<open>good\<close> on
  programs says that a thread only changes what it may: it is proved once for each operation,
  from rules for sequencing and exceptions, and gives an invariant of all interleavings.
\<close>

section \<open>What a thread may do\<close>

definition paused :: "tid \<Rightarrow> gc_state \<Rightarrow> bool" where
  "paused t s \<longleftrightarrow>
     (case find_thread_state_locked t s of None \<Rightarrow> False | Some ts \<Rightarrow> ts_paused_for_collection ts)"

text \<open>Thread \<open>t\<close> holds the world when it has requested the stop that is in force.\<close>

definition holds :: "tid \<Rightarrow> gc_state \<Rightarrow> bool" where
  "holds t s \<longleftrightarrow> gc_stop_the_world_requested s \<and> gc_collector_thread s = t"

definition stopped_by_other :: "tid \<Rightarrow> gc_state \<Rightarrow> bool" where
  "stopped_by_other t s \<longleftrightarrow> gc_stop_the_world_requested s \<and> gc_collector_thread s \<noteq> t"

text \<open>The thread table is in key order, and the two flags of a stop are set and cleared together.\<close>

definition control_ok :: "gc_state \<Rightarrow> bool" where
  "control_ok s \<longleftrightarrow> om_wf (gc_threads s) \<and> gc_collecting s = gc_stop_the_world_requested s"

definition same_tables :: "gc_state \<Rightarrow> gc_state \<Rightarrow> bool" where
  "same_tables s s' \<longleftrightarrow>
     gc_allocations s' = gc_allocations s \<and> gc_weak_refs s' = gc_weak_refs s \<and>
     gc_managed_bytes s' = gc_managed_bytes s \<and> gc_reserved_bytes s' = gc_reserved_bytes s \<and>
     gc_collection_threshold_bytes s' = gc_collection_threshold_bytes s \<and>
     gc_collector_thread s' = gc_collector_thread s \<and>
     gc_stop_the_world_requested s' = gc_stop_the_world_requested s \<and>
     gc_collecting s' = gc_collecting s \<and> gc_stats s' = gc_stats s"

definition same_heap :: "gc_state \<Rightarrow> gc_state \<Rightarrow> bool" where
  "same_heap s s' \<longleftrightarrow>
     gc_mem s' = gc_mem s \<and> gc_headers s' = gc_headers s \<and> gc_regions s' = gc_regions s \<and>
     gc_events s' = gc_events s \<and> gc_threads s' = gc_threads s"

lemma same_refl [simp]: "same_tables s s" "same_heap s s"
  by (simp_all add: same_tables_def same_heap_def)

text \<open>
  The guarantee of thread \<open>t\<close> for its steps: the entries of other threads stay; while another
  thread wants the world stopped, the tables and flags of the manager stay, and if \<open>t\<close> is not
  registered everything but the root ranges stays; and a new stop is a stop by \<open>t\<close>.
\<close>

definition guar :: "tid \<Rightarrow> gc_state \<Rightarrow> gc_state \<Rightarrow> bool" where
  "guar t s s' \<longleftrightarrow>
     control_ok s' \<and>
     (\<forall>u. u \<noteq> t \<longrightarrow> find_thread_state_locked u s' = find_thread_state_locked u s) \<and>
     (stopped_by_other t s \<longrightarrow> same_tables s s' \<and> (\<not> thread_registered t s \<longrightarrow> same_heap s s')) \<and>
     (stopped_by_other t s' \<longrightarrow>
        gc_stop_the_world_requested s \<and> gc_collector_thread s' = gc_collector_thread s)"

text \<open>What \<open>t\<close> relies on between its steps: its own entry and its hold on the world do not change.\<close>

definition rely :: "tid \<Rightarrow> gc_state \<Rightarrow> gc_state \<Rightarrow> bool" where
  "rely t s s' \<longleftrightarrow> control_ok s' \<and>
     find_thread_state_locked t s' = find_thread_state_locked t s \<and> holds t s' = holds t s"

lemma guar_stopped:
  assumes "guar t s s'" "stopped_by_other t s"
  shows "gc_stop_the_world_requested s'" "gc_collector_thread s' = gc_collector_thread s" "same_tables s s'"
proof -
  have st: "same_tables s s'" using assms by (simp add: guar_def)
  then show "same_tables s s'" .
  show "gc_stop_the_world_requested s'" using st assms(2) by (simp add: same_tables_def stopped_by_other_def)
  show "gc_collector_thread s' = gc_collector_thread s" using st by (simp add: same_tables_def)
qed

lemma guar_new_stop:
  "guar t s s' \<Longrightarrow> stopped_by_other t s' \<Longrightarrow>
   gc_stop_the_world_requested s \<and> gc_collector_thread s' = gc_collector_thread s"
  by (simp add: guar_def)

lemma guar_others: "guar t s s' \<Longrightarrow> u \<noteq> t \<Longrightarrow> find_thread_state_locked u s' = find_thread_state_locked u s"
  by (simp add: guar_def)

lemma guar_control: "guar t s0 s \<Longrightarrow> control_ok s"
  by (simp add: guar_def)

lemma guar_rely:
  assumes ne: "t \<noteq> u" and g: "guar u s s'"
  shows "rely t s s'"
proof -
  have "holds t s'" if h: "holds t s"
  proof -
    have "stopped_by_other u s" using h ne by (simp add: holds_def stopped_by_other_def)
    from guar_stopped(1,2) [OF g this] h show ?thesis by (simp add: holds_def)
  qed
  moreover have "holds t s" if h: "holds t s'"
  proof -
    have "stopped_by_other u s'" using h ne by (simp add: holds_def stopped_by_other_def)
    from guar_new_stop [OF g this] h show ?thesis by (simp add: holds_def)
  qed
  ultimately show ?thesis using guar_others [OF g ne] guar_control [OF g] by (auto simp: rely_def)
qed

lemma rely_refl: "control_ok s \<Longrightarrow> rely t s s"
  by (simp add: rely_def)

lemma rely_trans: "rely t s s' \<Longrightarrow> rely t s' s'' \<Longrightarrow> rely t s s''"
  by (simp add: rely_def)

text \<open>
  The four waits of the manager, with what holds of the thread that waits: for the mutex, for
  the end of a stop by a thread that is not registered or that has parked, and for the others.
\<close>

definition wait_ok :: "tid \<Rightarrow> (gc_state \<Rightarrow> bool) \<Rightarrow> gc_state \<Rightarrow> bool" where
  "wait_ok t p s \<longleftrightarrow>
     p = (\<lambda>_. True) \<and> \<not> paused t s \<or>
     p = may_proceed t \<and> \<not> paused t s \<and> \<not> thread_registered t s \<or>
     p = (\<lambda>s. \<not> gc_stop_the_world_requested s) \<and> paused t s \<and> \<not> holds t s \<or>
     p = others_paused t \<and> \<not> paused t s \<and> holds t s"

lemma rely_preds:
  assumes "rely t s s'"
  shows "paused t s' = paused t s" "thread_registered t s' = thread_registered t s" "control_ok s'"
    "holds t s' = holds t s"
  using assms by (simp_all add: rely_def paused_def thread_registered_def)

lemma wait_ok_rely: "wait_ok t p s \<Longrightarrow> rely t s s' \<Longrightarrow> wait_ok t p s'"
  using rely_preds [of t s s'] by (auto simp: wait_ok_def)

text \<open>Threads that keep to this protocol run together; nothing is owned.\<close>

interpretation handshake: protocol "\<lambda>t _ s0 _ s. guar t s0 s" "\<lambda>t _. rely t" "\<lambda>t _. wait_ok t"
    "\<lambda>t _ s. \<not> paused t s \<and> \<not> holds t s" "\<lambda>_ :: unit. control_ok" "\<lambda>_ _. True"
  by unfold_locales
    (auto simp: guar_control guar_rely rely_refl wait_ok_rely rely_preds intro: rely_trans)

section \<open>Programs that keep to it\<close>

text \<open>\<open>good t Q E s0 m\<close>: the judgement \<open>rg\<close> for thread \<open>t\<close> and this guarantee and rely, without a ghost.\<close>

type_synonym step_pred = "gc_state \<Rightarrow> gc_state \<Rightarrow> bool"

definition good ::
    "tid \<Rightarrow> ('a \<Rightarrow> step_pred) \<Rightarrow> (gc_exn \<Rightarrow> step_pred) \<Rightarrow> gc_state \<Rightarrow> (gc_state, 'a) prog \<times> gc_state \<Rightarrow> bool" where
  "good t Q E s0 m =
     rg (\<lambda>_ s0 _ s. guar t s0 s) (\<lambda>_. rely t) (\<lambda>_. wait_ok t) (\<lambda>x _. Q x) (\<lambda>e _. E e) () s0 m"

lemma good_leaf [simp]:
  "good t Q E s0 (Return x, s) = Q x s0 s" "good t Q E s0 (Throw e, s) = E e s0 s"
  "good t Q E s0 (Terminate, s)" "good t Q E s0 (Diverge, s)"
  by (simp_all add: good_def)

lemma good_Wait [simp]:
  "good t Q E s0 (Wait p k, s) \<longleftrightarrow> guar t s0 s \<and> wait_ok t p s \<and>
     (\<forall>s1. rely t s s1 \<longrightarrow> p s1 \<longrightarrow> good t Q E s1 (k s1))"
  by (auto simp: good_def)

lemma good_unit: "rg (\<lambda>_ s0 _ s. guar t s0 s) (\<lambda>_. rely t) (\<lambda>_. wait_ok t) (\<lambda>x _. Q x) (\<lambda>e _. E e) (g :: unit) s0 m = good t Q E s0 m"
  by (simp add: good_def)

lemma good_bind [simp]: "good t Q E s0 (bindp m f) = good t (\<lambda>x s0 s. good t Q E s0 (f x s)) E s0 m"
  by (subst good_def, subst rg_bind) (simp only: good_unit)

lemma good_catch [simp]: "good t Q E s0 (catchp m h) = good t Q (\<lambda>e s0 s. good t Q E s0 (h e s)) s0 m"
  by (subst good_def, subst rg_catch) (simp only: good_unit)

lemma good_mono:
  "good t Q E s0 m \<Longrightarrow> (\<And>x s0 s. Q x s0 s \<Longrightarrow> Q' x s0 s) \<Longrightarrow> (\<And>e s0 s. E e s0 s \<Longrightarrow> E' e s0 s) \<Longrightarrow>
   good t Q' E' s0 m"
  unfolding good_def by (rule rg_mono)

section \<open>Critical sections\<close>

text \<open>
  Inside a critical section that \<open>t\<close> has entered through the handshake: no other thread holds the
  world, and the pause flag of \<open>t\<close> is clear. Updates of the tables keep this.
\<close>

definition sec :: "tid \<Rightarrow> step_pred" where
  "sec t s0 s \<longleftrightarrow> \<not> stopped_by_other t s0 \<and> \<not> stopped_by_other t s \<and> control_ok s \<and> \<not> paused t s \<and>
     (\<forall>u. u \<noteq> t \<longrightarrow> find_thread_state_locked u s = find_thread_state_locked u s0)"

definition fin :: "tid \<Rightarrow> step_pred" where
  "fin t s0 s \<longleftrightarrow> guar t s0 s \<and> \<not> paused t s"

lemma sec_fin: "sec t s0 s \<Longrightarrow> fin t s0 s"
  by (simp add: sec_def fin_def guar_def)

lemma guar_refl: "control_ok s \<Longrightarrow> guar t s s"
  by (simp add: guar_def stopped_by_other_def)

lemma same_control_preds:
  assumes "gc_threads s' = gc_threads s"
  shows "find_thread_state_locked u s' = find_thread_state_locked u s" "paused u s' = paused u s"
    "thread_registered u s' = thread_registered u s"
  using assms by (simp_all add: find_thread_state_locked_def paused_def thread_registered_def)

lemma find_park:
  assumes "om_wf (gc_threads s)"
  shows "find_thread_state_locked u (park_thread env t s) = (if u = t then map_option (\<lambda>ts. ts\<lparr>
         ts_parked_stack_top := e_stack_marker env, ts_fake_stack_handle := 0, ts_paused_for_collection := True,
         ts_register_spill := spill_registers (e_registers env)\<rparr>) (find_thread_state_locked u s)
       else find_thread_state_locked u s)"
    and "find_thread_state_locked u (unpark_thread t s) = (if u = t then map_option (\<lambda>ts. ts\<lparr>
         ts_paused_for_collection := False, ts_parked_stack_top := 0, ts_fake_stack_handle := 0,
         ts_register_spill := replicate kRegisterSpillWordCount 0\<rparr>) (find_thread_state_locked u s)
       else find_thread_state_locked u s)"
    and "om_wf (gc_threads (park_thread env t s))" "om_wf (gc_threads (unpark_thread t s))"
  using assms
  by (simp_all add: find_thread_state_locked_def park_thread_def unpark_thread_def smap.find_adjust smap.invar_adjust)

lemma park_control [simp]:
  "gc_stop_the_world_requested (park_thread env t s) = gc_stop_the_world_requested s"
  "gc_stop_the_world_requested (unpark_thread t s) = gc_stop_the_world_requested s"
  "gc_collector_thread (park_thread env t s) = gc_collector_thread s"
  "gc_collector_thread (unpark_thread t s) = gc_collector_thread s"
  "gc_collecting (park_thread env t s) = gc_collecting s" "gc_collecting (unpark_thread t s) = gc_collecting s"
  by (simp_all add: park_thread_def unpark_thread_def)

lemma park_preds:
  assumes "control_ok s"
  shows "thread_registered t (park_thread env t s) = thread_registered t s"
    "thread_registered t (unpark_thread t s) = thread_registered t s" "\<not> paused t (unpark_thread t s)"
    "thread_registered t s \<Longrightarrow> paused t (park_thread env t s)"
    "control_ok (park_thread env t s)" "control_ok (unpark_thread t s)"
  using assms find_park(1,2) [where s = s and u = t and t = t] find_park(3,4) [where s = s and t = t]
  by (auto simp: thread_registered_def paused_def control_ok_def split: option.splits)

lemma guar_park:
  assumes "control_ok s" "thread_registered t s"
  shows "guar t s (park_thread env t s)"
proof -
  have "om_wf (gc_threads s)" using assms(1) by (simp add: control_ok_def)
  moreover have "same_tables s (park_thread env t s)" by (simp add: park_thread_def same_tables_def)
  ultimately show ?thesis
    using assms park_preds(5) [OF assms(1)] find_park(1) by (simp add: guar_def stopped_by_other_def)
qed

lemma sec_here: "control_ok s \<Longrightarrow> \<not> paused t s \<Longrightarrow> may_proceed t s \<Longrightarrow> sec t s s"
  by (auto simp: sec_def may_proceed_def stopped_by_other_def)

lemma sec_unpark: "control_ok s \<Longrightarrow> \<not> gc_stop_the_world_requested s \<Longrightarrow> sec t s (unpark_thread t s)"
  using find_park(2) [where s = s] park_preds(3,6) [where s = s and t = t] by (simp add: sec_def stopped_by_other_def control_ok_def)

text \<open>What holds after the handshake of a call that began in \<open>s\<close>.\<close>

definition entered :: "tid \<Rightarrow> gc_state \<Rightarrow> step_pred" where
  "entered t s s0' s' \<longleftrightarrow> sec t s0' s' \<and> thread_registered t s' = thread_registered t s \<and> holds t s' = holds t s"

text \<open>The waits of the handshake.\<close>

lemma wait_ok_intros:
  "\<not> paused t s \<Longrightarrow> wait_ok t (\<lambda>_. True) s"
  "\<not> paused t s \<Longrightarrow> \<not> thread_registered t s \<Longrightarrow> wait_ok t (may_proceed t) s"
  "paused t s \<Longrightarrow> \<not> holds t s \<Longrightarrow> wait_ok t (\<lambda>s. \<not> gc_stop_the_world_requested s) s"
  "\<not> paused t s \<Longrightarrow> holds t s \<Longrightarrow> wait_ok t (others_paused t) s"
  by (simp_all add: wait_ok_def)

lemma good_wait_unregistered:
  assumes "rely t s s1" "\<not> paused t s" "\<not> thread_registered t s1" "guar t s0 s1"
  shows "good t (\<lambda>_. entered t s) E s0 (bindp (Wait (may_proceed t) (\<lambda>t. (Return (), t)), s1) (\<lambda>_ s. (Return (), s)))"
proof -
  note r = rely_preds [OF assms(1)]
  have "entered t s s2 s2" if "rely t s1 s2" "may_proceed t s2" for s2
    using that rely_preds [OF that(1)] r assms by (simp add: entered_def sec_here)
  then show ?thesis using r assms by (simp add: wait_ok_intros)
qed

lemma good_cv_wait_unregistered:
  assumes "rely t s s1" "\<not> paused t s" "\<not> thread_registered t s1" "guar t s0 s1" "\<not> may_proceed t s1"
  shows "good t (\<lambda>_. entered t s) E s0 (cv_wait (may_proceed t) s1)"
  using good_wait_unregistered [OF assms(1-4), of E] assms(5) by (simp add: cv_wait_def)

lemma good_cv_wait_parked:
  assumes "rely t s s1" "\<not> may_proceed t s1" "thread_registered t s1"
  shows "good t (\<lambda>_. entered t s) E s1 (bindp (cv_wait (\<lambda>s. \<not> gc_stop_the_world_requested s) (park_thread env t s1))
      (\<lambda>_ s. (Return (), unpark_thread t s)))"
proof -
  note r = rely_preds [OF assms(1)]
  note p = park_preds [OF r(3), where t = t]
  have nh: "\<not> holds t s" using r(4) assms(2) by (auto simp: holds_def may_proceed_def)
  have "entered t s s2 (unpark_thread t s2)"
    if "rely t (park_thread env t s1) s2" "\<not> gc_stop_the_world_requested s2" for s2
    using that rely_preds [OF that(1)] r nh p(1) park_preds(2,3) [where s = s2 and t = t]
    by (simp add: entered_def sec_unpark) (simp add: holds_def)
  moreover have "\<not> holds t (park_thread env t s1)" using assms(2) by (simp add: holds_def may_proceed_def)
  ultimately show ?thesis using guar_park [OF r(3) assms(3)] assms(2,3) p(4)
    by (simp add: cv_wait_def may_proceed_def wait_ok_intros)
qed

lemma cooperate_good:
  assumes "guar t s0 s" "\<not> paused t s" "may_proceed t s \<Longrightarrow> entered t s s0 s"
  shows "good t (\<lambda>_. entered t s) E s0 (cooperate_with_stop_the_world_locked env t s)"
proof -
  have c: "control_ok s" using assms(1) by (rule guar_control)
  have "good t (\<lambda>_. entered t s) E s1 (if may_proceed t s1 then (Return (), s1)
        else if \<not> thread_registered t s1 then cv_wait (may_proceed t) s1
        else bindp (cv_wait (\<lambda>s. \<not> gc_stop_the_world_requested s) (park_thread env t s1))
               (\<lambda>_ s. (Return (), unpark_thread t s)))" if "rely t s s1" for s1
    using good_cv_wait_unregistered [OF that assms(2)] good_cv_wait_parked [OF that] rely_preds [OF that] assms(2)
      guar_refl [of s1]
    by (simp add: entered_def sec_here del: good_bind)
  then show ?thesis
    using good_cv_wait_unregistered [OF rely_refl [OF c] assms(2)] assms
    by (simp add: cooperate_with_stop_the_world_locked_def lock_mutex_def wait_ok_intros)
qed

lemma entered_rely: "rely t s s1 \<Longrightarrow> entered t s1 s0 s' \<Longrightarrow> entered t s s0 s'"
  using rely_preds [of t s s1] by (simp add: entered_def)

lemma enter_good:
  assumes "guar t s0 s" "\<not> paused t s"
  shows "good t (\<lambda>_. entered t s) E s0 (enter env t s)"
proof -
  have "good t (\<lambda>_. entered t s) E s1 (cooperate_with_stop_the_world_locked env t s1)" if r: "rely t s s1" for s1
    using rely_preds [OF r] assms(2)
    by (intro good_mono [OF cooperate_good]) (auto simp: guar_refl entered_def sec_here dest: entered_rely [OF r])
  with assms show ?thesis by (simp add: enter_def lock_mutex_def wait_ok_intros)
qed

text \<open>The rules for the operations: a call that enters, and code after the mutex has been released.\<close>

lemma good_enter:
  assumes "guar t s0 s" "\<not> paused t s" "\<And>s0' s'. entered t s s0' s' \<Longrightarrow> good t Q E s0' (f () s')"
  shows "good t Q E s0 (bindp (enter env t s) f)"
  using enter_good [OF assms(1,2), of E env] assms(3)
  by (auto intro: good_mono)

lemma good_leave:
  assumes "guar t s0 s" "\<not> paused t s" "\<And>s1. rely t s s1 \<Longrightarrow> good t Q E s1 (f () s1)"
  shows "good t Q E s0 (bindp (leave s) f)"
  using assms by (simp add: leave_def wait_ok_intros)

text \<open>From here on sequences are taken apart by rules, with the condition in between.\<close>

declare good_bind [simp del] good_catch [simp del]

lemma good_seq:
  "good t R E s0 m \<Longrightarrow> (\<And>x s0 s. R x s0 s \<Longrightarrow> good t Q E s0 (f x s)) \<Longrightarrow> good t Q E s0 (bindp m f)"
  by (simp add: good_bind) (rule good_mono)

lemma good_try:
  "good t Q E s0 m \<Longrightarrow> (\<And>e s0 s. E e s0 s \<Longrightarrow> good t Q E' s0 (h e s)) \<Longrightarrow> good t Q E' s0 (catchp m h)"
  by (simp add: good_catch) (rule good_mono)

section \<open>Code without waits\<close>

text \<open>A computation within one step that leaves the threads and the flags of the handshake alone.\<close>

definition keeps_control :: "gc_state \<Rightarrow> gc_state \<Rightarrow> bool" where
  "keeps_control s s' \<longleftrightarrow> gc_threads s' = gc_threads s \<and>
     gc_stop_the_world_requested s' = gc_stop_the_world_requested s \<and>
     gc_collector_thread s' = gc_collector_thread s \<and> gc_collecting s' = gc_collecting s"

lemma keeps_control_refl [simp]: "keeps_control s s"
  by (simp add: keeps_control_def)

lemma keeps_control_trans: "keeps_control s t \<Longrightarrow> keeps_control t u \<Longrightarrow> keeps_control s u"
  by (simp add: keeps_control_def)

lemma keeps_control_fold: "(\<And>x s. keeps_control s (f x s)) \<Longrightarrow> keeps_control s (fold f xs s)"
  by (induction xs arbitrary: s) (auto intro: keeps_control_trans)

lemma keeps_control_preds:
  assumes "keeps_control s s'"
  shows "paused t s' = paused t s" "thread_registered t s' = thread_registered t s" "holds t s' = holds t s"
    "control_ok s' = control_ok s" "stopped_by_other t s' = stopped_by_other t s"
    "find_thread_state_locked t s' = find_thread_state_locked t s"
  using assms same_control_preds [of s' s]
  by (simp_all add: keeps_control_def holds_def control_ok_def stopped_by_other_def)

lemma keeps_control_sec: "sec t s0 s \<Longrightarrow> keeps_control s s' \<Longrightarrow> sec t s0 s'"
  using keeps_control_preds [of s s'] by (auto simp: sec_def)

lemma keeps_control_entered: "entered t s s0 s' \<Longrightarrow> keeps_control s' s'' \<Longrightarrow> entered t s s0 s''"
  using keeps_control_preds [of s' s''] keeps_control_sec [of t s0 s' s''] by (simp add: entered_def)

lemma in_step_good:
  assumes "in_step keeps_control s m" "\<And>x s'. keeps_control s s' \<Longrightarrow> Q x s0 s'" "\<And>e s'. keeps_control s s' \<Longrightarrow> E e s0 s'"
  shows "good t Q E s0 m"
  unfolding good_def using assms by (rule in_step_rg)

lemma in_step_from: "in_step keeps_control s' m \<Longrightarrow> keeps_control s s' \<Longrightarrow> in_step keeps_control s m"
  by (erule in_step_mono) (erule (1) keeps_control_trans)

lemma calm_bind:
  assumes "in_step keeps_control s m" "\<And>x s'. keeps_control s s' \<Longrightarrow> in_step keeps_control s' (f x s')"
  shows "in_step keeps_control s (bindp m f)"
  using assms in_step_from by (blast intro: in_step_bind)

lemma keeps_control_marking:
  "keeps_control (fst st) (fst (mark_candidate_locked w st))"
  by (cases st) (auto simp: keeps_control_def Let_def split: option.splits)

lemma keeps_control_fold_tracer:
  assumes "\<And>x st. keeps_control (fst st) (fst (f x st))"
  shows "keeps_control (fst st) (fst (fold f xs st))"
proof (induction xs arbitrary: st)
  case (Cons x xs)
  show ?case using keeps_control_trans [OF assms [of st x] Cons.IH [of "f x st"]] by simp
qed simp

lemma keeps_control_drain: "drain_mark_worklist_locked st = Some s' \<Longrightarrow> keeps_control (fst st) s'"
proof (induction st rule: drain_mark_worklist_locked.induct)
  case (2 s block worklist)
  have f: "keeps_control (fst st) (fst (fold (\<lambda>cur st. mark_candidate_locked (load_word (gc_mem (fst st)) cur) st) cs st))"
    for cs st by (rule keeps_control_fold_tracer) (rule keeps_control_marking)
  from "2.prems" obtain st where st: "scan_payload_locked block (s, worklist) = Some st" "drain_mark_worklist_locked st = Some s'"
    by (auto split: option.splits)
  have "keeps_control s (fst st)" using st(1) f [of "(s, worklist)"] by (auto simp: scan_payload_locked_def)
  with "2.IH" [OF st] show ?case by (auto intro: keeps_control_trans)
qed simp

lemma keeps_control_mark_phase: "mark_phase env c s = Some s' \<Longrightarrow> keeps_control s s'"
  unfolding mark_phase_def root_stages_fold
  using keeps_control_trans [OF keeps_control_fold_tracer [OF keeps_control_marking, of "(s, [])"] keeps_control_drain]
  by simp

lemma keeps_control_clear: "keeps_control s (clear_marks_locked s)"
  unfolding clear_marks_locked_def by (rule keeps_control_fold) (simp add: keeps_control_def)

lemma keeps_control_sweep_entry: "keeps_control s (sweep_entry p s)"
  by (simp add: sweep_entry_def keeps_control_def invalidate_weak_refs_for_block_locked_def Let_def)

text \<open>Code that reads only.\<close>

lemma in_step_reads: "in_step (=) s m \<Longrightarrow> in_step keeps_control s m"
  by (erule in_step_mono) simp

lemma in_step_order: "in_step (=) s (order_blocks_for_finalization_locked env bs s)"
  by (auto simp: order_blocks_for_finalization_locked_def split: option.split)

lemma in_step_require: "in_step (=) s (require_registered_thread_locked t s)"
  by (simp add: require_registered_thread_locked_def)

lemma in_step_describe_block: "in_step (=) s (describe_block_locked env b s)"
  unfolding describe_block_locked_def collect_outgoing_references_locked_def Let_def
  by (rule in_step_bind) (auto split: option.split)

lemma in_step_describe_blocks: "in_step (=) s (describe_blocks env bs s)"
  by (induction bs arbitrary: s) (auto intro!: in_step_bind in_step_describe_block)

lemma in_step_sweep: "in_step keeps_control s (sweep_locked env s)"
  unfolding sweep_locked_def
  by (auto intro!: calm_bind in_step_order [THEN in_step_reads] keeps_control_trans [OF _ keeps_control_fold [OF keeps_control_sweep_entry]])

lemma in_step_collect: "in_step keeps_control s (collect_locked env c s)"
proof -
  have "in_step keeps_control u (bindp (sweep_locked env u) (\<lambda>unreachable s. (Return unreachable, record_collection env unreachable s)))" for u
    by (intro calm_bind in_step_sweep) (simp add: record_collection_def keeps_control_def Let_def)
  then have "in_step keeps_control s (bindp (sweep_locked env u) (\<lambda>unreachable s. (Return unreachable, record_collection env unreachable s)))"
    if "keeps_control s u" for u
    using that by (auto simp: in_step_def split: prog.splits intro: keeps_control_trans)
  then show ?thesis
    using keeps_control_clear [of s] keeps_control_mark_phase [of env c "clear_marks_locked s"]
    by (auto simp: collect_locked_def Let_def split: option.split intro: keeps_control_trans)
qed

lemma in_step_shutdown: "in_step keeps_control s (shutdown_locked env s)"
  unfolding shutdown_locked_def detach_all_blocks_locked_def
  by (auto intro!: calm_bind in_step_order [THEN in_step_reads] simp: keeps_control_def)


section \<open>Calls that keep the protocol\<close>

text \<open>
  At the end of a call the pause flag of its thread is clear and its hold on the world is what it
  was; most calls also leave it registered or unregistered as it was.
\<close>

definition ends :: "tid \<Rightarrow> gc_state \<Rightarrow> step_pred" where
  "ends t s s0 s' \<longleftrightarrow> fin t s0 s' \<and> holds t s' = holds t s"

definition kept :: "tid \<Rightarrow> gc_state \<Rightarrow> step_pred" where
  "kept t s s0 s' \<longleftrightarrow> ends t s s0 s' \<and> thread_registered t s' = thread_registered t s"

definition follows_protocol :: "tid \<Rightarrow> 'a gc \<Rightarrow> bool" where
  "follows_protocol t m \<longleftrightarrow>
     (\<forall>s0 s. fin t s0 s \<longrightarrow> good t (\<lambda>_. ends t s) (\<lambda>_. ends t s) s0 (m s))"

definition keeps_protocol :: "tid \<Rightarrow> 'a gc \<Rightarrow> bool" where
  "keeps_protocol t m \<longleftrightarrow>
     (\<forall>s0 s. fin t s0 s \<longrightarrow> good t (\<lambda>_. kept t s) (\<lambda>_. kept t s) s0 (m s))"

lemma keeps_protocolI:
  "(\<And>s0 s. fin t s0 s \<Longrightarrow> good t (\<lambda>_. kept t s) (\<lambda>_. kept t s) s0 (m s)) \<Longrightarrow> keeps_protocol t m"
  by (simp add: keeps_protocol_def)

lemma keeps_protocolD:
  "keeps_protocol t m \<Longrightarrow> fin t s0 s \<Longrightarrow> good t (\<lambda>_. kept t s) (\<lambda>_. kept t s) s0 (m s)"
  by (simp add: keeps_protocol_def)

lemma keeps_follows: "keeps_protocol t m \<Longrightarrow> follows_protocol t m"
  by (auto simp: follows_protocol_def kept_def dest!: keeps_protocolD elim!: good_mono)

lemma kept_trans: "kept t s s0 s' \<Longrightarrow> kept t s' s1 s'' \<Longrightarrow> kept t s s1 s''"
  by (simp add: kept_def ends_def)

lemma kept_fin: "kept t s s0 s' \<Longrightarrow> fin t s0 s'"
  by (simp add: kept_def ends_def)

lemma kept_refl: "fin t s0 s \<Longrightarrow> kept t s s0 s"
  by (simp add: kept_def ends_def)

lemma entered_kept: "entered t s s0 s' \<Longrightarrow> kept t s s0 s'"
  by (simp add: entered_def kept_def ends_def sec_fin)

lemma entered_step: "entered t s s0 s' \<Longrightarrow> keeps_control s' s'' \<Longrightarrow> kept t s s0 s''"
  using keeps_control_entered entered_kept by blast

lemma kept_good: "kept t s s0' s' \<Longrightarrow> good t (\<lambda>_. kept t s') (\<lambda>_. kept t s') s0' m \<Longrightarrow>
    good t (\<lambda>_. kept t s) (\<lambda>_. kept t s) s0' m"
  by (erule good_mono) (erule (1) kept_trans)+

lemma keeps_bind:
  assumes "keeps_protocol t m" "\<And>x. keeps_protocol t (f x)"
  shows "keeps_protocol t (\<lambda>s. bindp (m s) f)"
proof (rule keeps_protocolI)
  fix s0 s assume "fin t s0 s"
  then show "good t (\<lambda>_. kept t s) (\<lambda>_. kept t s) s0 (bindp (m s) f)"
    by (rule good_seq [OF keeps_protocolD [OF assms(1)]])
      (auto intro: kept_good keeps_protocolD [OF assms(2)] dest: kept_fin)
qed

lemma keeps_return: "keeps_protocol t (\<lambda>s. (Return x, s))"
  by (rule keeps_protocolI) (simp add: kept_refl)

text \<open>The common case: a critical section that leaves the flags of the handshake alone.\<close>

lemma keeps_section:
  assumes "\<And>s. in_step keeps_control s (f () s)"
  shows "keeps_protocol t (\<lambda>s. bindp (enter env t s) f)"
proof (rule keeps_protocolI)
  fix s0 s assume f: "fin t s0 s"
  show "good t (\<lambda>_. kept t s) (\<lambda>_. kept t s) s0 (bindp (enter env t s) f)"
    using f by (intro good_enter in_step_good [OF assms]) (auto simp: fin_def dest: entered_step)
qed

section \<open>Stopping the world\<close>

text \<open>A thread that holds the world.\<close>

definition held :: "tid \<Rightarrow> gc_state \<Rightarrow> step_pred" where
  "held t s s0 s' \<longleftrightarrow> sec t s0 s' \<and> holds t s' \<and> thread_registered t s' = thread_registered t s"

lemma holds_not_stopped: "holds t s \<Longrightarrow> \<not> stopped_by_other t s"
  by (simp add: holds_def stopped_by_other_def)

lemma fin_holds_sec:
  assumes "fin t s0 s" "holds t s"
  shows "sec t s0 s"
proof -
  have g: "guar t s0 s" "\<not> paused t s" using assms(1) by (simp_all add: fin_def)
  have "\<not> stopped_by_other t s0"
    using guar_stopped(2) [OF g(1)] assms(2) by (auto simp: holds_def stopped_by_other_def)
  with g guar_others [OF g(1)] holds_not_stopped [OF assms(2)] guar_control [OF g(1)] show ?thesis
    by (simp add: sec_def)
qed

lemma held_step: "held t s s0 s' \<Longrightarrow> keeps_control s' s'' \<Longrightarrow> held t s s0 s''"
  using keeps_control_preds [of s' s''] keeps_control_sec [of t s0 s' s''] by (simp add: held_def)

lemma held_fin: "held t s s0 s' \<Longrightarrow> fin t s0 s'"
  by (simp add: held_def sec_fin)

lemma held_rely: "held t s s0 s' \<Longrightarrow> rely t s' s1 \<Longrightarrow> held t s s1 s1"
  using rely_preds [of t s' s1] by (auto simp: held_def sec_def holds_not_stopped)

lemma held_request:
  assumes "entered t s s0 s'"
  shows "held t s s0 (request_stop t s')"
proof -
  have same: "gc_threads (request_stop t s') = gc_threads s'" by (simp add: request_stop_def)
  show ?thesis
    using assms same_control_preds [OF same]
    by (simp add: held_def entered_def sec_def holds_def control_ok_def stopped_by_other_def same)
      (simp add: request_stop_def)
qed

lemma wait_good:
  assumes "entered t s s0 s'"
  shows "good t (\<lambda>_. held t s) E s0 (wait_for_other_threads_to_pause_locked t (request_stop t s'))"
proof -
  have h: "held t s s0 (request_stop t s')" using assms by (rule held_request)
  then have "fin t s0 (request_stop t s')" "holds t (request_stop t s')" by (simp_all add: held_fin held_def)
  with h held_rely [OF h] show ?thesis
    by (simp add: wait_for_other_threads_to_pause_locked_def cv_wait_def wait_ok_intros fin_def)
qed

lemma stop_and_run_good:
  assumes "entered t s s0 s'" "\<And>s. in_step keeps_control s (body s)"
  shows "good t (\<lambda>_. held t s) (\<lambda>_. held t s) s0
    (bindp (wait_for_other_threads_to_pause_locked t (request_stop t s')) (\<lambda>_ s. body s))"
  by (rule good_seq [OF wait_good [OF assms(1)]])
    (auto intro!: in_step_good [OF assms(2)] dest: held_step)

lemma release_good:
  assumes "held t s s0 s'" "\<not> holds t s"
  shows "good t (\<lambda>_. kept t s) E s0 (release_stop_the_world s')"
proof -
  let ?free = "\<lambda>s1. s1\<lparr>gc_collector_thread := no_thread, gc_stop_the_world_requested := False, gc_collecting := False\<rparr>"
  have "kept t s s1 (?free s1)" if "rely t s' s1" for s1
    using held_rely [OF assms(1) that] assms(2) same_control_preds [of "?free s1" s1]
    by (simp add: held_def kept_def ends_def fin_def guar_def sec_def control_ok_def stopped_by_other_def)
      (simp add: holds_def)
  then show ?thesis using held_fin [OF assms(1)]
    by (simp add: release_stop_the_world_def lock_mutex_def wait_ok_intros fin_def good_bind)
qed

lemma rethrow_good:
  assumes "held t s s0 s'" "\<not> holds t s"
  shows "good t Q (\<lambda>_. kept t s) s0 (release_and_rethrow x s')"
  unfolding release_and_rethrow_def by (rule good_seq [OF release_good [OF assms]]) simp

lemma try_stopped_good:
  assumes "entered t s s0 s'" "\<not> holds t s" "\<And>s. in_step keeps_control s (body s)"
  shows "good t (\<lambda>_. held t s) (\<lambda>_. kept t s) s0
    (catchp (bindp (wait_for_other_threads_to_pause_locked t (request_stop t s')) (\<lambda>_ s. body s))
      release_and_rethrow)"
  by (rule good_try [OF stop_and_run_good [OF assms(1,3)] rethrow_good [OF _ assms(2)]])


section \<open>Collections and snapshots\<close>

text \<open>
  What is asked of the finalizers a collector runs while it holds the world: whatever they call
  keeps the protocol. A finalizer that returns without calling the manager does.
\<close>

definition finalizers_cooperate :: "gc_env \<Rightarrow> tid \<Rightarrow> bool" where
  "finalizers_cooperate env t \<longleftrightarrow>
     (\<forall>d p s0 s. fin t s0 s \<longrightarrow> holds t s \<longrightarrow>
        good t (\<lambda>_. kept t s) (\<lambda>_ _ _. True) s0 (e_finalize env d p s))"

lemma run_finalizers_good:
  assumes "finalizers_cooperate env t"
  shows "held t s s0 s' \<Longrightarrow> good t (\<lambda>_. held t s) E s0 (run_finalizers env hs s')"
proof (induction hs arbitrary: s0 s')
  case (Cons h hs)
  show ?case
  proof (cases "h = 0 \<or> ch_destructor (gc_headers s' h) = None")
    case True
    then show ?thesis using Cons by auto
  next
    case False
    then obtain d where d: "h \<noteq> 0" "ch_destructor (gc_headers s' h) = Some d" by auto
    let ?p = "payload_pointer h s'" and ?s = "s'\<lparr>gc_events := gc_events s' @ [Finalized d (payload_pointer h s')]\<rparr>"
    have "keeps_control s' ?s" by (simp add: keeps_control_def)
    then have h: "held t s s0 ?s" by (rule held_step [OF Cons.prems])
    then have "fin t s0 ?s" "holds t ?s" by (simp_all add: held_fin held_def)
    with assms have f: "good t (\<lambda>_. kept t ?s) (\<lambda>_ _ _. True) s0 (e_finalize env d ?p ?s)"
      unfolding finalizers_cooperate_def by blast
    have "held t s s1 s2" if "kept t ?s s1 s2" for s1 s2
      using that h fin_holds_sec [of t s1 s2] by (simp add: kept_def ends_def held_def)
    then have "good t (\<lambda>x s0 s''. good t (\<lambda>_. held t s) E s0 (run_finalizers env hs s'')) (\<lambda>_ _ _. True) s0
        (e_finalize env d ?p ?s)"
      by (intro good_mono [OF f] Cons.IH) simp_all
    with d show ?thesis by (simp add: Let_def good_bind good_catch)
  qed
qed simp

lemma keeps_control_free: "keeps_control s (fold free_block_memory hs s)"
  by (rule keeps_control_fold) (simp add: free_block_memory_def keeps_control_def)

lemma destroy_blocks_good:
  assumes "finalizers_cooperate env t" "held t s s0 s'"
  shows "good t (\<lambda>_. held t s) E s0 (destroy_blocks env hs s')"
  unfolding destroy_blocks_def
  by (rule good_seq [OF run_finalizers_good [OF assms]]) (simp add: held_step keeps_control_free)

text \<open>The frame shared by \<open>collect\<close> and \<open>shutdown\<close>.\<close>

lemma stop_then_destroy_good:
  assumes "finalizers_cooperate env t" "entered t s s0 s'" "\<not> holds t s" "\<And>s. in_step keeps_control s (body s)"
  shows "good t (\<lambda>_. kept t s) (\<lambda>_. kept t s) s0
    (bindp (catchp (bindp (wait_for_other_threads_to_pause_locked t (request_stop t s')) (\<lambda>_ s. body s))
        release_and_rethrow)
      (\<lambda>hs s. bindp (leave s) (\<lambda>_ s. bindp (destroy_blocks env hs s) (\<lambda>_ s. release_stop_the_world s))))"
proof (rule good_seq [OF try_stopped_good [OF assms(2-4)]])
  fix hs s0 s' assume h: "held t s s0 s'"
  show "good t (\<lambda>_. kept t s) (\<lambda>_. kept t s) s0
    (bindp (leave s') (\<lambda>_ s. bindp (destroy_blocks env hs s) (\<lambda>_ s. release_stop_the_world s)))"
  proof (rule good_leave)
    show "guar t s0 s'" "\<not> paused t s'" using held_fin [OF h] by (simp_all add: fin_def)
    show "good t (\<lambda>_. kept t s) (\<lambda>_. kept t s) s1
        (bindp (destroy_blocks env hs s1) (\<lambda>_ s. release_stop_the_world s))" if "rely t s' s1" for s1
      by (rule good_seq [OF destroy_blocks_good [OF assms(1) held_rely [OF h that]] release_good [OF _ assms(3)]])
  qed
qed

lemma not_collecting: "entered t s s0 s' \<Longrightarrow> \<not> gc_collecting s' \<Longrightarrow> \<not> holds t s"
  by (auto simp: entered_def sec_def control_ok_def holds_def)

lemma keeps_entering:
  assumes "\<And>s s0 s'. entered t s s0 s' \<Longrightarrow> good t (\<lambda>_. kept t s) (\<lambda>_. kept t s) s0 (f () s')"
  shows "keeps_protocol t (\<lambda>s. bindp (enter env t s) f)"
  by (rule keeps_protocolI, rule good_enter) (simp_all add: fin_def assms)

lemma keeps_collect:
  assumes "finalizers_cooperate env t"
  shows "keeps_protocol t (collect env t)"
  unfolding collect_def [abs_def]
  by (rule keeps_entering)
    (auto simp: require_registered_thread_locked_def entered_kept
      intro: stop_then_destroy_good [OF assms _ _ in_step_collect] dest: not_collecting)

lemma keeps_shutdown:
  assumes "finalizers_cooperate env t"
  shows "keeps_protocol t (shutdown env t)"
  unfolding shutdown_def [abs_def]
  by (rule keeps_entering)
    (auto simp: entered_kept intro: stop_then_destroy_good [OF assms _ _ in_step_shutdown] dest: not_collecting)

lemma keeps_with_stopped_world:
  assumes "\<And>s. in_step keeps_control s (body s)"
  shows "keeps_protocol t (with_stopped_world env t body)"
  unfolding with_stopped_world_def [abs_def]
proof (rule keeps_entering)
  fix s s0 s' assume e: "entered t s s0 s'"
  show "good t (\<lambda>_. kept t s) (\<lambda>_. kept t s) s0 (if gc_collecting s' then body s'
       else bindp (catchp (bindp (wait_for_other_threads_to_pause_locked t (request_stop t s'))
              (\<lambda>_ s. body s)) release_and_rethrow)
         (\<lambda>result s. bindp (release_stop_the_world s) (\<lambda>_ s. (Return result, s))))"
  proof (cases "gc_collecting s'")
    case True
    then show ?thesis by simp (rule in_step_good [OF assms]; rule entered_step [OF e])
  next
    case False
    have nh: "\<not> holds t s" using not_collecting [OF e False] .
    have "good t (\<lambda>_. kept t s) (\<lambda>_. kept t s) s1 (bindp (release_stop_the_world s2) (\<lambda>_ s. (Return x, s)))"
      if "held t s s1 s2" for s1 s2 x
      by (rule good_seq [OF release_good [OF that nh]]) simp
    with False show ?thesis by simp (rule good_seq [OF try_stopped_good [OF e nh assms]])
  qed
qed


section \<open>The other operations\<close>

lemma kept_rely: "kept t u s0 s \<Longrightarrow> rely t s s1 \<Longrightarrow> kept t u s1 s1"
  using rely_preds [of t s s1] by (simp add: kept_def ends_def fin_def guar_refl)

lemma good_require:
  "kept t u s0 s \<Longrightarrow> (thread_registered t s \<Longrightarrow> good t Q (\<lambda>_. kept t u) s0 (f () s)) \<Longrightarrow>
   good t Q (\<lambda>_. kept t u) s0 (bindp (require_registered_thread_locked t s) f)"
  by (simp add: require_registered_thread_locked_def)

lemma good_kept_leave:
  assumes "kept t u s0 s"
    and "\<And>s1. kept t u s1 s1 \<Longrightarrow> thread_registered t s1 = thread_registered t s \<Longrightarrow> good t Q E s1 (f () s1)"
  shows "good t Q E s0 (bindp (leave s) f)"
  by (rule good_leave) (use assms kept_rely [OF assms(1)] rely_preds in \<open>auto simp: kept_def ends_def fin_def\<close>)

lemma keeps_if: "keeps_protocol t a \<Longrightarrow> keeps_protocol t b \<Longrightarrow> keeps_protocol t (\<lambda>s. if c then a s else b s)"
  by (cases c) simp_all

lemma keeps_throw: "keeps_protocol t (\<lambda>s. (Throw e, s))"
  by (rule keeps_protocolI) (simp add: kept_refl)

lemma good_kept_call:
  "kept t u s0 s \<Longrightarrow> keeps_protocol t m \<Longrightarrow> good t (\<lambda>_. kept t u) (\<lambda>_. kept t u) s0 (m s)"
  by (rule kept_good) (auto intro: keeps_protocolD kept_fin)

lemma keeps_collect_if_needed:
  assumes "finalizers_cooperate env t"
  shows "keeps_protocol t (collect_if_needed env t n)"
  unfolding collect_if_needed_def [abs_def] Let_def
  by (intro keeps_entering good_require good_kept_leave entered_kept)
    (auto intro: good_kept_call keeps_collect [OF assms])

text \<open>
  A registered thread may write memory, headers and the regions of the allocator at any time:
  \<open>malloc_internal\<close> does so between its two critical sections.
\<close>

definition private_step :: "gc_state \<Rightarrow> gc_state \<Rightarrow> bool" where
  "private_step s s' \<longleftrightarrow>
     same_tables s s' \<and> gc_threads s' = gc_threads s \<and> gc_root_ranges s' = gc_root_ranges s"

lemma private_keeps: "private_step s s' \<Longrightarrow> keeps_control s s'"
  by (simp add: private_step_def keeps_control_def same_tables_def)

lemma guar_private:
  assumes "guar t s0 s" "thread_registered t s" "private_step s s'"
  shows "guar t s0 s'"
proof -
  note k = keeps_control_preds [OF private_keeps [OF assms(3)]]
  have "same_tables s0 s' \<and> thread_registered t s0" if st: "stopped_by_other t s0"
  proof
    show "same_tables s0 s'"
      using guar_stopped(3) [OF assms(1) st] assms(3) by (simp add: private_step_def same_tables_def)
    show "thread_registered t s0"
    proof (rule ccontr)
      assume n: "\<not> thread_registered t s0"
      with assms(1) st have "same_heap s0 s" by (simp add: guar_def)
      then show False using same_control_preds(3) [of s s0 t] assms(2) n by (simp add: same_heap_def)
    qed
  qed
  moreover have "gc_collector_thread s' = gc_collector_thread s"
    using assms(3) by (simp add: private_step_def same_tables_def)
  ultimately show ?thesis using assms(1) k by (simp add: guar_def)
qed

lemma kept_private:
  assumes "kept t u s0 s" "thread_registered t s" "private_step s s'"
  shows "kept t u s0 s'"
  using assms(1) guar_private [OF _ assms(2,3)] keeps_control_preds [OF private_keeps [OF assms(3)]]
  by (simp add: kept_def ends_def fin_def)


lemma operator_new_good:
  assumes "kept t u s0 s" "thread_registered t s"
  shows "good t (\<lambda>_. kept t u) (\<lambda>_. kept t u) s0 (operator_new env n al s)"
  using assms(1) by (auto simp: operator_new_def private_step_def same_tables_def
      split: option.split intro: kept_private [OF assms])

lemma allocate_raw_good:
  assumes "finalizers_cooperate env t" "kept t u s0 s" "thread_registered t s"
  shows "good t (\<lambda>_. kept t u) (\<lambda>_. kept t u) s0 (allocate_raw env t n al s)"
proof (cases "e_op_new env s n al")
  case None
  have "good t (\<lambda>_. kept t u) (\<lambda>_. kept t u) s0 (bindp (collect env t s) (\<lambda>_ s. operator_new env n al s))"
    using assms(2,3)
    by (intro good_seq [OF good_kept_call [OF assms(2) keeps_collect [OF assms(1)]]] operator_new_good)
      (auto simp: kept_def)
  with None show ?thesis by (simp add: allocate_raw_def operator_new_def [of env n al s] catchp_def)
next
  case (Some a)
  then have "allocate_raw env t n al s = operator_new env n al s"
    by (simp add: allocate_raw_def operator_new_def catchp_def)
  with operator_new_good [OF assms(2,3)] show ?thesis by simp
qed

lemma keeps_publish_block: "keeps_protocol t (publish_block env t h n sz c)"
  unfolding publish_block_def [abs_def] Let_def
  by (rule keeps_section, rule calm_bind [OF in_step_require [THEN in_step_reads]])
    (auto simp: register_block_locked_def add_block_def keeps_control_def Let_def)

lemma private_intros:
  "private_step s (init_header raw n d p a s)" "private_step s (free_block_memory raw s)"
  by (simp_all add: private_step_def same_tables_def init_header_def free_block_memory_def Let_def)

lemma place_block_good:
  assumes "finalizers_cooperate env t" "kept t u s0 s" "thread_registered t s"
  shows "good t (\<lambda>_. kept t u) (\<lambda>_. kept t u) s0
      (bindp (allocate_raw env t sz a s) (\<lambda>raw s.
        bindp (catchp (publish_block env t raw n sz c (init_header raw n d p a s))
                 (\<lambda>x s. bindp (leave s) (\<lambda>_ s. (Throw x, free_block_memory raw s))))
          (\<lambda>_ s. (Return (payload_pointer raw s), s))))"
proof (rule good_seq [OF allocate_raw_good [OF assms]])
  fix raw s0 s1 assume k: "kept t u s0 s1"
  have r: "thread_registered t u" using assms(2,3) by (simp add: kept_def)
  then have reg: "kept t u s2 s3 \<Longrightarrow> thread_registered t s3" for s2 s3 by (simp add: kept_def)
  show "good t (\<lambda>_. kept t u) (\<lambda>_. kept t u) s0
      (bindp (catchp (publish_block env t raw n sz c (init_header raw n d p a s1))
          (\<lambda>x s. bindp (leave s) (\<lambda>_ s. (Throw x, free_block_memory raw s))))
        (\<lambda>_ s. (Return (payload_pointer raw s), s)))"
    by (rule good_seq, rule good_try,
        rule good_kept_call [OF kept_private [OF k reg [OF k]] keeps_publish_block])
      (auto intro!: good_kept_leave private_intros intro: kept_private reg)
qed

lemma keeps_malloc:
  assumes "finalizers_cooperate env t"
  shows "keeps_protocol t (malloc_internal env t n al d c)"
  unfolding malloc_internal_def [abs_def] Let_def
  by (intro keeps_if keeps_throw keeps_entering good_require good_kept_leave entered_kept)
    (auto split: option.split intro: place_block_good [OF assms])

lemma leave_and_free_good:
  assumes "entered t s s0 s'" "thread_registered t s'" "keeps_control s' v"
  shows "good t (\<lambda>_. kept t s) E s0 (bindp (leave v) (\<lambda>_ s. (Return (), free_block_memory h s)))"
proof (rule good_kept_leave [OF entered_step [OF assms(1,3)]])
  fix s1 assume k: "kept t s s1 s1" "thread_registered t s1 = thread_registered t v"
  then have "thread_registered t s1" using assms(2) keeps_control_preds(2) [OF assms(3)] by simp
  then show "good t (\<lambda>_. kept t s) E s1 (Return (), free_block_memory h s1)"
    using kept_private [OF k(1) _ private_intros(2)] by simp
qed

lemma keeps_release_unconstructed: "keeps_protocol t (release_unconstructed env t p)"
  unfolding release_unconstructed_def [abs_def] Let_def
  by (intro keeps_if keeps_return keeps_entering good_require entered_kept)
    (auto split: option.split simp: entered_kept invalidate_weak_refs_for_block_locked_def keeps_control_def
      intro: leave_and_free_good)

lemma keeps_finish_construction: "keeps_protocol t (finish_construction env t p)"
  unfolding finish_construction_def [abs_def]
  by (rule keeps_section) (simp add: keeps_control_def split: option.split)

section \<open>Registration, root ranges, weak references, counters\<close>

lemma find_own:
  assumes "om_wf m"
  shows "om_find u (om_adjust t f (om_emplace t v m)) =
      (if u = t then map_option f (case om_find t m of None \<Rightarrow> Some v | Some w \<Rightarrow> Some w) else om_find u m)"
    "om_find u (om_erase t m) = (if u = t then None else om_find u m)"
    "om_wf (om_adjust t f (om_emplace t v m))" "om_wf (om_erase t m)"
  using assms
  by (auto simp: smap.find_adjust smap.find_emplace smap.find_erase smap.invar_adjust smap.invar_emplace
      smap.invar_erase split: option.split)

lemma entered_own:
  assumes e: "entered t s s0 s'" and m: "om_wf m" "\<And>u. u \<noteq> t \<Longrightarrow> om_find u m = om_find u (gc_threads s')"
    and p: "\<And>ts. om_find t m = Some ts \<Longrightarrow> \<not> ts_paused_for_collection ts"
  shows "ends t s s0 (s'\<lparr>gc_threads := m\<rparr>)"
proof -
  have "sec t s0 (s'\<lparr>gc_threads := m\<rparr>)"
    using e m p by (auto simp: entered_def sec_def control_ok_def stopped_by_other_def paused_def
        find_thread_state_locked_def split: option.splits)
  then show ?thesis using e by (simp add: ends_def sec_fin entered_def holds_def)
qed

lemma follows_register_stack_bottom: "follows_protocol t (register_stack_bottom env t b)"
  unfolding follows_protocol_def
proof (intro allI impI)
  fix s0 s assume f: "fin t s0 s"
  have "good t (\<lambda>_. ends t s) (\<lambda>_. ends t s) s0 (bindp (enter env t s) (\<lambda>_ s.
        if find_thread_state_locked t s = None \<and> e_alloc_fails env Threads_Node
        then (Throw Bad_Alloc, s)
        else (Return (), s\<lparr>gc_threads :=
               om_adjust t (\<lambda>ts. ts\<lparr>ts_stack_bottom := b\<rparr>)
                 (om_emplace t new_ThreadState (gc_threads s))\<rparr>)))"
  proof (rule good_enter)
    show "guar t s0 s" "\<not> paused t s" using f by (simp_all add: fin_def)
    fix s0' s' assume e: "entered t s s0' s'"
    have w: "om_wf (gc_threads s')" "\<not> paused t s'" using e by (simp_all add: entered_def sec_def control_ok_def)
    have "ends t s s0' s'" using entered_kept [OF e] by (simp add: kept_def)
    moreover have "ends t s s0' (s'\<lparr>gc_threads :=
               om_adjust t (\<lambda>ts. ts\<lparr>ts_stack_bottom := b\<rparr>)
                 (om_emplace t new_ThreadState (gc_threads s'))\<rparr>)"
      using w by (intro entered_own [OF e])
        (auto simp: find_own paused_def find_thread_state_locked_def new_ThreadState_def split: option.splits)
    ultimately show "good t (\<lambda>_. ends t s) (\<lambda>_. ends t s) s0' (if find_thread_state_locked t s' = None \<and> e_alloc_fails env Threads_Node
        then (Throw Bad_Alloc, s')
        else (Return (), s'\<lparr>gc_threads :=
               om_adjust t (\<lambda>ts. ts\<lparr>ts_stack_bottom := b\<rparr>)
                 (om_emplace t new_ThreadState (gc_threads s'))\<rparr>))" by simp
  qed
  then show "good t (\<lambda>_. ends t s) (\<lambda>_. ends t s) s0 (register_stack_bottom env t b s)"
    using f by (simp add: register_stack_bottom_def ends_def)
qed

lemma follows_register_current_thread: "follows_protocol t (register_current_thread env t)"
  using follows_register_stack_bottom
  by (auto simp: follows_protocol_def register_current_thread_def detect_current_thread_stack_bottom_def ends_def
      split: option.split)

lemma follows_unregister_current_thread: "follows_protocol t (unregister_current_thread env t)"
  unfolding follows_protocol_def unregister_current_thread_def
  by (auto simp: fin_def find_own entered_def sec_def control_ok_def intro!: good_enter entered_own)


lemma keeps_register_root_range: "keeps_protocol t (register_root_range env t b e)"
proof (rule keeps_protocolI)
  fix s0 s assume f: "fin t s0 s"
  have "good t (\<lambda>_. kept t s) (\<lambda>_. kept t s) s1 (if e_alloc_fails env Root_Ranges_Push then (Throw Bad_Alloc, s1)
        else cooperate_with_stop_the_world_locked env t
               (s1\<lparr>gc_root_ranges := gc_root_ranges s1 @ [normal_range b e]\<rparr>))"
    if r: "rely t s s1" for s1
  proof -
    let ?s = "s1\<lparr>gc_root_ranges := gc_root_ranges s1 @ [normal_range b e]\<rparr>"
    note p = rely_preds [OF r]
    have k: "kept t s s1 s1" using kept_rely [OF kept_refl [OF f] r] .
    have c: "keeps_control s1 ?s" by (simp add: keeps_control_def)
    note q = keeps_control_preds [OF c]
    have g: "guar t s1 ?s"
      using p(3) q by (simp add: guar_def same_tables_def same_heap_def stopped_by_other_def)
    have "good t (\<lambda>_. entered t ?s) (\<lambda>_. kept t s) s1 (cooperate_with_stop_the_world_locked env t ?s)"
      using g f p q keeps_control_sec [OF sec_here c]
      by (intro cooperate_good) (auto simp: fin_def entered_def may_proceed_def)
    then have "good t (\<lambda>_. kept t s) (\<lambda>_. kept t s) s1 (cooperate_with_stop_the_world_locked env t ?s)"
      by (rule good_mono) (use p q in \<open>simp_all add: entered_def kept_def ends_def sec_fin\<close>)
    with k show ?thesis by simp
  qed
  then show "good t (\<lambda>_. kept t s) (\<lambda>_. kept t s) s0 (register_root_range env t b e s)"
    using f by (simp add: register_root_range_def lock_mutex_def good_bind wait_ok_intros kept_refl fin_def)
qed

lemma keeps_tables:
  "keeps_protocol t (unregister_root_range env t b e)"
  "keeps_protocol t (register_weak_ref env t a st)"
  "keeps_protocol t (read_weak_ref env t st)"
  "keeps_protocol t (unregister_weak_ref env t st)"
  "keeps_protocol t (copy_weak_ref env t st st')"
  "keeps_protocol t (update_weak_ref env t st st')"
  "keeps_protocol t (is_current_thread_registered env t)"
  "keeps_protocol t (set_collection_threshold_bytes env t n)"
  "keeps_protocol t (collection_threshold_bytes env t)"
  "keeps_protocol t (managed_bytes env t)"
  "keeps_protocol t (managed_block_count env t)"
  "keeps_protocol t (stats env t)"
  "keeps_protocol t (is_live env t a)"
  unfolding unregister_root_range_def [abs_def] register_weak_ref_def [abs_def] read_weak_ref_def [abs_def]
    unregister_weak_ref_def [abs_def] copy_weak_ref_def [abs_def] update_weak_ref_def [abs_def]
    is_current_thread_registered_def [abs_def] set_collection_threshold_bytes_def [abs_def]
    collection_threshold_bytes_def [abs_def] managed_bytes_def [abs_def] managed_block_count_def [abs_def]
    stats_def [abs_def] is_live_def [abs_def] Let_def
  by (intro keeps_if keeps_return keeps_section; simp add: keeps_control_def split: option.split)+

lemma keeps_safepoint: "keeps_protocol t (safepoint env t)"
  by (rule keeps_protocolI) (auto simp: safepoint_def fin_def intro: good_mono [OF enter_good] entered_kept)

lemma keeps_snapshots:
  "keeps_protocol t (live_objects env t)" "keeps_protocol t (object_info env t a)"
  unfolding live_objects_def object_info_def
  by (auto intro!: keeps_with_stopped_world in_step_describe_blocks [THEN in_step_reads] keeps_return
      calm_bind in_step_describe_block [THEN in_step_reads] split: option.split)

lemma keeps_dump_heap: "keeps_protocol t (dump_heap env t)"
  unfolding dump_heap_def [abs_def]
  by (intro keeps_bind keeps_tables keeps_snapshots keeps_return)

end
