(* ===== verification/Heap_Ownership.thy ===== *)
theory Heap_Ownership
  imports Handshake
begin

text \<open>
  The heap under interleaving. Between its critical sections a call may have blocks of memory
  that belong to it alone: \<open>malloc_internal\<close> before it registers a block, a collection after it has
  detached the dead blocks, \<open>release_unconstructed\<close> after it has unlinked a block. The ghost of the
  judgement \<open>rg\<close> is the set of the addresses of these blocks. Every operation is shown to keep
  the heap invariant and to leave alone what other threads own.
\<close>

section \<open>Ownership\<close>

definition regions_apart :: "(addr \<times> size_t) list \<Rightarrow> bool" where
  "regions_apart rs \<longleftrightarrow> distinct (map fst rs) \<and> (\<forall>r\<in>set rs. snd r \<noteq> 0) \<and>
     (\<forall>r\<in>set rs. \<forall>q\<in>set rs. r \<noteq> q \<longrightarrow>
        unat (fst r) + unat (snd r) \<le> unat (fst q) \<or> unat (fst q) + unat (snd q) \<le> unat (fst r))"

text \<open>Every entry of the weak reference table has a target in a registered block.\<close>

definition weak_live :: "gc_state \<Rightarrow> bool" where
  "weak_live s \<longleftrightarrow> (\<forall>a\<in>wr_target ` set (gc_weak_refs s). \<exists>b\<in>blocks s. br_payload_begin b \<le> a \<and> a < br_payload_end b)"

definition heap_ok :: "gc_state \<Rightarrow> bool" where
  "heap_ok s \<longleftrightarrow> heap_inv s \<and> regions_apart (gc_regions s) \<and> weak_live s"

text \<open>Addresses of allocated memory that is not the memory of a registered block.\<close>

definition owned :: "addr set \<Rightarrow> gc_state \<Rightarrow> bool" where
  "owned g s \<longleftrightarrow> heap_ok s \<and> g \<subseteq> fst ` set (gc_regions s) \<and> g \<inter> br_header ` blocks s = {}"

text \<open>What the owner relies on: the headers keep their contents and the memory stays allocated.\<close>

definition steady :: "addr set \<Rightarrow> gc_state \<Rightarrow> gc_state \<Rightarrow> bool" where
  "steady g s s' \<longleftrightarrow> owned g s' \<and> (\<forall>a\<in>g. same_shape (gc_headers s a) (gc_headers s' a)) \<and>
     (\<forall>r\<in>set (gc_regions s). fst r \<in> g \<longrightarrow> r \<in> set (gc_regions s'))"

text \<open>The guarantee: ownership may move from \<open>g0\<close> to \<open>g\<close>, and all others find their blocks steady.\<close>

definition moves :: "addr set \<Rightarrow> gc_state \<Rightarrow> addr set \<Rightarrow> gc_state \<Rightarrow> bool" where
  "moves g0 s0 g s \<longleftrightarrow> owned g s \<and>
     (\<forall>x. owned x s0 \<longrightarrow> g0 \<inter> x = {} \<longrightarrow> g \<inter> x = {} \<and> steady x s0 s)"

lemma steady_refl: "owned g s \<Longrightarrow> steady g s s"
  by (simp add: steady_def)

lemma steady_trans: "steady g s s' \<Longrightarrow> steady g s' s'' \<Longrightarrow> steady g s s''"
  by (auto simp: steady_def intro: same_shape_trans)

lemma moves_refl: "owned g s \<Longrightarrow> moves g s g s"
  by (simp add: moves_def steady_refl)

lemma moves_trans: "moves g0 s0 g s \<Longrightarrow> moves g s g' s' \<Longrightarrow> moves g0 s0 g' s'"
  unfolding moves_def by (meson steady_def steady_trans)

lemma moves_owned: "moves g0 s0 g s \<Longrightarrow> owned g s"
  by (simp add: moves_def)

lemma owned_heap: "owned g s \<Longrightarrow> heap_inv s"
  by (simp add: owned_def heap_ok_def)

lemma owned_weak: "owned g s \<Longrightarrow> weak_live s"
  by (simp add: owned_def heap_ok_def)

text \<open>What keeps the targets of weak references alive.\<close>

lemma weak_live_mono:
  "weak_live s \<Longrightarrow> wr_target ` set (gc_weak_refs t) \<subseteq> wr_target ` set (gc_weak_refs s) \<Longrightarrow> blocks s \<subseteq> blocks t \<Longrightarrow> weak_live t"
  unfolding weak_live_def by (intro ballI) (drule (1) subsetD, drule (1) bspec, elim bexE, drule (1) subsetD, rule bexI)

lemma weak_live_same:
  "weak_live s \<Longrightarrow> gc_weak_refs t = gc_weak_refs s \<Longrightarrow> gc_allocations t = gc_allocations s \<Longrightarrow> weak_live t"
  by (erule weak_live_mono) (simp_all add: blocks_def)

text \<open>Blocks \<open>D\<close> are removed, with all references into them.\<close>

lemma weak_live_purge:
  assumes "weak_live s" "blocks s - D \<subseteq> blocks t" "set (gc_weak_refs t) \<subseteq> set (gc_weak_refs s)"
    and "\<And>e b. e \<in> set (gc_weak_refs t) \<Longrightarrow> b \<in> blocks s \<Longrightarrow> b \<in> D \<Longrightarrow> \<not> weak_hit (br_payload_begin b) (br_payload_end b) e"
  shows "weak_live t"
  unfolding weak_live_def
proof
  fix a assume "a \<in> wr_target ` set (gc_weak_refs t)"
  then obtain e where e: "e \<in> set (gc_weak_refs t)" "a = wr_target e" by auto
  then obtain b where b: "b \<in> blocks s" "br_payload_begin b \<le> a \<and> a < br_payload_end b"
    using assms(1,3) unfolding weak_live_def by blast
  then have "b \<in> blocks t" using assms(2) assms(4) [OF e(1) b(1)] e(2) by (auto simp: weak_hit_def)
  with b(2) show "\<exists>b\<in>blocks t. br_payload_begin b \<le> a \<and> a < br_payload_end b" by blast
qed

lemma find_block_inside:
  assumes "find_block_locked a s = Some b"
  shows "b \<in> blocks s \<and> br_payload_begin b \<le> a \<and> a < br_payload_end b"
proof -
  let ?m = "gc_allocations s"
  let ?i = "om_upper_bound a ?m"
  have f: "?i \<noteq> 0" "snd (?m ! (?i - 1)) = b" "br_payload_begin b \<le> a \<and> a < br_payload_end b"
    using assms by (auto simp: find_block_locked_def om_floor_def Let_def split: if_splits option.splits prod.splits)
  have "?i \<le> length ?m" by (simp add: om_upper_bound_def length_takeWhile_le)
  then have "?m ! (?i - 1) \<in> set ?m" using f(1) by (intro nth_mem) simp
  then have "b \<in> blocks s" using f(2) unfolding blocks_def by (force intro: rev_image_eqI)
  with f(3) show ?thesis by simp
qed

lemma weak_targets:
  "wr_target ` set (weak_remove st es) \<subseteq> wr_target ` set es" "wr_target ` set (weak_move st st' es) \<subseteq> wr_target ` set es"
  "wr_target ` set (weak_add a st es) = insert a (wr_target ` set es)"
  "weak_lookup st es = Some a \<Longrightarrow> a \<in> wr_target ` set es"
proof -
  let ?i = "weak_index st es"
  have "set (butlast (es[?i := last es])) \<subseteq> set es" if "?i < length es"
  proof -
    have "last es \<in> set es" using that by (intro last_in_set) auto
    then have "set (es[?i := last es]) \<subseteq> set es" by (rule set_update_subsetI [OF subset_refl])
    then show ?thesis by (auto dest: in_set_butlastD)
  qed
  then show "wr_target ` set (weak_remove st es) \<subseteq> wr_target ` set es" unfolding weak_remove_def Let_def by auto
  show "wr_target ` set (weak_move st st' es) \<subseteq> wr_target ` set es"
  proof (cases "?i < length es")
    case True
    have "wr_target ` set (es[?i := (es ! ?i)\<lparr>wr_storage := st'\<rparr>]) \<subseteq> insert (wr_target (es ! ?i)) (wr_target ` set es)"
      using set_update_subset_insert [of es ?i "(es ! ?i)\<lparr>wr_storage := st'\<rparr>"] by auto
    then show ?thesis using True by (auto simp: weak_move_def Let_def)
  qed (simp add: weak_move_def Let_def)
  show "weak_lookup st es = Some a \<Longrightarrow> a \<in> wr_target ` set es" by (auto simp: weak_lookup_def Let_def split: if_splits)
qed (simp add: weak_add_def)

lemma owned_subset: "owned g s \<Longrightarrow> h \<subseteq> g \<Longrightarrow> owned h s"
  by (auto simp: owned_def)

interpretation heap: protocol "\<lambda>_ :: tid. moves" "\<lambda>_. steady" "\<lambda>_ _ _ _. True" "\<lambda>_ g _. g = {}" owned
    "\<lambda>g x. g \<inter> x = {}"
proof unfold_locales
  show "steady x s s''" if "steady x s s'" "steady x s' s''" for x s s' s''
    using that by (rule steady_trans)
qed (auto simp: moves_def steady_refl steady_def)

lemma weak_live_frame [simp]:
  "weak_live (s\<lparr>gc_mem := m\<rparr>) = weak_live s" "weak_live (s\<lparr>gc_threads := x\<rparr>) = weak_live s"
  "weak_live (s\<lparr>gc_root_ranges := r\<rparr>) = weak_live s" "weak_live (s\<lparr>gc_collection_threshold_bytes := n\<rparr>) = weak_live s"
  by (simp_all add: weak_live_def blocks_def)

lemma weak_live_refs:
  "weak_live s \<Longrightarrow> weak_live (s\<lparr>gc_weak_refs := weak_remove st (gc_weak_refs s)\<rparr>)"
  "weak_live s \<Longrightarrow> weak_live (s\<lparr>gc_mem := m, gc_weak_refs := weak_move st st' (gc_weak_refs s)\<rparr>)"
  "weak_live s \<Longrightarrow> find_block_locked a s = Some b \<Longrightarrow> weak_live (s\<lparr>gc_weak_refs := weak_add a st (gc_weak_refs s)\<rparr>)"
  "weak_live s \<Longrightarrow> weak_lookup st (gc_weak_refs s) = Some a \<Longrightarrow>
   weak_live (s\<lparr>gc_weak_refs := weak_add a st' (gc_weak_refs s)\<rparr>)"
proof -
  assume w: "weak_live s"
  show "weak_live (s\<lparr>gc_weak_refs := weak_remove st (gc_weak_refs s)\<rparr>)"
    "weak_live (s\<lparr>gc_mem := m, gc_weak_refs := weak_move st st' (gc_weak_refs s)\<rparr>)"
    by (rule weak_live_mono [OF w]; simp add: weak_targets blocks_def)+
  have add: "weak_live (s\<lparr>gc_weak_refs := weak_add a x (gc_weak_refs s)\<rparr>)"
    if "\<exists>b\<in>blocks s. br_payload_begin b \<le> a \<and> a < br_payload_end b" for x
    using w that by (simp add: weak_live_def weak_add_def blocks_def)
  show "find_block_locked a s = Some b \<Longrightarrow> weak_live (s\<lparr>gc_weak_refs := weak_add a st (gc_weak_refs s)\<rparr>)"
    by (rule add) (auto dest: find_block_inside)
  show "weak_lookup st (gc_weak_refs s) = Some a \<Longrightarrow> weak_live (s\<lparr>gc_weak_refs := weak_add a st' (gc_weak_refs s)\<rparr>)"
    by (rule add, drule weak_targets(4)) (erule bspec [OF w [unfolded weak_live_def]])
qed

section \<open>Steps of a program\<close>

text \<open>The part of the state the heap invariant reads is unchanged.\<close>

definition heap_same :: "gc_state \<Rightarrow> gc_state \<Rightarrow> bool" where
  "heap_same s s' \<longleftrightarrow>
     gc_headers s' = gc_headers s \<and> gc_allocations s' = gc_allocations s \<and> gc_regions s' = gc_regions s \<and>
     gc_managed_bytes s' = gc_managed_bytes s \<and> gc_reserved_bytes s' = gc_reserved_bytes s \<and>
     (weak_live s \<longrightarrow> weak_live s')"

lemma heap_same_refl [simp]: "heap_same s s"
  by (simp add: heap_same_def)

lemma heap_same_refs:
  "gc_headers s' = gc_headers s \<Longrightarrow> gc_allocations s' = gc_allocations s \<Longrightarrow> gc_regions s' = gc_regions s \<Longrightarrow>
   gc_managed_bytes s' = gc_managed_bytes s \<Longrightarrow> gc_reserved_bytes s' = gc_reserved_bytes s \<Longrightarrow>
   gc_weak_refs s' = gc_weak_refs s \<Longrightarrow> heap_same s s'"
  by (simp add: heap_same_def weak_live_same)

lemma heap_same_owned: "heap_same s s' \<Longrightarrow> owned g s \<Longrightarrow> owned g s'"
  using heap_inv_tables [of s' s] by (simp add: heap_same_def owned_def heap_ok_def blocks_def)

lemma heap_same_moves: "moves g0 s0 g s \<Longrightarrow> heap_same s s' \<Longrightarrow> moves g0 s0 g s'"
proof (rule moves_trans)
  assume m: "moves g0 s0 g s" and h: "heap_same s s'"
  have "steady x s s'" if "owned x s" for x
    using that h by (simp add: steady_def heap_same_owned) (simp add: heap_same_def)
  then show "moves g s g s'" using m h by (simp add: moves_def heap_same_owned)
qed

abbreviation heaped ::
    "('a \<Rightarrow> (addr set, gc_state) step_post) \<Rightarrow> (gc_exn \<Rightarrow> (addr set, gc_state) step_post) \<Rightarrow>
     addr set \<Rightarrow> gc_state \<Rightarrow> (gc_state, 'a) prog \<times> gc_state \<Rightarrow> bool" where
  "heaped \<equiv> rg moves steady (\<lambda>_ _ _. True)"

definition tidy :: "'a gc \<Rightarrow> bool" where
  "tidy m \<longleftrightarrow> (\<forall>g0 s0 g s. moves g0 s0 g s \<longrightarrow>
     heaped (\<lambda>_ g0 s0 s'. moves g0 s0 g s') (\<lambda>_ g0 s0 s'. moves g0 s0 g s') g0 s0 (m s))"

lemma tidyI:
  "(\<And>g0 s0 g s. moves g0 s0 g s \<Longrightarrow>
     heaped (\<lambda>_ g0 s0 s'. moves g0 s0 g s') (\<lambda>_ g0 s0 s'. moves g0 s0 g s') g0 s0 (m s)) \<Longrightarrow> tidy m"
  by (simp add: tidy_def)

lemma tidyD:
  "tidy m \<Longrightarrow> moves g0 s0 g s \<Longrightarrow>
   heaped (\<lambda>_ g0 s0 s'. moves g0 s0 g s') (\<lambda>_ g0 s0 s'. moves g0 s0 g s') g0 s0 (m s)"
  by (simp add: tidy_def)

lemma tidy_return: "tidy (\<lambda>s. (Return x, s))" "tidy (\<lambda>s. (Throw e, s))"
  by (simp_all add: tidy_def)

lemma tidy_if: "tidy a \<Longrightarrow> tidy b \<Longrightarrow> tidy (\<lambda>s. if c then a s else b s)"
  by (cases c) simp_all

lemma tidy_bind: "tidy m \<Longrightarrow> (\<And>x. tidy (f x)) \<Longrightarrow> tidy (\<lambda>s. bindp (m s) f)"
  by (rule tidyI, rule rg_seq, erule (1) tidyD) (rule tidyD)

lemma heaped_wait:
  assumes "moves g0 s0 g s" "\<And>s1. owned g s1 \<Longrightarrow> steady g s s1 \<Longrightarrow> heaped Q E g s1 (k s1)"
  shows "heaped Q E g0 s0 (Wait p k, s)"
  using assms by (auto simp: steady_def)

text \<open>After a wait the ghost is what it was, and what it covers has been steady since \<open>s\<close>.\<close>

definition after :: "addr set \<Rightarrow> gc_state \<Rightarrow> (addr set, gc_state) step_post" where
  "after g s g0 s0 s' \<longleftrightarrow> moves g0 s0 g s' \<and> steady g s s'"

lemma after_moves: "after g s g0 s0 s' \<Longrightarrow> moves g0 s0 g s'"
  by (simp add: after_def)

lemma after_start: "moves g0 s0 g s \<Longrightarrow> after g s g0 s0 s"
  by (simp add: after_def steady_refl moves_owned)

lemma after_same: "after g s g0 s0 s' \<Longrightarrow> heap_same s' s'' \<Longrightarrow> after g s g0 s0 s''"
  using heap_same_moves [of g0 s0 g s' s'']
  by (auto simp: after_def steady_def moves_owned) (simp_all add: heap_same_def)

lemma heaped_wait_return:
  assumes "after g s g0 s0 s'"
  shows "heaped (\<lambda>_. after g s) E g0 s0 (Wait p (\<lambda>t. (Return (), t)), s')"
  by (rule heaped_wait [OF after_moves [OF assms]])
    (use assms in \<open>auto simp: after_def moves_refl intro: steady_trans\<close>)

lemma cv_wait_heaped: "after g s g0 s0 s' \<Longrightarrow> heaped (\<lambda>_. after g s) E g0 s0 (cv_wait p s')"
  using heaped_wait_return [of g s g0 s0 s' E p] by (simp add: cv_wait_def)

lemma lock_heaped:
  "after g s g0 s0 s' \<Longrightarrow> heaped (\<lambda>_. after g s) E g0 s0 (lock_mutex s')"
  "after g s g0 s0 s' \<Longrightarrow> heaped (\<lambda>_. after g s) E g0 s0 (leave s')"
  unfolding lock_mutex_def leave_def by (rule heaped_wait_return, assumption)+

lemma heap_same_park: "heap_same s (park_thread env t s)" "heap_same s (unpark_thread t s)"
    "heap_same s (request_stop t s)"
  by (simp_all add: heap_same_refs park_thread_def unpark_thread_def request_stop_def)

lemma cooperate_heaped:
  assumes "after g s g0 s0 s'"
  shows "heaped (\<lambda>_. after g s) E g0 s0 (cooperate_with_stop_the_world_locked env t s')"
proof -
  have park: "heaped (\<lambda>_. after g s) E g0 s0
      (bindp (cv_wait (\<lambda>s. \<not> gc_stop_the_world_requested s) (park_thread env t s')) (\<lambda>_ s. (Return (), unpark_thread t s)))"
    if "after g s g0 s0 s'" for g0 s0 s'
    by (rule rg_seq, rule cv_wait_heaped, rule after_same [OF that heap_same_park(1)])
      (simp add: after_same [OF _ heap_same_park(2)])
  show ?thesis
    unfolding cooperate_with_stop_the_world_locked_def
    by (auto intro: assms cv_wait_heaped park intro!: rg_seq [OF lock_heaped(1) [OF assms]])
qed

lemma enter_heaped:
  "moves g0 s0 g s \<Longrightarrow> heaped (\<lambda>_. after g s) E g0 s0 (enter env t s)"
  unfolding enter_def by (rule rg_seq [OF lock_heaped(1)]) (auto intro: cooperate_heaped after_start)

lemma heaped_step:
  assumes "moves g0 s0 g s" "in_step heap_same s m"
  shows "heaped (\<lambda>_ g0 s0 s'. moves g0 s0 g s') (\<lambda>_ g0 s0 s'. moves g0 s0 g s') g0 s0 m"
  using assms(2) by (rule in_step_rg) (rule heap_same_moves [OF assms(1)], assumption)+

text \<open>A section under the mutex.\<close>

lemma tidy_entering:
  assumes "\<And>g0 s0 g s. moves g0 s0 g s \<Longrightarrow>
    heaped (\<lambda>_ g0 s0 s'. moves g0 s0 g s') (\<lambda>_ g0 s0 s'. moves g0 s0 g s') g0 s0 (f () s)"
  shows "tidy (\<lambda>s. bindp (enter env t s) f)"
  by (rule tidyI, rule rg_seq, erule enter_heaped) (simp add: assms after_moves)

lemma tidy_section: "(\<And>s. in_step heap_same s (f () s)) \<Longrightarrow> tidy (\<lambda>s. bindp (enter env t s) f)"
  by (rule tidy_entering) (rule heaped_step)

section \<open>How ownership moves\<close>

text \<open>Blocks \<open>d\<close> leave the allocation map and belong to the thread that took them out.\<close>

lemma moves_detach:
  assumes o: "owned g s" and inv: "heap_inv s'" "weak_live s'" and reg: "gc_regions s' = gc_regions s"
    and shape: "\<And>a. same_shape (gc_headers s a) (gc_headers s' a)"
    and d: "d \<subseteq> br_header ` blocks s" "br_header ` blocks s' \<subseteq> br_header ` blocks s - d"
  shows "moves g s (g \<union> d) s'"
proof -
  have "br_header ` blocks s \<subseteq> fst ` set (gc_regions s)"
    using owned_heap [OF o]
    by (force simp: heap_inv_def regions_ok_def list_all_iff blocks_def intro: rev_image_eqI)
  moreover have "heap_ok s'" using o inv reg by (simp add: owned_def heap_ok_def)
  moreover have "(x \<union> d) \<inter> br_header ` blocks s' = {}" if "owned x s" for x
    using that d(2) unfolding owned_def by blast
  ultimately have all: "owned (x \<union> d) s'" if "owned x s" for x
    using that d(1) reg unfolding owned_def by auto
  have "owned (g \<union> d) s'" "\<And>x. owned x s \<Longrightarrow> owned x s'"
    using all [OF o] by (auto intro: owned_subset [OF all])
  moreover have "x \<inter> d = {}" if "owned x s" for x using that d(1) by (auto simp: owned_def)
  ultimately show ?thesis using shape reg by (auto simp: moves_def steady_def)
qed

lemma moves_shape:
  assumes "owned g s" "heap_inv s'" "weak_live s'" "gc_regions s' = gc_regions s"
    "\<And>a. same_shape (gc_headers s a) (gc_headers s' a)" "br_header ` blocks s' \<subseteq> br_header ` blocks s"
  shows "moves g s g s'"
  using moves_detach [OF assms(1-5), of "{}"] assms(6) by simp

lemma moves_marks: "owned g s \<Longrightarrow> marks_only s s' \<Longrightarrow> moves g s g s'"
  by (rule moves_shape [OF _ _ weak_live_same [OF owned_weak]]) (auto simp: owned_heap heap_inv_marks_only marks_only_sel marks_only_shape marks_only_blocks)

text \<open>Owned memory is freed.\<close>

lemma regions_apart_filter: "regions_apart rs \<Longrightarrow> regions_apart (filter P rs)"
  by (auto simp: regions_apart_def distinct_map inj_on_def)

lemma moves_free:
  assumes o: "owned (g \<union> set hs) s" and ap: "g \<inter> set hs = {}"
  shows "moves (g \<union> set hs) s g (fold free_block_memory hs s)"
proof -
  let ?s = "fold free_block_memory hs s"
  obtain es where s': "?s = s\<lparr>gc_regions := filter (\<lambda>r. fst r \<notin> set hs) (gc_regions s), gc_events := es\<rparr>"
    using fold_free [of hs s] by blast
  have "heap_inv ?s"
    unfolding s'
  proof (rule heap_inv_free [OF owned_heap [OF o]], rule ballI, rule notI)
    fix p assume p: "p \<in> set (gc_allocations s)" "br_header (snd p) \<in> set hs"
    then have "br_header (snd p) \<in> br_header ` blocks s" by (simp add: blocks_def)
    with o p(2) show False by (auto simp: owned_def)
  qed
  moreover have "regions_apart (gc_regions ?s)"
    using o by (simp add: s' owned_def heap_ok_def regions_apart_filter)
  moreover have "weak_live ?s" by (rule weak_live_same [OF owned_weak [OF o]]) (simp_all add: s')
  ultimately have "owned x ?s" if "owned x s" "x \<inter> set hs = {}" for x
    using that by (auto simp: owned_def heap_ok_def s' blocks_def)
  moreover have "owned g s" using o by (rule owned_subset) simp
  ultimately show ?thesis using ap by (auto simp: moves_def steady_def) (auto simp: s')
qed

text \<open>Memory is allocated.\<close>

lemma fresh_region:
  assumes "regions_apart rs" "region_free rs a n" "n \<noteq> 0"
  shows "a \<notin> fst ` set rs" "regions_apart ((a, n) # rs)"
proof -
  have n: "0 < unat n" using assms(3) by (simp add: unat_gt_0)
  show "a \<notin> fst ` set rs"
  proof
    assume "a \<in> fst ` set rs"
    then obtain m where m: "(a, m) \<in> set rs" by auto
    then have "m \<noteq> 0" using assms(1) by (auto simp: regions_apart_def)
    then have "0 < unat m" by (simp add: unat_gt_0)
    then show False using assms(2) m n by (force simp: region_free_def list_all_iff)
  qed
  then show "regions_apart ((a, n) # rs)"
    using assms by (auto simp: regions_apart_def region_free_def list_all_iff)
qed

lemma moves_alloc:
  assumes o: "owned g s" and free: "region_free (gc_regions s) a n" "n \<noteq> 0"
  shows "moves g s (insert a g) (s\<lparr>gc_regions := (a, n) # gc_regions s\<rparr>)"
proof -
  let ?s = "s\<lparr>gc_regions := (a, n) # gc_regions s\<rparr>"
  have r: "regions_apart (gc_regions s)" using o by (simp add: owned_def heap_ok_def)
  note fr = fresh_region [OF r free]
  have "heap_inv ?s" by (rule heap_inv_extend [OF owned_heap [OF o]]) auto
  then have "heap_ok ?s" using fr(2) weak_live_same [OF owned_weak [OF o], of ?s] by (simp add: heap_ok_def)
  moreover have "br_header ` blocks s \<subseteq> fst ` set (gc_regions s)"
    using owned_heap [OF o]
    by (force simp: heap_inv_def regions_ok_def list_all_iff blocks_def intro: rev_image_eqI)
  then have "a \<notin> br_header ` blocks s" using fr(1) by blast
  ultimately have "owned (insert a x) ?s" "owned x ?s" "a \<notin> x" if "owned x s" for x
    using that fr(1) by (auto simp: owned_def blocks_def)
  then show ?thesis using o by (auto simp: moves_def steady_def)
qed

text \<open>An owned header is written.\<close>

lemma moves_header:
  assumes o: "owned g s" "raw \<in> g"
  shows "moves g s g (init_header raw n d off al s)"
proof -
  let ?s = "init_header raw n d off al s"
  have s': "gc_allocations ?s = gc_allocations s" "gc_regions ?s = gc_regions s" "gc_weak_refs ?s = gc_weak_refs s"
    "gc_managed_bytes ?s = gc_managed_bytes s" "gc_reserved_bytes ?s = gc_reserved_bytes s"
    "\<And>a. a \<noteq> raw \<Longrightarrow> gc_headers ?s a = gc_headers s a"
    by (simp_all add: init_header_def Let_def)
  have "raw \<notin> br_header ` blocks s" using o by (auto simp: owned_def)
  then have "heap_inv ?s"
    by (intro heap_inv_extend [OF owned_heap [OF o(1)]]) (auto simp: s' blocks_def intro!: s'(6))
  then have "owned x ?s" if "owned x s" for x
    using that weak_live_same [OF owned_weak [OF that] s'(3,1)] by (simp add: owned_def heap_ok_def s' blocks_def)
  moreover have "gc_headers ?s a = gc_headers s a" if "a \<in> x" "g \<inter> x = {}" for a x
    using that o(2) by (intro s'(6)) auto
  ultimately show ?thesis using o(1) by (simp add: moves_def steady_def s')
qed

text \<open>An owned block is registered.\<close>

definition fresh_block :: "gc_state \<Rightarrow> addr \<Rightarrow> size_t \<Rightarrow> size_t \<Rightarrow> bool" where
  "fresh_block s raw off n \<longleftrightarrow>
     (let h = gc_headers s raw in
      ch_size h = n \<and> ch_payload_offset h = ucast off \<and> ch_magic_number h = kChunkMagicNumber) \<and>
     32 \<le> unat off \<and> unat off \<le> 65535 \<and> n \<noteq> 0 \<and> unat raw + unat off + unat n \<le> 2 ^ 63 \<and>
     (raw, off + n) \<in> set (gc_regions s)"

lemma fresh_block_steady: "fresh_block s raw off n \<Longrightarrow> steady g s s' \<Longrightarrow> raw \<in> g \<Longrightarrow> fresh_block s' raw off n"
  by (auto simp: fresh_block_def steady_def same_shape_def Let_def dest!: bspec)

lemma fresh_raw_block:
  assumes o: "owned g s" "raw \<in> g" and f: "fresh_block s raw off n"
  shows "raw_block s raw off n"
proof -
  have inv: "heap_inv s" using o(1) by (rule owned_heap)
  have "unat (br_payload_end (snd p)) \<le> unat raw \<or> unat raw + unat off + unat n \<le> unat (br_header (snd p))"
    if p: "p \<in> set (gc_allocations s)" for p
  proof -
    let ?r = "(br_header (snd p), block_allocation_size (header_of s (snd p)))"
    have "?r \<in> set (gc_regions s)" using inv p by (auto simp: heap_inv_def regions_ok_def list_all_iff)
    moreover have "br_header (snd p) \<noteq> raw" using o p by (auto simp: owned_def blocks_def)
    moreover have "regions_apart (gc_regions s)" using o(1) by (simp add: owned_def heap_ok_def)
    moreover have "(raw, off + n) \<in> set (gc_regions s)" using f by (simp add: fresh_block_def)
    ultimately have "unat (fst ?r) + unat (snd ?r) \<le> unat raw \<or> unat raw + unat (off + n) \<le> unat (fst ?r)"
      unfolding regions_apart_def by fastforce
    moreover have "unat (off + n) = unat off + unat n"
      using f by (simp add: fresh_block_def unat_word_ariths)
    moreover have "block_ok (gc_headers s) p" using inv p by (simp add: heap_inv_def index_inv_block_ok)
    ultimately show ?thesis using block_region [of s p] by (simp add: add.assoc)
  qed
  with f show ?thesis by (simp add: fresh_block_def raw_block_def)
qed

lemma moves_publish:
  assumes o: "owned (insert raw g) s" "raw \<notin> g" and raw: "raw_block s raw off n"
    and t: "registered_state raw off n c s t"
    and ov: "\<not> add_would_overflow (gc_managed_bytes s) n" "\<not> add_would_overflow (gc_reserved_bytes s) (off + n)"
  shows "moves (insert raw g) s g t"
proof -
  have inv: "heap_inv t" using registered_inv [OF owned_heap [OF o(1)] raw ov t] .
  have s': "gc_regions t = gc_regions s" "gc_headers t = gc_headers s"
    using t by (simp_all add: registered_state_def)
  have "br_header ` blocks t \<subseteq> insert raw (br_header ` blocks s)"
    using t set_om_emplace_subset [of "raw + off" "block_at raw off n c" "gc_allocations s"]
    by (auto simp: blocks_def registered_state_def block_at_def dest!: subsetD)
  moreover have "gc_weak_refs t = gc_weak_refs s" "gc_allocations t = om_emplace (raw + off) (block_at raw off n c) (gc_allocations s)"
    using t by (simp_all add: registered_state_def)
  then have "weak_live t"
    using raw_block_key [OF _ raw] owned_heap [OF o(1)]
    by (intro weak_live_mono [OF owned_weak [OF o(1)]]) (auto simp: blocks_def set_om_emplace index_inv_om_wf heap_inv_def)
  ultimately have "owned x t" if "owned x s" "raw \<notin> x" for x
    using that inv by (auto simp: owned_def heap_ok_def s')
  moreover have "owned g s" using o(1) by (rule owned_subset) auto
  ultimately show ?thesis using o(2) by (auto simp: moves_def steady_def s')
qed

section \<open>The operations keep the heap in order\<close>

text \<open>What is asked of finalizers: whatever they call keeps the heap invariant and others' blocks.\<close>

definition finalizers_tidy :: "gc_env \<Rightarrow> bool" where
  "finalizers_tidy env \<longleftrightarrow> (\<forall>d p g0 s0 g s. moves g0 s0 g s \<longrightarrow>
     heaped (\<lambda>_ g0 s0 s'. moves g0 s0 g s') (\<lambda>_ _ _ _. True) g0 s0 (e_finalize env d p s))"

lemma run_finalizers_heaped:
  assumes "finalizers_tidy env"
  shows "moves g0 s0 g s \<Longrightarrow> heaped (\<lambda>_ g0 s0 s'. moves g0 s0 g s') E g0 s0 (run_finalizers env hs s)"
proof (induction hs arbitrary: g0 s0 s)
  case (Cons h hs)
  show ?case
  proof (cases "h = 0 \<or> ch_destructor (gc_headers s h) = None")
    case True
    then show ?thesis using Cons by auto
  next
    case False
    then obtain d where d: "h \<noteq> 0" "ch_destructor (gc_headers s h) = Some d" by auto
    let ?s = "s\<lparr>gc_events := gc_events s @ [Finalized d (payload_pointer h s)]\<rparr>"
    have "moves g0 s0 g ?s" by (rule heap_same_moves [OF Cons.prems]) (simp add: heap_same_refs)
    with assms have "heaped (\<lambda>_ g0 s0 s'. moves g0 s0 g s') (\<lambda>_ _ _ _. True) g0 s0
        (e_finalize env d (payload_pointer h s) ?s)" unfolding finalizers_tidy_def by blast
    then have "heaped (\<lambda>_ g0 s0 s'. moves g0 s0 g s') E g0 s0
        (bindp (catchp (e_finalize env d (payload_pointer h s) ?s) (\<lambda>_ s. (Terminate, s)))
          (\<lambda>_ s. run_finalizers env hs s))"
      by (intro rg_seq [OF rg_try [where T = "\<lambda>_ _ _ _. True"]] Cons.IH) simp_all
    with d show ?thesis by (simp add: Let_def)
  qed
qed simp

lemma destroy_blocks_heaped:
  assumes "finalizers_tidy env" "moves g0 s0 (g \<union> set hs) s" "g \<inter> set hs = {}"
  shows "heaped (\<lambda>_ g0 s0 s'. moves g0 s0 g s') E g0 s0 (destroy_blocks env hs s)"
  unfolding destroy_blocks_def
  by (rule rg_seq [OF run_finalizers_heaped [OF assms(1,2)]])
    (auto intro: moves_trans moves_free [OF _ assms(3)] dest: moves_owned)

lemma release_heaped:
  "moves g0 s0 g s \<Longrightarrow> heaped (\<lambda>_ g0 s0 s'. moves g0 s0 g s') E g0 s0 (release_stop_the_world s)"
  unfolding release_stop_the_world_def
  by (rule rg_seq [OF lock_heaped(1) [OF after_start]])
    (auto simp: heap_same_refs dest!: after_moves elim: heap_same_moves)

lemma rethrow_heaped:
  "moves g0 s0 g s \<Longrightarrow> heaped Q (\<lambda>_ g0 s0 s'. moves g0 s0 g s') g0 s0 (release_and_rethrow x s)"
  unfolding release_and_rethrow_def by (rule rg_seq [OF release_heaped]) auto

text \<open>A body that detaches blocks and returns their headers.\<close>

definition detaches :: "addr list gc \<Rightarrow> bool" where
  "detaches body \<longleftrightarrow> (\<forall>g0 s0 g s. moves g0 s0 g s \<longrightarrow>
     heaped (\<lambda>hs g0 s0 s'. g \<inter> set hs = {} \<and> moves g0 s0 (g \<union> set hs) s') (\<lambda>_ g0 s0 s'. moves g0 s0 g s')
       g0 s0 (body s))"

lemma detaches_collect: "detaches (collect_locked env c)"
  unfolding detaches_def
proof (intro allI impI)
  fix g0 s0 g s assume m: "moves g0 s0 g s"
  have o: "owned g s" using m by (rule moves_owned)
  then have inv: "heap_inv s" by (rule owned_heap)
  then have i: "index_inv s" by (simp add: heap_inv_def)
  show "heaped (\<lambda>hs g0 s0 s'. g \<inter> set hs = {} \<and> moves g0 s0 (g \<union> set hs) s') (\<lambda>_ g0 s0 s'. moves g0 s0 g s')
       g0 s0 (collect_locked env c s)"
  proof (cases rule: collect_locked_cases [OF inv, of env c])
    case (1 t)
    then show ?thesis using moves_trans [OF m moves_marks [OF o]] by simp
  next
    case (2 hs u)
    let ?t = "record_collection env hs (swept u)"
    note al = swept_marked_allocations [OF i 2(2,3)]
    have hs: "set hs = br_header ` snd ` {p \<in> set (gc_allocations s). snd p \<notin> reachable env c s}"
      using mset_eq_setD [OF 2(4)] by (auto simp: unreachable_headers_def)
    have "heap_inv (swept u)" by (intro swept_heap_inv heap_inv_marks_only [OF 2(2) inv])
    then have t: "heap_inv ?t" using heap_inv_tables [of ?t "swept u"] by simp
    have dead: "\<not> weak_hit (br_payload_begin b) (br_payload_end b) e"
      if "e \<in> set (gc_weak_refs ?t)" "b \<in> blocks s" "b \<in> - reachable env c s" for e b
    proof -
      have ui: "gc_allocations u = gc_allocations s" using marks_only_sel [OF 2(2)] by simp
      have "b \<notin> marked_blocks u" using that(3) 2(3) by simp
      then have "\<exists>k. (k, b) \<in> set (unmarked_entries u)"
        using that(2) by (auto simp: unmarked_entries_def blocks_def marked_blocks_def ui)
      moreover have "\<not> dead_hit (unmarked_entries u) e" using that(1) by (simp add: swept_weak_refs)
      ultimately show ?thesis by (force simp: dead_hit_def list_ex_iff)
    qed
    have w: "weak_live ?t"
    proof (rule weak_live_purge [where D = "- reachable env c s", OF owned_weak [OF o] _ _ dead])
      show "blocks s - - reachable env c s \<subseteq> blocks ?t" by (auto simp: blocks_def al)
      show "set (gc_weak_refs ?t) \<subseteq> set (gc_weak_refs s)" using marks_only_sel [OF 2(2)] by (auto simp: swept_weak_refs)
    qed
    have "moves g s (g \<union> set hs) ?t"
    proof (rule moves_detach [OF o t w])
      show "gc_regions ?t = gc_regions s" using marks_only_sel [OF 2(2)] by simp
      show "same_shape (gc_headers s a) (gc_headers ?t a)" for a
        using same_shape_trans [OF marks_only_shape [OF 2(2)] swept_shape] by simp
      show "set hs \<subseteq> br_header ` blocks s" by (auto simp: hs blocks_def)
      show "br_header ` blocks ?t \<subseteq> br_header ` blocks s - set hs"
        using unreachable_headers_apart [OF i 2(4)] by (auto simp: blocks_def al)
    qed
    moreover have "g \<inter> set hs = {}" using o by (auto simp: hs owned_def blocks_def)
    ultimately show ?thesis using 2(1) moves_trans [OF m] by simp
  qed
qed

lemma detaches_shutdown: "detaches (shutdown_locked env)"
  unfolding detaches_def
proof (intro allI impI)
  fix g0 s0 g s assume m: "moves g0 s0 g s"
  have o: "owned g s" using m by (rule moves_owned)
  then have i: "index_inv s" by (auto simp: heap_inv_def dest: owned_heap)
  show "heaped (\<lambda>hs g0 s0 s'. g \<inter> set hs = {} \<and> moves g0 s0 (g \<union> set hs) s') (\<lambda>_ g0 s0 s'. moves g0 s0 g s')
       g0 s0 (shutdown_locked env s)"
  proof (cases "list_ex (\<lambda>p. br_constructing (snd p)) (gc_allocations s)")
    case True
    then show ?thesis using m by (simp add: shutdown_locked_def)
  next
    case False
    show ?thesis
    proof (cases rule: detach_all_cases [OF i, of env])
      case 1
      then show ?thesis using False m by (simp add: shutdown_locked_def)
    next
      case (2 hs)
      let ?t = "s\<lparr>gc_allocations := [], gc_managed_bytes := 0, gc_reserved_bytes := 0,
          gc_mem := zero_storages (filter (\<lambda>st. st \<noteq> 0) (map wr_storage (gc_weak_refs s))) (gc_mem s),
          gc_weak_refs := [], gc_stats := new_GCStats\<rparr>"
      have hs: "set hs = br_header ` blocks s" using mset_eq_setD [OF 2(2)] by (auto simp: blocks_def)
      have "moves g s (g \<union> set hs) ?t"
        by (rule moves_detach [OF o]) (auto simp: hs weak_live_def blocks_def heap_inv_def index_inv_def blocks_apart_def
            accounting_def regions_ok_def)
      moreover have "g \<inter> set hs = {}" using o by (simp add: hs owned_def)
      moreover have "shutdown_locked env s = (Return hs, ?t)" using False 2(1) by (simp add: shutdown_locked_def)
      ultimately show ?thesis using moves_trans [OF m] by simp
    qed
  qed
qed

lemma stop_and_destroy_heaped:
  assumes f: "finalizers_tidy env" and b: "detaches body" and m: "moves g0 s0 g s"
  shows "heaped (\<lambda>_ g0 s0 s'. moves g0 s0 g s') (\<lambda>_ g0 s0 s'. moves g0 s0 g s') g0 s0
    (bindp (catchp (bindp (wait_for_other_threads_to_pause_locked t (request_stop t s)) (\<lambda>_ s. body s))
        release_and_rethrow)
      (\<lambda>hs s. bindp (leave s) (\<lambda>_ s. bindp (destroy_blocks env hs s) (\<lambda>_ s. release_stop_the_world s))))"
proof (rule rg_seq, rule rg_try)
  show "heaped (\<lambda>hs g0 s0 s'. g \<inter> set hs = {} \<and> moves g0 s0 (g \<union> set hs) s') (\<lambda>_ g0 s0 s'. moves g0 s0 g s') g0 s0
    (bindp (wait_for_other_threads_to_pause_locked t (request_stop t s)) (\<lambda>_ s. body s))"
    unfolding wait_for_other_threads_to_pause_locked_def
    by (rule rg_seq [OF cv_wait_heaped [OF after_start [OF heap_same_moves [OF m heap_same_park(3)]]]])
      (use b in \<open>simp add: detaches_def after_moves\<close>)
  show "heaped (\<lambda>hs g0 s0 s'. g \<inter> set hs = {} \<and> moves g0 s0 (g \<union> set hs) s') (\<lambda>_ g0 s0 s'. moves g0 s0 g s')
      g1 s1 (release_and_rethrow e s2)" if "moves g1 s1 g s2" for e g1 s1 s2
    by (rule rethrow_heaped [OF that])
  show "heaped (\<lambda>_ g0 s0 s'. moves g0 s0 g s') (\<lambda>_ g0 s0 s'. moves g0 s0 g s') g1 s1
      (bindp (leave s2) (\<lambda>_ s. bindp (destroy_blocks env hs s) (\<lambda>_ s. release_stop_the_world s)))"
    if "g \<inter> set hs = {} \<and> moves g1 s1 (g \<union> set hs) s2" for hs g1 s1 s2
    using that by (auto intro!: rg_seq [OF lock_heaped(2) [OF after_start]] dest!: after_moves intro: rg_seq [OF destroy_blocks_heaped [OF f]] release_heaped)
qed

lemma require_heaped:
  "moves g0 s0 g s \<Longrightarrow> (heaped Q (\<lambda>_ g0 s0 s'. moves g0 s0 g s') g0 s0 (f () s)) \<Longrightarrow>
   heaped Q (\<lambda>_ g0 s0 s'. moves g0 s0 g s') g0 s0 (bindp (require_registered_thread_locked t s) f)"
  by (simp add: require_registered_thread_locked_def)

lemma tidy_collect: "finalizers_tidy env \<Longrightarrow> tidy (collect env t)"
  unfolding collect_def [abs_def]
  by (intro tidy_entering) (auto intro: require_heaped stop_and_destroy_heaped detaches_collect)

lemma tidy_shutdown: "finalizers_tidy env \<Longrightarrow> tidy (shutdown env t)"
  unfolding shutdown_def [abs_def]
  by (intro tidy_entering) (auto intro: stop_and_destroy_heaped detaches_shutdown)

lemma heaped_leave:
  assumes "moves g0 s0 g s" "\<And>s1. moves g s1 g s1 \<Longrightarrow> steady g s s1 \<Longrightarrow> heaped Q E g s1 (f () s1)"
  shows "heaped Q E g0 s0 (bindp (leave s) f)"
proof -
  have "heaped Q E g0 s0 (Wait (\<lambda>_. True) (\<lambda>t. f () t), s)"
    by (rule heaped_wait [OF assms(1)]) (simp add: assms(2) moves_refl)
  then show ?thesis by (simp add: leave_def bindp_def bind_prog_Wait)
qed

lemma tidy_collect_if_needed:
  assumes "finalizers_tidy env"
  shows "tidy (collect_if_needed env t n)"
  unfolding collect_if_needed_def [abs_def] Let_def
  by (intro tidy_entering require_heaped heaped_leave) (auto intro: tidyD [OF tidy_collect [OF assms]])

lemma tidy_with_stopped_world:
  assumes "\<And>s. in_step (=) s (body s)"
  shows "tidy (with_stopped_world env t body)"
  unfolding with_stopped_world_def [abs_def]
proof (rule tidy_entering)
  fix g0 s0 g s assume m: "moves g0 s0 g s"
  have b: "heaped (\<lambda>_ g0 s0 s'. moves g0 s0 g s') (\<lambda>_ g0 s0 s'. moves g0 s0 g s') g1 s1 (body s2)"
    if "moves g1 s1 g s2" for g1 s1 s2
    using assms [of s2] by (rule in_step_rg) (use that in simp_all)
  have w: "heaped (\<lambda>_ g0 s0 s'. moves g0 s0 g s') (\<lambda>_ g0 s0 s'. moves g0 s0 g s') g0 s0
      (bindp (wait_for_other_threads_to_pause_locked t (request_stop t s)) (\<lambda>_ s. body s))"
    unfolding wait_for_other_threads_to_pause_locked_def
    by (rule rg_seq [OF cv_wait_heaped [OF after_start [OF heap_same_moves [OF m heap_same_park(3)]]] b])
      (rule after_moves)
  have r: "heaped (\<lambda>_ g0 s0 s'. moves g0 s0 g s') (\<lambda>_ g0 s0 s'. moves g0 s0 g s') g1 s1
      (bindp (release_stop_the_world s2) (\<lambda>_ s. (Return x, s)))" if "moves g1 s1 g s2" for x g1 s1 s2
    by (rule rg_seq [OF release_heaped [OF that]]) simp
  show "heaped (\<lambda>_ g0 s0 s'. moves g0 s0 g s') (\<lambda>_ g0 s0 s'. moves g0 s0 g s') g0 s0
      (if gc_collecting s then body s
       else bindp (catchp (bindp (wait_for_other_threads_to_pause_locked t (request_stop t s))
              (\<lambda>_ s. body s)) release_and_rethrow)
         (\<lambda>result s. bindp (release_stop_the_world s) (\<lambda>_ s. (Return result, s))))"
  proof (cases "gc_collecting s")
    case False
    then show ?thesis by simp (rule rg_seq [OF rg_try [OF w rethrow_heaped] r])
  qed (simp add: b [OF m])
qed

section \<open>Allocation\<close>

lemma operator_new_heaped:
  assumes "op_new_ok env" "n \<noteq> 0" "moves g0 s0 g s"
  shows "heaped (\<lambda>a g0 s0 s'. moves g0 s0 (insert a g) s' \<and> a \<notin> g \<and> unat a + unat n \<le> 2 ^ 63 \<and> (a, n) \<in> set (gc_regions s'))
    (\<lambda>_ g0 s0 s'. moves g0 s0 g s') g0 s0 (operator_new env n al s)"
proof (cases "e_op_new env s n al")
  case None
  then show ?thesis using assms(3) by (simp add: operator_new_def)
next
  case (Some a)
  then have a: "unat a + unat n \<le> 2 ^ 63" "region_free (gc_regions s) a n"
    using assms(1) by (auto simp: op_new_ok_def)
  have o: "owned g s" using assms(3) by (rule moves_owned)
  then have "a \<notin> fst ` set (gc_regions s)"
    using fresh_region(1) [OF _ a(2) assms(2)] by (simp add: owned_def heap_ok_def)
  then have "a \<notin> g" using o by (auto simp: owned_def)
  with Some a moves_trans [OF assms(3) moves_alloc [OF o a(2) assms(2)]] show ?thesis
    by (simp add: operator_new_def)
qed

lemma allocate_raw_heaped:
  assumes "finalizers_tidy env" "op_new_ok env" "n \<noteq> 0" "moves g0 s0 g s"
  shows "heaped (\<lambda>a g0 s0 s'. moves g0 s0 (insert a g) s' \<and> a \<notin> g \<and> unat a + unat n \<le> 2 ^ 63 \<and> (a, n) \<in> set (gc_regions s'))
    (\<lambda>_ g0 s0 s'. moves g0 s0 g s') g0 s0 (allocate_raw env t n al s)"
proof -
  have "heaped (\<lambda>a g0 s0 s'. moves g0 s0 (insert a g) s' \<and> a \<notin> g \<and> unat a + unat n \<le> 2 ^ 63 \<and> (a, n) \<in> set (gc_regions s'))
    (\<lambda>_ g0 s0 s'. moves g0 s0 g s') g1 s1 (bindp (collect env t s2) (\<lambda>_ s. operator_new env n al s))"
    if "moves g1 s1 g s2" for g1 s1 s2
    by (rule rg_seq [OF tidyD [OF tidy_collect [OF assms(1)] that] operator_new_heaped [OF assms(2,3)]])
  then show ?thesis
    unfolding allocate_raw_def by (intro rg_try [OF operator_new_heaped [OF assms(2-4)]]) simp
qed

lemma publish_heaped:
  assumes m: "moves g0 s0 (insert raw g) s" and r: "raw \<notin> g" and f: "fresh_block s raw off n"
  shows "heaped (\<lambda>_ g0 s0 s'. moves g0 s0 g s') (\<lambda>_ g0 s0 s'. moves g0 s0 (insert raw g) s') g0 s0
    (publish_block env t raw n (off + n) c s)"
proof -
  define body where "body s = (if add_would_overflow (gc_managed_bytes s) n \<or> add_would_overflow (gc_reserved_bytes s) (off + n)
       then (Throw Bad_Alloc, s)
       else let s = s\<lparr>gc_mem := memset_zero (gc_mem s) (payload_pointer raw s) n\<rparr>
         in bindp (register_block_locked env raw s) (\<lambda>_ s.
              (Return (), s\<lparr>gc_allocations := om_adjust (payload_begin raw s)
                 (\<lambda>b. b\<lparr>br_constructing := c\<rparr>) (gc_allocations s)\<rparr>)))" for s
  have body: "heaped (\<lambda>_ g0 s0 s'. moves g0 s0 g s') (\<lambda>_ g0 s0 s'. moves g0 s0 (insert raw g) s') g1 s1 (body s2)"
    if m2: "moves g1 s1 (insert raw g) s2" and f2: "fresh_block s2 raw off n" for g1 s1 s2
  proof -
    have o: "owned (insert raw g) s2" using m2 by (rule moves_owned)
    then have rb: "raw_block s2 raw off n" using f2 by (intro fresh_raw_block [of "insert raw g"]) simp_all
    have i: "index_inv s2" using owned_heap [OF o] by (simp add: heap_inv_def)
    show ?thesis
    proof (cases rule: publish_body_cases [OF i rb body_def])
      case (1 x)
      then show ?thesis using heap_same_moves [OF m2 heap_same_refs] by simp
    next
      case (2 u)
      then show ?thesis using moves_trans [OF m2 moves_publish [OF o r rb 2(2,4,5)]] by simp
    qed
  qed
  show ?thesis
    unfolding publish_block_def body_def [symmetric]
  proof (rule rg_seq [OF enter_heaped [OF m]], rule require_heaped)
    fix g1 s1 s2 assume a: "after (insert raw g) s g1 s1 s2"
    then show "moves g1 s1 (insert raw g) s2" by (rule after_moves)
    have "fresh_block s2 raw off n" using fresh_block_steady [OF f, of "insert raw g"] a by (simp add: after_def)
    with a show "heaped (\<lambda>_ g0 s0 s'. moves g0 s0 g s') (\<lambda>_ g0 s0 s'. moves g0 s0 (insert raw g) s') g1 s1 (body s2)"
      by (intro body after_moves)
  qed
qed

section \<open>The other operations\<close>

lemma malloc_arith:
  assumes "round_up_to_alignment sizeof_ChunkHeader al = Some off" "n \<noteq> 0" "\<not> (65535 < off \<or> add_would_overflow off n)"
  shows "32 \<le> unat off" "unat off \<le> 65535" "off + n \<noteq> 0" "unat (off + n) = unat off + unat n"
proof -
  show a: "unat (off + n) = unat off + unat n" using assms(3) by (simp add: unat_add_no_overflow)
  show "unat off \<le> 65535" using assms(3) by (simp add: word_less_nat_alt)
  show "32 \<le> unat off" using round_up_to_alignment_Some(2) [OF assms(1)] by simp
  have "0 < unat n" using assms(2) by (simp add: unat_gt_0)
  with a have "unat (off + n) \<noteq> 0" by simp
  then show "off + n \<noteq> 0" by auto
qed

lemma place_block_heaped:
  assumes env: "finalizers_tidy env" "op_new_ok env"
    and ar: "32 \<le> unat off" "unat off \<le> 65535" "off + n \<noteq> 0" "unat (off + n) = unat off + unat n" "n \<noteq> 0"
    and m: "moves g0 s0 g s"
  shows "heaped (\<lambda>_ g0 s0 s'. moves g0 s0 g s') (\<lambda>_ g0 s0 s'. moves g0 s0 g s') g0 s0
      (bindp (allocate_raw env t (off + n) al s) (\<lambda>raw s.
        bindp (catchp (publish_block env t raw n (off + n) c (init_header raw n d off al s))
                 (\<lambda>x s. bindp (leave s) (\<lambda>_ s. (Throw x, free_block_memory raw s))))
          (\<lambda>_ s. (Return (payload_pointer raw s), s))))"
proof (rule rg_seq [OF allocate_raw_heaped [OF env ar(3) m]])
  fix raw g1 s1 s2
  assume a: "moves g1 s1 (insert raw g) s2 \<and> raw \<notin> g \<and> unat raw + unat (off + n) \<le> 2 ^ 63 \<and>
    (raw, off + n) \<in> set (gc_regions s2)"
  let ?s = "init_header raw n d off al s2"
  have m2: "moves g1 s1 (insert raw g) ?s"
    using a moves_trans [OF _ moves_header [OF moves_owned]] by blast
  have f: "fresh_block ?s raw off n"
    using a ar by (simp add: fresh_block_def init_header_def Let_def set_allocation_alignment_def set_marked_def)
  have fail: "heaped Q (\<lambda>_ g0 s0 s'. moves g0 s0 g s') g3 s3 (bindp (leave s4) (\<lambda>_ s. (Throw x, free_block_memory raw s)))"
    if m4: "moves g3 s3 (insert raw g) s4" for Q x g3 s3 s4
  proof (rule heaped_leave [OF m4])
    fix s5 assume "moves (insert raw g) s5 (insert raw g) s5"
    then have "owned (g \<union> set [raw]) s5" by (simp add: moves_owned)
    from moves_free [OF this] a
    show "heaped Q (\<lambda>_ g0 s0 s'. moves g0 s0 g s') (insert raw g) s5 (Throw x, free_block_memory raw s5)" by simp
  qed
  show "heaped (\<lambda>_ g0 s0 s'. moves g0 s0 g s') (\<lambda>_ g0 s0 s'. moves g0 s0 g s') g1 s1
      (bindp (catchp (publish_block env t raw n (off + n) c ?s)
                 (\<lambda>x s. bindp (leave s) (\<lambda>_ s. (Throw x, free_block_memory raw s))))
          (\<lambda>_ s. (Return (payload_pointer raw s), s)))"
    by (rule rg_seq, rule rg_try, rule publish_heaped [OF m2 _ f]) (use a fail in simp_all)
qed

lemma tidy_malloc:
  assumes env: "finalizers_tidy env" "op_new_ok env"
  shows "tidy (malloc_internal env t n al d c)"
proof (cases "n = 0 \<or> \<not> has_single_bit al")
  case True
  then show ?thesis by (simp add: malloc_internal_def [abs_def] tidy_return)
next
  case False
  let ?al = "normalize_alignment al"
  have "heaped (\<lambda>_ g0 s0 s'. moves g0 s0 g s') (\<lambda>_ g0 s0 s'. moves g0 s0 g s') g0 s0
      (case round_up_to_alignment sizeof_ChunkHeader ?al of
         None \<Rightarrow> (Throw Bad_Alloc, s)
       | Some off \<Rightarrow>
           if 65535 < off \<or> add_would_overflow off n then (Throw Bad_Alloc, s)
           else bindp (allocate_raw env t (off + n) ?al s) (\<lambda>raw s.
             bindp (catchp (publish_block env t raw n (off + n) c (init_header raw n d off ?al s))
                 (\<lambda>x s. bindp (leave s) (\<lambda>_ s. (Throw x, free_block_memory raw s))))
               (\<lambda>_ s. (Return (payload_pointer raw s), s))))" if "moves g0 s0 g s" for g0 s0 g s
  proof (cases "round_up_to_alignment sizeof_ChunkHeader ?al")
    case (Some off)
    show ?thesis
    proof (cases "65535 < off \<or> add_would_overflow off n")
      case no: False
      have "n \<noteq> 0" using False by simp
      from place_block_heaped [OF env malloc_arith [OF Some this no] this that] Some no show ?thesis by simp
    qed (use Some that in simp)
  qed (use that in simp)
  with False show ?thesis
    unfolding malloc_internal_def [abs_def] Let_def
    by (intro tidy_if tidy_return tidy_entering require_heaped heaped_leave) simp_all
qed

lemma tidy_release_unconstructed: "tidy (release_unconstructed env t p)"
proof -
  have "heaped (\<lambda>_ g0 s0 s'. moves g0 s0 g s') (\<lambda>_ g0 s0 s'. moves g0 s0 g s') g0 s0
      (bindp (leave (unlinked p b s)) (\<lambda>_ s. (Return (), free_block_memory (br_header b) s)))"
    if m: "moves g0 s0 g s" and b: "om_find p (gc_allocations s) = Some b" for g0 s0 g s b
  proof (rule heaped_leave)
    have o: "owned g s" using m by (rule moves_owned)
    have i: "index_inv s" using owned_heap [OF o] by (simp add: heap_inv_def)
    have pb: "(p, b) \<in> set (gc_allocations s)" using b om_find_mem [OF index_inv_om_wf [OF i]] by blast
    have "moves g s (g \<union> {br_header b}) (unlinked p b s)"
    proof (rule moves_detach [OF o unlinked_inv [OF owned_heap [OF o] b]])
      show "weak_live (unlinked p b s)"
      proof (rule weak_live_purge [where D = "{b}", OF owned_weak [OF o]])
        have "snd q = b" if "q \<in> set (gc_allocations s)" "fst q = p" for q
          using that b om_find_mem [OF index_inv_om_wf [OF i], of p "snd q"] by (metis option.inject prod.collapse)
        then show "blocks s - {b} \<subseteq> blocks (unlinked p b s)" by (force simp: blocks_def om_erase_def)
      qed (auto simp: unlinked_def invalidate_weak_refs_for_block_locked_def weak_purge_def)
      show "br_header ` blocks (unlinked p b s) \<subseteq> br_header ` blocks s - {br_header b}"
        using index_inv_header_inj [OF i pb] by (auto simp: blocks_def om_erase_def)
      show "{br_header b} \<subseteq> br_header ` blocks s" using pb by (auto simp: blocks_def rev_image_eqI)
    qed simp_all
    with m show "moves g0 s0 (g \<union> set [br_header b]) (unlinked p b s)" by (auto intro: moves_trans)
    have "br_header b \<in> br_header ` blocks s" using pb by (force simp: blocks_def)
    then have "br_header b \<notin> g" using o unfolding owned_def by blast
    then show "heaped (\<lambda>_ g0 s0 s'. moves g0 s0 g s') (\<lambda>_ g0 s0 s'. moves g0 s0 g s') (g \<union> set [br_header b]) s1
        (Return (), free_block_memory (br_header b) s1)"
      if "moves (g \<union> set [br_header b]) s1 (g \<union> set [br_header b]) s1" for s1
      using moves_free [OF moves_owned [OF that]] by simp
  qed
  then show ?thesis
    unfolding release_unconstructed_def [abs_def] Let_def unlinked_def header_of_def
    by (intro tidy_if tidy_return tidy_entering require_heaped)
      (auto split: option.split simp: invalidate_weak_refs_for_block_locked_def)
qed

lemma tidy_finish_construction: "tidy (finish_construction env t p)"
  unfolding finish_construction_def [abs_def]
proof (rule tidy_entering)
  fix g0 s0 g s assume m: "moves g0 s0 g s"
  let ?t = "s\<lparr>gc_allocations := om_adjust p (\<lambda>b. b\<lparr>br_constructing := False\<rparr>) (gc_allocations s)\<rparr>"
  have o: "owned g s" using m by (rule moves_owned)
  have w: "weak_live ?t"
    unfolding weak_live_def
  proof
    fix a assume "a \<in> wr_target ` set (gc_weak_refs ?t)"
    then obtain q where q: "q \<in> set (gc_allocations s)" "br_payload_begin (snd q) \<le> a \<and> a < br_payload_end (snd q)"
      using owned_weak [OF o] by (auto simp: weak_live_def blocks_def)
    let ?q = "if fst q = p then (fst q, (snd q)\<lparr>br_constructing := False\<rparr>) else q"
    have "?q \<in> set (gc_allocations ?t)" using q(1) by (auto simp: om_adjust_def image_iff)
    then have "snd ?q \<in> blocks ?t" unfolding blocks_def by (rule imageI)
    with q(2) show "\<exists>b\<in>blocks ?t. br_payload_begin b \<le> a \<and> a < br_payload_end b"
      by (intro bexI [of _ "snd ?q"]) simp_all
  qed
  have "moves g s g ?t"
    by (rule moves_shape [OF o heap_inv_constructing [OF owned_heap [OF o]] w])
      (force simp: blocks_def om_adjust_def)+
  then show "heaped (\<lambda>_ g0 s0 s'. moves g0 s0 g s') (\<lambda>_ g0 s0 s'. moves g0 s0 g s') g0 s0
      (case om_find p (gc_allocations s) of
         None \<Rightarrow> (Throw (Logic_Error Unknown_Allocation), s)
       | Some _ \<Rightarrow> (Return (), ?t))"
    using m by (auto split: option.split intro: moves_trans)
qed

lemma tidy_register_stack_bottom: "tidy (register_stack_bottom env t b)"
  unfolding register_stack_bottom_def [abs_def]
  by (intro tidy_if tidy_return tidy_section) (simp add: heap_same_def)

lemma tidy_register_current_thread: "tidy (register_current_thread env t)"
  unfolding register_current_thread_def [abs_def]
  by (intro tidy_bind tidy_register_stack_bottom)
    (auto simp: tidy_def detect_current_thread_stack_bottom_def split: option.split)

lemma tidy_register_root_range: "tidy (register_root_range env t b e)"
proof -
  have "tidy (\<lambda>s. bindp (lock_mutex s) (\<lambda>_ s.
        if e_alloc_fails env Root_Ranges_Push then (Throw Bad_Alloc, s)
        else cooperate_with_stop_the_world_locked env t
               (s\<lparr>gc_root_ranges := gc_root_ranges s @ [normal_range b e]\<rparr>)))"
    by (rule tidyI, rule rg_seq, rule lock_heaped(1) [OF after_start], assumption)
      (auto dest!: after_moves intro!: rg_mono [OF cooperate_heaped [OF after_start [OF heap_same_moves]]]
        simp: heap_same_def after_moves)
  then show ?thesis unfolding register_root_range_def [abs_def] by (intro tidy_if tidy_return)
qed

lemma tidy_tables:
  "tidy (unregister_current_thread env t)"
  "tidy (unregister_root_range env t b e)"
  "tidy (register_weak_ref env t a st)"
  "tidy (read_weak_ref env t st)"
  "tidy (unregister_weak_ref env t st)"
  "tidy (copy_weak_ref env t st st')"
  "tidy (update_weak_ref env t st st')"
  "tidy (is_current_thread_registered env t)"
  "tidy (set_collection_threshold_bytes env t n)"
  "tidy (collection_threshold_bytes env t)"
  "tidy (managed_bytes env t)"
  "tidy (managed_block_count env t)"
  "tidy (stats env t)"
  "tidy (is_live env t a)"
  unfolding unregister_current_thread_def [abs_def] unregister_root_range_def [abs_def]
    register_weak_ref_def [abs_def] read_weak_ref_def [abs_def]
    unregister_weak_ref_def [abs_def] copy_weak_ref_def [abs_def] update_weak_ref_def [abs_def]
    is_current_thread_registered_def [abs_def] set_collection_threshold_bytes_def [abs_def]
    collection_threshold_bytes_def [abs_def] managed_bytes_def [abs_def] managed_block_count_def [abs_def]
    stats_def [abs_def] is_live_def [abs_def] Let_def
  by (intro tidy_if tidy_return tidy_section; auto simp: heap_same_def weak_live_refs split: option.split)+

lemma tidy_safepoint: "tidy (safepoint env t)"
  by (rule tidyI) (auto simp: safepoint_def intro!: rg_mono [OF enter_heaped] dest: after_moves)

lemma tidy_snapshots:
  "tidy (live_objects env t)" "tidy (object_info env t a)" "tidy (dump_heap env t)"
proof -
  show l: "tidy (live_objects env t)"
    unfolding live_objects_def by (auto intro!: tidy_with_stopped_world in_step_describe_blocks)
  show "tidy (object_info env t a)"
    unfolding object_info_def
    by (auto intro!: tidy_with_stopped_world tidy_return in_step_bind in_step_describe_block split: option.split)
  show "tidy (dump_heap env t)"
    unfolding dump_heap_def [abs_def] by (intro tidy_bind tidy_tables l tidy_return)
qed

end
