(* ===== verification/Interleaving.thy ===== *)
theory Interleaving
  imports Heap_Ownership
begin

text \<open>
  The calls a thread can make on the manager, and the interleaved execution of the calls of all
  threads. The thread of a call is in user code, or its program has stopped at a wait.
\<close>

section \<open>Calls\<close>

datatype manager_call =
    Register_Current_Thread
  | Register_Stack_Bottom addr
  | Unregister_Current_Thread
  | Is_Registered
  | Safepoint
  | Register_Root_Range addr addr
  | Unregister_Root_Range addr addr
  | Register_Weak_Ref addr addr
  | Read_Weak_Ref addr
  | Unregister_Weak_Ref addr
  | Copy_Weak_Ref addr addr
  | Update_Weak_Ref addr addr
  | Malloc size_t size_t "DestructorFn option" bool
  | Finish_Construction addr
  | Release_Unconstructed addr
  | Collect
  | Collect_If_Needed size_t
  | Shutdown
  | Set_Threshold size_t
  | Get_Threshold
  | Managed_Bytes
  | Managed_Block_Count
  | Get_Stats
  | Is_Live addr
  | Live_Objects
  | Object_Info addr
  | Dump_Heap

definition void_call :: "'a gc \<Rightarrow> unit gc" where
  "void_call m = (\<lambda>s. bindp (m s) (\<lambda>_ s. (Return (), s)))"

fun call :: "gc_env \<Rightarrow> tid \<Rightarrow> manager_call \<Rightarrow> unit gc" where
  "call env t Register_Current_Thread = register_current_thread env t"
| "call env t (Register_Stack_Bottom b) = register_stack_bottom env t b"
| "call env t Unregister_Current_Thread = unregister_current_thread env t"
| "call env t Is_Registered = void_call (is_current_thread_registered env t)"
| "call env t Safepoint = safepoint env t"
| "call env t (Register_Root_Range b e) = register_root_range env t b e"
| "call env t (Unregister_Root_Range b e) = unregister_root_range env t b e"
| "call env t (Register_Weak_Ref a st) = register_weak_ref env t a st"
| "call env t (Read_Weak_Ref st) = void_call (read_weak_ref env t st)"
| "call env t (Unregister_Weak_Ref st) = unregister_weak_ref env t st"
| "call env t (Copy_Weak_Ref st st') = copy_weak_ref env t st st'"
| "call env t (Update_Weak_Ref st st') = update_weak_ref env t st st'"
| "call env t (Malloc n al d c) = void_call (malloc_internal env t n al d c)"
| "call env t (Finish_Construction p) = finish_construction env t p"
| "call env t (Release_Unconstructed p) = release_unconstructed env t p"
| "call env t Collect = collect env t"
| "call env t (Collect_If_Needed n) = collect_if_needed env t n"
| "call env t Shutdown = shutdown env t"
| "call env t (Set_Threshold n) = set_collection_threshold_bytes env t n"
| "call env t Get_Threshold = void_call (collection_threshold_bytes env t)"
| "call env t Managed_Bytes = void_call (managed_bytes env t)"
| "call env t Managed_Block_Count = void_call (managed_block_count env t)"
| "call env t Get_Stats = void_call (stats env t)"
| "call env t (Is_Live a) = void_call (is_live env t a)"
| "call env t Live_Objects = void_call (live_objects env t)"
| "call env t (Object_Info a) = void_call (object_info env t a)"
| "call env t Dump_Heap = void_call (dump_heap env t)"

lemma keeps_void: "keeps_protocol t m \<Longrightarrow> keeps_protocol t (void_call m)"
  unfolding void_call_def by (intro keeps_bind keeps_return)

lemma call_follows_protocol:
  assumes "finalizers_cooperate env t"
  shows "follows_protocol t (call env t c)"
  using assms
  by (cases c) (simp_all add: follows_register_current_thread follows_register_stack_bottom
      follows_unregister_current_thread keeps_follows keeps_void keeps_tables keeps_safepoint
      keeps_register_root_range keeps_malloc keeps_finish_construction keeps_release_unconstructed
      keeps_collect keeps_collect_if_needed keeps_shutdown keeps_snapshots keeps_dump_heap)

lemma tidy_void: "tidy m \<Longrightarrow> tidy (void_call m)"
  unfolding void_call_def by (intro tidy_bind tidy_return)

lemma call_tidy:
  assumes "finalizers_tidy env" "op_new_ok env"
  shows "tidy (call env t c)"
  using assms
  by (cases c) (simp_all add: tidy_register_current_thread tidy_register_stack_bottom tidy_void tidy_tables
      tidy_safepoint tidy_register_root_range tidy_malloc tidy_finish_construction
      tidy_release_unconstructed tidy_collect tidy_collect_if_needed tidy_shutdown tidy_snapshots)

section \<open>Threads\<close>

text \<open>
  Where each thread is: in user code, or stopped at a wait of a call. A step starts a call, goes on
  from a wait whose condition holds, or is a write of a registered thread to process memory. The
  environments of the calls are taken from the set \<open>E\<close>.
\<close>

type_synonym pool = "tid \<Rightarrow> (gc_state, unit) prog option"

inductive thread_step :: "gc_env set \<Rightarrow> tid \<Rightarrow> pool \<times> gc_state \<Rightarrow> pool \<times> gc_state \<Rightarrow> bool" for E u where
  start: "P u = None \<Longrightarrow> env \<in> E \<Longrightarrow> call env u c s = (r, s') \<Longrightarrow> next_prog r = Some q \<Longrightarrow>
    thread_step E u (P, s) (P(u := q), s')"
| resume: "P u = Some (Wait p k) \<Longrightarrow> p s \<Longrightarrow> k s = (r, s') \<Longrightarrow> next_prog r = Some q \<Longrightarrow>
    thread_step E u (P, s) (P(u := q), s')"
| user: "P u = None \<Longrightarrow> thread_registered u s \<Longrightarrow> thread_step E u (P, s) (P, s\<lparr>gc_mem := m\<rparr>)"

inductive interleaved :: "gc_env set \<Rightarrow> memory \<Rightarrow> pool \<times> gc_state \<Rightarrow> bool" for E m where
  begin_all: "interleaved E m (\<lambda>_. None, new_gc_state m)"
| then_step: "interleaved E m cf \<Longrightarrow> thread_step E u cf cf' \<Longrightarrow> interleaved E m cf'"

inductive_cases thread_stepE: "thread_step E u (P, s) (P', s')"

section \<open>The invariants of all interleavings\<close>

text \<open>What is asked of the finalizers and of \<open>::operator new\<close> in every environment.\<close>

definition cooperative :: "gc_env set \<Rightarrow> bool" where
  "cooperative E \<longleftrightarrow> (\<forall>env\<in>E. \<forall>t. finalizers_cooperate env t)"

definition well_behaved :: "gc_env set \<Rightarrow> bool" where
  "well_behaved E \<longleftrightarrow> (\<forall>env\<in>E. finalizers_tidy env \<and> op_new_ok env)"

lemma call_runs_handshake:
  assumes "control_ok s" "\<not> paused u s" "\<not> holds u s" "finalizers_cooperate env u"
  shows "handshake.runs u () s (call env u c s)"
proof -
  have "fin u s s" using assms(1,2) by (simp add: fin_def guar_refl)
  then have "good u (\<lambda>_. ends u s) (\<lambda>_. ends u s) s (call env u c s)"
    using call_follows_protocol [OF assms(4)] by (simp add: follows_protocol_def)
  then show ?thesis
    unfolding handshake.runs_def good_def
    by (rule rg_mono) (use assms(3) in \<open>simp_all add: ends_def fin_def\<close>)
qed

lemma call_runs_heap:
  assumes "owned {} s" "finalizers_tidy env" "op_new_ok env"
  shows "heap.runs u {} s (call env u c s)"
  unfolding heap.runs_def
  by (rule rg_mono [OF tidyD [OF call_tidy [OF assms(2,3)] moves_refl [OF assms(1)]]]) auto

text \<open>A step of one thread, for each of the two protocols.\<close>

lemma no_ghost: "(\<lambda>_. ())(u := ()) = (\<lambda>_. ())"
  by auto

definition control_inv :: "pool \<Rightarrow> gc_state \<Rightarrow> bool" where
  "control_inv P s \<longleftrightarrow> handshake.pool_ok (\<lambda>_. ()) P s"

lemma control_step:
  assumes "control_inv P s" "thread_step E u (P, s) (P', s')" "cooperative E"
  shows "guar u s s' \<and> control_inv P' s'"
  using assms(2)
proof (cases rule: thread_step.cases)
  case (start env c r q)
  have "handshake.runs u () s (call env u c s)"
    using handshake.pool_ok_idle [OF assms(1) [unfolded control_inv_def] start(2)]
      handshake.pool_ok_owns [OF assms(1) [unfolded control_inv_def]] start(3) assms(3)
    by (intro call_runs_handshake) (auto simp: cooperative_def)
  from handshake.start_ok [OF assms(1) [unfolded control_inv_def] this start(4,5)] start(1)
  show ?thesis by (auto simp: control_inv_def no_ghost)
next
  case (resume p k r q)
  from handshake.resume_ok [OF assms(1) [unfolded control_inv_def] resume(2-5)] resume(1)
  show ?thesis by (auto simp: control_inv_def no_ghost)
next
  case (user m)
  have i: "control_ok s" "\<not> paused u s" "\<not> holds u s"
    using handshake.pool_ok_owns [OF assms(1) [unfolded control_inv_def]]
      handshake.pool_ok_idle [OF assms(1) [unfolded control_inv_def] user(3)] by simp_all
  have k: "keeps_control s s'" using user by (simp add: keeps_control_def)
  note kp = keeps_control_preds [OF k]
  have g: "guar u s s'" using i user kp
    by (auto simp: guar_def same_tables_def stopped_by_other_def)
  have "handshake.thread_ok u () (P u) s'" using i user kp by (simp add: handshake.thread_ok_def)
  with handshake.pool_ok_step [OF assms(1) [unfolded control_inv_def] g this] g user(1)
  show ?thesis by (simp add: control_inv_def no_ghost)
qed

definition heap_pool_inv :: "pool \<Rightarrow> gc_state \<Rightarrow> bool" where
  "heap_pool_inv P s \<longleftrightarrow> (\<exists>gh. heap.pool_ok gh P s)"

lemma heap_step:
  assumes "heap_pool_inv P s" "thread_step E u (P, s) (P', s')" "well_behaved E"
  shows "heap_pool_inv P' s'"
proof -
  from assms(1) obtain gh where gh: "heap.pool_ok gh P s" by (auto simp: heap_pool_inv_def)
  note o = heap.pool_ok_owns [OF gh, of u]
  from assms(2) show ?thesis
  proof (cases rule: thread_step.cases)
    case (start env c r q)
    have "gh u = {}" using heap.pool_ok_idle [OF gh start(2)] .
    then have "heap.runs u (gh u) s (call env u c s)"
      using o start(3) assms(3) by (auto intro: call_runs_heap simp: well_behaved_def)
    from heap.start_ok [OF gh this start(4,5)] start(1) show ?thesis by (auto simp: heap_pool_inv_def)
  next
    case (resume p k r q)
    from heap.resume_ok [OF gh resume(2-5)] resume(1) show ?thesis by (auto simp: heap_pool_inv_def)
  next
    case (user m)
    have e: "gh u = {}" using heap.pool_ok_idle [OF gh user(3)] .
    have g: "moves (gh u) s (gh u) s'"
      using heap_same_moves [OF moves_refl [OF o]] user by (simp add: heap_same_def)
    have "heap.thread_ok u (gh u) (P u) s'" using e user by (simp add: heap.thread_ok_def)
    from heap.pool_ok_step [OF gh g this] user(1) show ?thesis by (auto simp: heap_pool_inv_def)
  qed
qed

lemma interleaved_control:
  assumes "interleaved E m (P, s)" "cooperative E"
  shows "control_inv P s"
  using assms(1)
proof (induction "(P, s)" arbitrary: P s rule: interleaved.induct)
  case begin_all
  have "control_ok (new_gc_state m)" "\<not> paused u (new_gc_state m)" "\<not> holds u (new_gc_state m)" for u
    by (simp_all add: control_ok_def om_wf_def new_gc_state_def paused_def holds_def
        find_thread_state_locked_def om_find_def)
  with begin_all show ?case
    by (simp add: control_inv_def handshake.pool_ok_def handshake.thread_ok_def)
next
  case (then_step cf u)
  then show ?case using control_step [OF _ _ assms(2)] by (cases cf) blast
qed

lemma interleaved_heap:
  assumes "interleaved E m (P, s)" "well_behaved E"
  shows "heap_pool_inv P s"
  using assms(1)
proof (induction "(P, s)" arbitrary: P s rule: interleaved.induct)
  case begin_all
  have "owned {} (new_gc_state m)"
    using new_heap_inv [of m] by (simp add: owned_def heap_ok_def regions_apart_def weak_live_def new_gc_state_def)
  then have "heap.pool_ok (\<lambda>_. {}) (\<lambda>_. None :: (gc_state, unit) prog option) (new_gc_state m)"
    by (simp add: heap.pool_ok_def heap.thread_ok_def)
  then show ?case using begin_all by (auto simp: heap_pool_inv_def)
next
  case (then_step cf u)
  then show ?case using heap_step [OF _ _ assms(2)] by (cases cf) blast
qed

lemma interleaved_heap_ok:
  assumes "interleaved E m (P, s)" "well_behaved E"
  shows "heap_ok s"
proof -
  obtain gh where "heap.pool_ok gh P s"
    using interleaved_heap [OF assms] unfolding heap_pool_inv_def by blast
  from heap.pool_ok_owns [OF this, of 0] show ?thesis by (simp add: owned_def)
qed

lemma weak_targets_found:
  assumes "heap_ok s" "e \<in> set (gc_weak_refs s)"
  shows "\<exists>b. find_block_locked (wr_target e) s = Some b"
proof -
  have i: "index_inv s" using assms(1) by (simp add: heap_ok_def heap_inv_def)
  from assms show ?thesis by (fastforce simp: alloc_index.lookup_iff [OF i] heap_ok_def weak_live_def)
qed

section \<open>Exclusion and progress\<close>

lemma thread_idle: "control_inv P s \<Longrightarrow> P u = None \<Longrightarrow> \<not> paused u s \<and> \<not> holds u s"
  unfolding control_inv_def by (rule handshake.pool_ok_idle)

lemma thread_waits: "control_inv P s \<Longrightarrow> P u = Some r \<Longrightarrow> \<exists>p k. r = Wait p k \<and> wait_ok u p s"
  unfolding control_inv_def by (rule handshake.pool_ok_waiting)

lemma control_inv_ok: "control_inv P s \<Longrightarrow> control_ok s"
  unfolding control_inv_def by (rule handshake.pool_ok_owns)

lemma others_paused_registered:
  assumes "others_paused c s" "control_ok s" "u \<noteq> c" "thread_registered u s"
  shows "paused u s"
proof -
  from assms(4) obtain ts where ts: "find_thread_state_locked u s = Some ts" "ts_stack_bottom ts \<noteq> 0"
    by (auto simp: thread_registered_def split: option.splits)
  then have "(u, ts) \<in> set (gc_threads s)"
    using assms(2) by (simp add: find_thread_state_locked_def control_ok_def om_find_mem)
  with assms(1,3) ts show ?thesis by (auto simp: others_paused_def list_all_iff paused_def)
qed

lemma others_paused_not:
  assumes "\<not> others_paused c s" "control_ok s"
  obtains u where "u \<noteq> c" "thread_registered u s" "\<not> paused u s"
proof -
  from assms(1) obtain u ts where u: "(u, ts) \<in> set (gc_threads s)" "u \<noteq> c" "ts_stack_bottom ts \<noteq> 0"
    "\<not> ts_paused_for_collection ts" by (auto simp: others_paused_def list_all_iff)
  then have "find_thread_state_locked u s = Some ts"
    using assms(2) by (simp add: find_thread_state_locked_def control_ok_def om_find_mem)
  with u show ?thesis by (intro that [of u]) (simp_all add: thread_registered_def paused_def)
qed

lemma registered_stuck:
  assumes "control_inv P s" "holds c s" "others_paused c s" "u \<noteq> c" "thread_registered u s"
  shows "\<not> thread_step E u (P, s) (P', s')"
proof
  assume st: "thread_step E u (P, s) (P', s')"
  have c: "control_ok s" using assms(1) by (rule control_inv_ok)
  have p: "paused u s" using others_paused_registered [OF assms(3) c assms(4,5)] .
  from st show False
  proof (cases rule: thread_step.cases)
    case (resume p k r q)
    from thread_waits [OF assms(1) resume(2)] have "wait_ok u p s" by simp
    with p resume(3) assms(2) show False by (auto simp: wait_ok_def holds_def)
  qed (use thread_idle [OF assms(1)] p in auto)
qed

lemma same_but_ranges:
  "same_tables s s' \<Longrightarrow> same_heap s s' \<Longrightarrow> s' = s\<lparr>gc_root_ranges := gc_root_ranges s'\<rparr>"
  by (simp add: same_tables_def same_heap_def)

lemma exclusive:
  assumes "interleaved E m (P, s)" "cooperative E" "holds c s" "others_paused c s"
    and "thread_step E u (P, s) (P', s')" "u \<noteq> c"
  shows "\<not> thread_registered u s \<and> s' = s\<lparr>gc_root_ranges := gc_root_ranges s'\<rparr>"
proof -
  have ok: "control_inv P s" using assms(1,2) by (rule interleaved_control)
  have u: "\<not> thread_registered u s" using registered_stuck [OF ok assms(3,4,6)] assms(5) by blast
  moreover have "stopped_by_other u s" using assms(3,6) by (simp add: holds_def stopped_by_other_def)
  ultimately show ?thesis
    using control_step [OF ok assms(5,2)] by (intro conjI same_but_ranges) (simp_all add: guar_def)
qed

lemma way_on:
  assumes "interleaved E m (P, s)" "cooperative E" "P u = Some (Wait p k)" "\<not> p s"
  shows "gc_stop_the_world_requested s \<and> (\<exists>v. v \<noteq> u \<and> ((\<exists>q j. P v = Some (Wait q j) \<and> q s) \<or>
    P v = None \<and> thread_registered v s))"
proof -
  have ok: "control_inv P s" using assms(1,2) by (rule interleaved_control)
  then have c: "control_ok s" by (rule control_inv_ok)
  let ?go = "\<lambda>v. (\<exists>q j. P v = Some (Wait q j) \<and> q s) \<or> P v = None \<and> thread_registered v s"
  have reg: "?go v" if v: "thread_registered v s" "\<not> paused v s" "\<not> holds v s" for v
  proof (cases "P v")
    case (Some r)
    from thread_waits [OF ok Some] obtain q j where "r = Wait q j" "wait_ok v q s" by blast
    with Some v show ?thesis by (auto simp: wait_ok_def)
  qed (use v in simp)
  have w: "wait_ok u p s" using thread_waits [OF ok assms(3)] by simp
  define c where "c = gc_collector_thread s"
  show ?thesis
  proof (cases "holds u s")
    case True
    with w assms(4) have "p = others_paused u" by (auto simp: wait_ok_def may_proceed_def holds_def)
    with assms(4) c obtain v where "v \<noteq> u" "thread_registered v s" "\<not> paused v s"
      by (auto elim: others_paused_not)
    with True reg [of v] show ?thesis by (auto simp: holds_def)
  next
    case False
    have st: "gc_stop_the_world_requested s" using w assms(4) False
      by (auto simp: wait_ok_def may_proceed_def)
    then have h: "holds c s" "c \<noteq> u" using False by (auto simp: holds_def c_def)
    have u: "\<not> thread_registered u s \<or> paused u s" using w assms(4) False by (auto simp: wait_ok_def)
    from thread_idle [OF ok, of c] h(1) obtain r where r: "P c = Some r" by (cases "P c") auto
    from thread_waits [OF ok r] obtain q j where q: "r = Wait q j" "wait_ok c q s" by blast
    show ?thesis
    proof (cases "q s")
      case True
      with r q st h(2) show ?thesis by blast
    next
      case False
      with q(2) h(1) have "q = others_paused c" by (auto simp: wait_ok_def may_proceed_def holds_def)
      with False \<open>control_ok s\<close> obtain v where v: "v \<noteq> c" "thread_registered v s" "\<not> paused v s"
        by (auto elim: others_paused_not)
      have "v \<noteq> u" using u v by auto
      moreover have "\<not> holds v s" using h(1) v(1) by (simp add: holds_def)
      ultimately show ?thesis using reg [OF v(2,3)] st by blast
    qed
  qed
qed

end
