(* ===== verification/Manager_Instance.thy ===== *)
theory Manager_Instance
  imports Diagnostics
begin

text \<open>
  The manager as one object of the process: \<open>GC_Manager::instance()\<close>, whose local static is
  constructed by the first call and destroyed when the process exits, and the free functions of
  \<open>GCManager.hpp\<close>, each of which is one member call on it.
\<close>

section \<open>The instance\<close>

text \<open>The process before the first call of \<open>instance()\<close>, with its memory, and from then on.\<close>

datatype process = Unused memory | In_Use gc_state

definition manager_instance :: "process \<Rightarrow> gc_state" where
  "manager_instance p = (case p of Unused m \<Rightarrow> new_gc_state m | In_Use s \<Rightarrow> s)"

text \<open>A destructor is \<open>noexcept\<close> unless it says otherwise.\<close>

definition GC_Manager_dtor :: "gc_env \<Rightarrow> tid \<Rightarrow> unit gc" where
  "GC_Manager_dtor env current s = noexceptp (shutdown env current s)"

section \<open>The free functions\<close>

definition gc_register_stack_bottom :: "gc_env \<Rightarrow> tid \<Rightarrow> addr \<Rightarrow> process \<Rightarrow> (gc_state, unit) prog \<times> gc_state" where
  "gc_register_stack_bottom env current stack_bottom p = register_stack_bottom env current stack_bottom (manager_instance p)"

definition gc_register_current_thread :: "gc_env \<Rightarrow> tid \<Rightarrow> process \<Rightarrow> (gc_state, unit) prog \<times> gc_state" where
  "gc_register_current_thread env current p = register_current_thread env current (manager_instance p)"

definition gc_unregister_current_thread :: "gc_env \<Rightarrow> tid \<Rightarrow> process \<Rightarrow> (gc_state, unit) prog \<times> gc_state" where
  "gc_unregister_current_thread env current p = unregister_current_thread env current (manager_instance p)"

definition gc_safepoint :: "gc_env \<Rightarrow> tid \<Rightarrow> process \<Rightarrow> (gc_state, unit) prog \<times> gc_state" where
  "gc_safepoint env current p = safepoint env current (manager_instance p)"

definition gc_collect :: "gc_env \<Rightarrow> tid \<Rightarrow> process \<Rightarrow> (gc_state, unit) prog \<times> gc_state" where
  "gc_collect env current p = collect env current (manager_instance p)"

definition gc_shutdown :: "gc_env \<Rightarrow> tid \<Rightarrow> process \<Rightarrow> (gc_state, unit) prog \<times> gc_state" where
  "gc_shutdown env current p = shutdown env current (manager_instance p)"

section \<open>The life of the instance\<close>

text \<open>
  A program that calls the collector before it registers its thread is refused, and the
  instance is in its initial state.
\<close>

lemma first_call_unregistered:
  "run (gc_collect env c (Unused m)) = (Threw (Logic_Error Not_Registered), new_gc_state m)"
  by (simp add: gc_collect_def manager_instance_def collect_def enter_def cooperate_with_stop_the_world_locked_def
      may_proceed_def new_gc_state_def require_registered_thread_locked_def thread_registered_def
      find_thread_state_locked_def om_find_def prog_simps)

lemma first_shutdown:
  "finalizers_return env \<Longrightarrow> \<exists>t. run (gc_shutdown env c (Unused m)) = (Done (), t) \<or>
    out_of_memory env \<and> run (gc_shutdown env c (Unused m)) = (Threw Bad_Alloc, t)"
proof -
  assume fin: "finalizers_return env"
  let ?s = "new_gc_state m"
  have s: "index_inv ?s" "may_proceed c ?s" "\<not> gc_collecting ?s" "others_paused c ?s"
    using new_heap_inv [of m] by (simp_all add: heap_inv_def new_gc_state_def may_proceed_def others_paused_def)
  show ?thesis unfolding gc_shutdown_def manager_instance_def process.case
    by (cases rule: shutdown_cases [OF s fin]) (auto simp: new_gc_state_def blocks_def)
qed

text \<open>
  The end of the process: with every other registered thread parked, the destructor either empties the
  heap, every finalizer run and every block freed, or terminates the process, because an object is
  under construction or memory has run out.
\<close>

lemma manager_destructor:
  assumes "heap_inv s" "may_proceed c s" "\<not> gc_collecting s" "others_paused c s" "finalizers_return env"
  shows "if (\<exists>b\<in>blocks s. br_constructing b) then run (GC_Manager_dtor env c s) = (Terminated, resumed s)
    else (out_of_memory env \<and> run (GC_Manager_dtor env c s) = (Terminated, resumed s)) \<or>
      (\<exists>hs t. run (GC_Manager_dtor env c s) = (Done (), t) \<and> shut_down s hs t)"
proof -
  have i: "index_inv s" using assms(1) by (simp add: heap_inv_def)
  show ?thesis unfolding GC_Manager_dtor_def noexceptp_def
    by (cases rule: shutdown_cases [OF i assms(2-5)]) (auto simp: prog_simps)
qed

end
