(* ===== verification/Gc_Ptr.thy ===== *)
theory Gc_Ptr
  imports GC_Prelude
begin

text \<open>
  The strong handle \<open>gc_ptr\<close> of \<open>include/gc/gc_ptr.hpp\<close>. A handle is
  one address; its order is that of the source, so that handles can be keys of sorted containers.
\<close>

datatype gc_ptr = Gc_Ptr (raw_ptr: addr)

definition null_ptr :: gc_ptr where
  "null_ptr = Gc_Ptr 0"

definition gc_ptr_get :: "gc_ptr \<Rightarrow> addr" where
  "gc_ptr_get p = raw_ptr p"

definition gc_ptr_bool :: "gc_ptr \<Rightarrow> bool" where
  "gc_ptr_bool p \<longleftrightarrow> raw_ptr p \<noteq> 0"

definition gc_ptr_reset :: "addr \<Rightarrow> gc_ptr \<Rightarrow> gc_ptr" where
  "gc_ptr_reset ptr p = Gc_Ptr ptr"

text \<open>
  Conversion from a handle of a derived class: \<open>convert\<close> is the implicit conversion of the
  pointer, which the compiler chooses for the two types.
\<close>

definition gc_ptr_convert :: "(addr \<Rightarrow> addr) \<Rightarrow> gc_ptr \<Rightarrow> gc_ptr" where
  "gc_ptr_convert convert other = Gc_Ptr (convert (gc_ptr_get other))"

definition gc_ptr_assign :: "(addr \<Rightarrow> addr) \<Rightarrow> gc_ptr \<Rightarrow> gc_ptr \<Rightarrow> gc_ptr" where
  "gc_ptr_assign convert other p = Gc_Ptr (convert (gc_ptr_get other))"

definition gc_ptr_assign_null :: "gc_ptr \<Rightarrow> gc_ptr" where
  "gc_ptr_assign_null p = Gc_Ptr 0"

text \<open>A reference to the object is its address; what is done with the object is user code.\<close>

definition gc_ptr_deref :: "gc_ptr \<Rightarrow> addr" where
  "gc_ptr_deref p = raw_ptr p"

definition gc_ptr_arrow :: "gc_ptr \<Rightarrow> addr" where
  "gc_ptr_arrow p = raw_ptr p"

text \<open>The address of an array element.\<close>

definition gc_ptr_index :: "size_t \<Rightarrow> gc_ptr \<Rightarrow> size_t \<Rightarrow> addr" where
  "gc_ptr_index sizeof_T p index = raw_ptr p + index * sizeof_T"

definition gc_ptr_eq :: "gc_ptr \<Rightarrow> gc_ptr \<Rightarrow> bool" where
  "gc_ptr_eq lhs rhs \<longleftrightarrow> gc_ptr_get lhs = gc_ptr_get rhs"

definition gc_ptr_eq_null :: "gc_ptr \<Rightarrow> bool" where
  "gc_ptr_eq_null lhs \<longleftrightarrow> gc_ptr_get lhs = 0"

definition gc_ptr_less :: "gc_ptr \<Rightarrow> gc_ptr \<Rightarrow> bool" where
  "gc_ptr_less lhs rhs \<longleftrightarrow> gc_ptr_get lhs < gc_ptr_get rhs"

definition gc_ptr_swap :: "gc_ptr \<Rightarrow> gc_ptr \<Rightarrow> gc_ptr \<times> gc_ptr" where
  "gc_ptr_swap lhs rhs =
     (let tmp = gc_ptr_get lhs;
          lhs = gc_ptr_reset (gc_ptr_get rhs) lhs;
          rhs = gc_ptr_reset tmp rhs
      in (lhs, rhs))"

text \<open>The three casts differ in the pointer cast they apply.\<close>

definition gc_ptr_cast :: "(addr \<Rightarrow> addr) \<Rightarrow> gc_ptr \<Rightarrow> gc_ptr" where
  "gc_ptr_cast cast p = Gc_Ptr (cast (gc_ptr_get p))"

text \<open>\<open>std::hash\<close> of a handle and of an array handle; \<open>hash_pointer\<close> is the standard library's \<open>std::hash<T*>\<close>.\<close>

definition gc_ptr_hash :: "(addr \<Rightarrow> size_t) \<Rightarrow> gc_ptr \<Rightarrow> size_t" where
  "gc_ptr_hash hash_pointer p = hash_pointer (gc_ptr_get p)"

definition gc_array_ptr_hash :: "(addr \<Rightarrow> size_t) \<Rightarrow> gc_ptr \<Rightarrow> size_t" where
  "gc_array_ptr_hash hash_pointer p = hash_pointer (gc_ptr_get p)"

instantiation gc_ptr :: linorder
begin

definition less_eq_gc_ptr :: "gc_ptr \<Rightarrow> gc_ptr \<Rightarrow> bool" where
  "less_eq_gc_ptr p q \<longleftrightarrow> gc_ptr_less p q \<or> gc_ptr_eq p q"

definition less_gc_ptr :: "gc_ptr \<Rightarrow> gc_ptr \<Rightarrow> bool" where
  "less_gc_ptr p q \<longleftrightarrow> gc_ptr_less p q"

instance
  by standard
    (auto simp: less_eq_gc_ptr_def less_gc_ptr_def gc_ptr_less_def gc_ptr_eq_def gc_ptr_get_def
      intro: gc_ptr.expand)

end

lemma gc_ptr_eq_iff [simp]: "gc_ptr_eq p q \<longleftrightarrow> p = q"
  by (auto simp: gc_ptr_eq_def gc_ptr_get_def intro: gc_ptr.expand)

text \<open>Handles that compare equal have equal hashes, as unordered containers ask.\<close>

lemma gc_ptr_hash_eq: "gc_ptr_eq p q \<Longrightarrow> gc_ptr_hash h p = gc_ptr_hash h q"
  by (simp add: gc_ptr_eq_def gc_ptr_hash_def)

lemma gc_ptr_swap_result [simp]: "gc_ptr_swap p q = (q, p)"
  by (cases p; cases q) (simp add: gc_ptr_swap_def gc_ptr_reset_def gc_ptr_get_def Let_def)

end
