(* ===== verification/Root_Handles.thy ===== *)
theory Root_Handles
  imports Collector Gc_Ptr
begin

text \<open>
  Exact roots: \<open>register_root_object\<close> and \<open>unregister_root_object\<close> of \<open>GCManager.hpp\<close>, and the handle
  \<open>gc_root\<close> of \<open>include/gc/gc_root.hpp\<close> for objects. A root is the word of its
  \<open>gc_ptr\<close> at its address \<open>this\<close>, registered as a root range while the handle lives.
\<close>

section \<open>Root objects\<close>

definition register_root_object :: "gc_env \<Rightarrow> tid \<Rightarrow> size_t \<Rightarrow> addr \<Rightarrow> unit gc" where
  "register_root_object env current sizeof_T object s =
     (if object = 0 then (Return (), s)
      else register_root_range env current object (object + sizeof_T) s)"

definition unregister_root_object :: "gc_env \<Rightarrow> tid \<Rightarrow> size_t \<Rightarrow> addr \<Rightarrow> unit gc" where
  "unregister_root_object env current sizeof_T object s =
     (if object = 0 then (Return (), s)
      else unregister_root_range env current object (object + sizeof_T) s)"

section \<open>The handle\<close>

definition register_self :: "gc_env \<Rightarrow> tid \<Rightarrow> addr \<Rightarrow> unit gc" where
  "register_self env current this s = register_root_object env current word_size this s"

definition unregister_self :: "gc_env \<Rightarrow> tid \<Rightarrow> addr \<Rightarrow> unit gc" where
  "unregister_self env current this s = noexceptp (unregister_root_object env current word_size this s)"

definition gc_root_default :: "gc_env \<Rightarrow> tid \<Rightarrow> addr \<Rightarrow> unit gc" where
  "gc_root_default env current this s = register_self env current this (put_word this 0 s)"

definition gc_root_from_ptr :: "gc_env \<Rightarrow> tid \<Rightarrow> addr \<Rightarrow> gc_ptr \<Rightarrow> unit gc" where
  "gc_root_from_ptr env current this ptr s =
     register_self env current this (put_word this (gc_ptr_get ptr) s)"

definition gc_root_convert :: "gc_env \<Rightarrow> tid \<Rightarrow> (addr \<Rightarrow> addr) \<Rightarrow> addr \<Rightarrow> gc_ptr \<Rightarrow> unit gc" where
  "gc_root_convert env current convert this ptr s =
     register_self env current this (put_word this (gc_ptr_get (gc_ptr_convert convert ptr)) s)"

definition gc_root_copy :: "gc_env \<Rightarrow> tid \<Rightarrow> addr \<Rightarrow> addr \<Rightarrow> unit gc" where
  "gc_root_copy env current this other s =
     register_self env current this (put_word this (get_word other s) s)"

definition gc_root_move :: "gc_env \<Rightarrow> tid \<Rightarrow> addr \<Rightarrow> addr \<Rightarrow> unit gc" where
  "gc_root_move env current this other s =
     bindp (register_self env current this (put_word this (get_word other s) s)) (\<lambda>_ s.
       (Return (), put_word other 0 s))"

definition gc_root_destroy :: "gc_env \<Rightarrow> tid \<Rightarrow> addr \<Rightarrow> unit gc" where
  "gc_root_destroy env current this s = unregister_self env current this s"

definition gc_root_copy_assign :: "addr \<Rightarrow> addr \<Rightarrow> unit gc" where
  "gc_root_copy_assign this other s =
     (Return (), if this \<noteq> other then put_word this (get_word other s) s else s)"

definition gc_root_move_assign :: "addr \<Rightarrow> addr \<Rightarrow> unit gc" where
  "gc_root_move_assign this other s =
     (Return (), if this \<noteq> other then put_word other 0 (put_word this (get_word other s) s) else s)"

definition gc_root_assign_ptr :: "addr \<Rightarrow> gc_ptr \<Rightarrow> unit gc" where
  "gc_root_assign_ptr this ptr s = (Return (), put_word this (gc_ptr_get ptr) s)"

definition gc_root_assign_null :: "addr \<Rightarrow> unit gc" where
  "gc_root_assign_null this s = (Return (), put_word this 0 s)"

definition gc_root_reset :: "addr \<Rightarrow> addr \<Rightarrow> unit gc" where
  "gc_root_reset this ptr s = (Return (), put_word this ptr s)"

definition gc_root_get :: "addr \<Rightarrow> addr gc" where
  "gc_root_get this s = (Return (get_word this s), s)"

definition gc_root_deref :: "addr \<Rightarrow> addr gc" where
  "gc_root_deref this s = (Return (gc_ptr_deref (Gc_Ptr (get_word this s))), s)"

definition gc_root_arrow :: "addr \<Rightarrow> addr gc" where
  "gc_root_arrow this s = (Return (gc_ptr_arrow (Gc_Ptr (get_word this s))), s)"

definition gc_root_bool :: "addr \<Rightarrow> bool gc" where
  "gc_root_bool this s = (Return (gc_ptr_bool (Gc_Ptr (get_word this s))), s)"

definition as_gc_ptr :: "addr \<Rightarrow> gc_ptr gc" where
  "as_gc_ptr this s = (Return (Gc_Ptr (get_word this s)), s)"

section \<open>The abstract root set\<close>

text \<open>
  The specification: a map from the addresses of the live roots to the pointers they hold. The
  words of the roots hold those pointers, and the range table holds, beside the ranges
  \<open>base\<close> of others, one range for each live root and no other.
\<close>

definition root_slot :: "addr \<Rightarrow> bool" where
  "root_slot this \<longleftrightarrow> this \<noteq> 0 \<and> unat this mod 8 = 0 \<and> unat this + 8 < 2 ^ 64"

definition fresh_root :: "(addr \<rightharpoonup> addr) \<Rightarrow> addr \<Rightarrow> bool" where
  "fresh_root m this \<longleftrightarrow> root_slot this \<and> (\<forall>h\<in>dom m. word_apart h this)"

definition self_range :: "addr \<Rightarrow> RootRange" where
  "self_range this = \<lparr>rr_begin = this, rr_end = this + word_size\<rparr>"

definition roots_sim :: "RootRange multiset \<Rightarrow> (addr \<rightharpoonup> addr) \<Rightarrow> gc_state \<Rightarrow> bool" where
  "roots_sim base m s \<longleftrightarrow> finite (dom m) \<and>
     (\<forall>h\<in>dom m. root_slot h \<and> (\<forall>k\<in>dom m. h \<noteq> k \<longrightarrow> word_apart h k)) \<and>
     (\<forall>h p. m h = Some p \<longrightarrow> get_word h s = p) \<and>
     mset (gc_root_ranges s) = base + image_mset self_range (mset_set (dom m))"

definition root_frame :: "gc_state \<Rightarrow> gc_state \<Rightarrow> bool" where
  "root_frame s t \<longleftrightarrow> (\<exists>m r. t = s\<lparr>gc_mem := m, gc_root_ranges := r\<rparr>)"

lemma put_word_ranges [simp]:
  "gc_root_ranges (put_word a v s) = gc_root_ranges s" "may_proceed c (put_word a v s) = may_proceed c s"
  by (simp_all add: put_word_def)

lemma not_word_apart_self [simp]: "\<not> word_apart a a"
  by (simp add: word_apart_def)

lemma root_frame_refl [simp]: "root_frame s s"
  unfolding root_frame_def by (rule exI [of _ "gc_mem s"], rule exI [of _ "gc_root_ranges s"]) simp

lemma root_frame_trans: "root_frame s t \<Longrightarrow> root_frame t u \<Longrightarrow> root_frame s u"
  by (force simp: root_frame_def)

lemma root_frame_ranges [simp]: "root_frame s t \<Longrightarrow> root_frame s (t\<lparr>gc_root_ranges := w\<rparr>)"
  by (force simp: root_frame_def)

lemma root_frame_put [simp]: "root_frame s t \<Longrightarrow> root_frame s (put_word a v t)"
proof -
  assume "root_frame s t"
  then obtain m w where "t = s\<lparr>gc_mem := m, gc_root_ranges := w\<rparr>" by (auto simp: root_frame_def)
  then have "put_word a v t = s\<lparr>gc_mem := store_word m a v, gc_root_ranges := w\<rparr>" by (simp add: put_word_def)
  then show ?thesis unfolding root_frame_def by blast
qed

lemma root_frame_keeps:
  assumes "root_frame s t"
  shows "may_proceed c t = may_proceed c s" "find_block_locked x t = find_block_locked x s"
    "heap_inv t = heap_inv s" "can_collect c t = can_collect c s"
proof -
  obtain m r where t: "t = s\<lparr>gc_mem := m, gc_root_ranges := r\<rparr>" using assms by (auto simp: root_frame_def)
  show "may_proceed c t = may_proceed c s" "find_block_locked x t = find_block_locked x s"
    "heap_inv t = heap_inv s" "can_collect c t = can_collect c s"
    using heap_inv_tables [of t s] heap_inv_tables [of s t]
    by (auto simp: t may_proceed_def find_block_locked_def can_collect_def thread_registered_def
        find_thread_state_locked_def others_paused_def)
qed

lemma self_range_normal: "root_slot this \<Longrightarrow> normal_range this (this + word_size) = self_range this"
  "root_slot this \<Longrightarrow> this + word_size \<noteq> 0" "root_slot this \<Longrightarrow> unat (this + word_size) = unat this + 8"
proof -
  assume r: "root_slot this"
  then show u: "unat (this + word_size) = unat this + 8"
    by (simp add: root_slot_def unat_word_ariths)
  then show "this + word_size \<noteq> 0" by auto
  show "normal_range this (this + word_size) = self_range this"
    using u by (simp add: normal_range_def self_range_def word_less_nat_alt)
qed

lemma register_self_result:
  assumes "root_slot this" "may_proceed c s"
  shows "run (register_self env c this s) =
    (if e_alloc_fails env Root_Ranges_Push then (Threw Bad_Alloc, s)
     else (Done (), s\<lparr>gc_root_ranges := gc_root_ranges s @ [self_range this]\<rparr>))"
proof -
  have "may_proceed c (s\<lparr>gc_root_ranges := r\<rparr>)" for r using assms(2) by (simp add: may_proceed_def)
  then show ?thesis
    using assms self_range_normal [OF assms(1)]
    by (simp add: register_self_def register_root_object_def register_root_range_def prog_simps root_slot_def)
qed

lemma unregister_self_result:
  assumes "root_slot this" "may_proceed c s"
  shows "run (unregister_self env c this s) =
    (Done (), s\<lparr>gc_root_ranges := remove1 (self_range this) (gc_root_ranges s)\<rparr>)"
  using assms self_range_normal [OF assms(1)]
  by (simp add: unregister_self_def noexceptp_def unregister_root_object_def unregister_root_range_def
      prog_simps root_slot_def)

lemma fresh_root_not_live: "fresh_root m this \<Longrightarrow> this \<notin> dom m"
  by (metis fresh_root_def not_word_apart_self)

lemma roots_sim_put_fresh: "roots_sim base m s \<Longrightarrow> fresh_root m this \<Longrightarrow> roots_sim base m (put_word this v s)"
proof -
  assume "roots_sim base m s" "fresh_root m this"
  moreover have "h \<noteq> this \<and> word_apart h this" if "m h = Some p" for h p
    using that domI [of m h p] fresh_root_not_live [OF \<open>fresh_root m this\<close>] \<open>fresh_root m this\<close>
    by (metis fresh_root_def)
  ultimately show ?thesis by (auto simp: roots_sim_def get_put_word)
qed

text \<open>Construction of a root over the pointer \<open>v\<close>: the code that all constructors share.\<close>

lemma root_construct:
  assumes sim: "roots_sim base m s" and fresh: "fresh_root m this" and mp: "may_proceed c s"
  shows "e_alloc_fails env Root_Ranges_Push \<Longrightarrow>
      run (register_self env c this (put_word this v s)) = (Threw Bad_Alloc, put_word this v s)"
    and "\<not> e_alloc_fails env Root_Ranges_Push \<Longrightarrow>
      \<exists>t. run (register_self env c this (put_word this v s)) = (Done (), t) \<and> root_frame s t \<and>
        roots_sim base (m(this \<mapsto> v)) t"
proof -
  have slot: "root_slot this" and nl: "this \<notin> dom m" using fresh fresh_root_not_live [OF fresh] by (auto simp: fresh_root_def)
  have mp': "may_proceed c (put_word this v s)" using mp by simp
  note r = register_self_result [OF slot mp', of env]
  let ?t = "put_word this v s\<lparr>gc_root_ranges := gc_root_ranges s @ [self_range this]\<rparr>"
  have "get_word h ?t = get_word h (put_word this v s)" for h by (simp add: get_word_def)
  then have "roots_sim base (m(this \<mapsto> v)) ?t"
    using sim slot nl fresh
    by (auto simp: roots_sim_def fresh_root_def get_put_word word_apart_sym domI)
  then show "\<not> e_alloc_fails env Root_Ranges_Push \<Longrightarrow> \<exists>t. run (register_self env c this (put_word this v s)) = (Done (), t) \<and> root_frame s t \<and>
        roots_sim base (m(this \<mapsto> v)) t"
    using r by (intro exI [of _ ?t]) simp
  show "e_alloc_fails env Root_Ranges_Push \<Longrightarrow>
      run (register_self env c this (put_word this v s)) = (Threw Bad_Alloc, put_word this v s)"
    using r by simp
qed

lemma root_destroy:
  assumes sim: "roots_sim base m s" and live: "this \<in> dom m" and mp: "may_proceed c s"
  shows "\<exists>t. run (gc_root_destroy env c this s) = (Done (), t) \<and> root_frame s t \<and> roots_sim base (m(this := None)) t"
proof -
  let ?t = "s\<lparr>gc_root_ranges := remove1 (self_range this) (gc_root_ranges s)\<rparr>"
  have slot: "root_slot this" using sim live by (simp add: roots_sim_def)
  have "mset_set (dom m) = add_mset this (mset_set (dom m - {this}))"
    using sim live by (intro mset_set.remove) (simp_all add: roots_sim_def)
  then have "roots_sim base (m(this := None)) ?t"
    using sim by (auto simp: roots_sim_def get_word_def)
  then show ?thesis using unregister_self_result [OF slot mp, of env] by (simp add: gc_root_destroy_def)
qed

lemma root_write:
  assumes "roots_sim base m s" "this \<in> dom m"
  shows "roots_sim base (m(this \<mapsto> v)) (put_word this v s)"
  using assms by (auto simp: roots_sim_def get_put_word insert_absorb domI)

text \<open>A live root keeps what it points into.\<close>

lemma rooted_reachable:
  assumes sim: "roots_sim base m s" and root: "m this = Some p" and b: "find_block_locked p s = Some b"
  shows "b \<in> reachable env c s"
proof (rule candidate_reachable [OF _ b])
  have slot: "root_slot this" and w: "load_word (gc_mem s) this = p"
    using sim root by (auto simp: roots_sim_def get_word_def domI)
  have "self_range this \<in># mset (gc_root_ranges s)" using sim root by (auto simp: roots_sim_def)
  then have mem: "self_range this \<in> set (gc_root_ranges s)" by simp
  note sr = self_range_normal(2,3) [OF slot]
  have le: "this \<le> this + word_size" using sr(2) by (simp add: word_le_nat_alt)
  have "p \<in> set (range_candidates (gc_mem s) this (this + word_size))"
    using range_candidate [of this "this + word_size" this "gc_mem s"] slot sr le w
    by (simp add: root_slot_def min_absorb1 max_absorb2)
  with mem show "p \<in> set (root_candidates env c s)"
    unfolding root_candidates_def by (force simp: self_range_def)
qed

end
