(* ===== verification/Construction.thy ===== *)
theory Construction
  imports Allocation Gc_Ptr
begin

text \<open>
  Construction of managed objects and arrays, \<open>include/gc/gc_new.hpp\<close>: \<open>gc_new\<close>,
  \<open>construct_array\<close> and the finalizer \<open>ArrayDestructor\<close>. The element type is given by its size, its
  alignment, the id of its finalizer and its constructor and destructor, which are user code.
\<close>

section \<open>Objects\<close>

text \<open>The constructor call: publish the block after it, take the block back when it throws.\<close>

definition construct_object :: "gc_env \<Rightarrow> tid \<Rightarrow> (addr \<Rightarrow> unit gc) \<Rightarrow> addr \<Rightarrow> gc_ptr gc" where
  "construct_object env current construct payload s =
     bindp (catchp (construct payload s) (\<lambda>x s.
         bindp (release_unconstructed env current payload s) (\<lambda>_ s. (Throw x, s)))) (\<lambda>_ s.
     bindp (finish_construction env current payload s) (\<lambda>_ s.
       (Return (Gc_Ptr payload), s)))"

definition gc_new ::
    "gc_env \<Rightarrow> tid \<Rightarrow> size_t \<Rightarrow> size_t \<Rightarrow> DestructorFn \<Rightarrow> (addr \<Rightarrow> unit gc) \<Rightarrow> gc_ptr gc" where
  "gc_new env current sizeof_T alignof_T destroy_object construct s =
     bindp (collect_if_needed env current sizeof_T s) (\<lambda>_ s.
     bindp (malloc_internal env current sizeof_T alignof_T (Some destroy_object) True s) (\<lambda>payload s.
       construct_object env current construct payload s))"

text \<open>A \<open>noexcept\<close> wrapper: every exception becomes the null handle.\<close>

definition or_null :: "(gc_state, gc_ptr) prog \<times> gc_state \<Rightarrow> (gc_state, gc_ptr) prog \<times> gc_state" where
  "or_null m = catchp m (\<lambda>_ s. (Return null_ptr, s))"

definition gc_new_nothrow ::
    "gc_env \<Rightarrow> tid \<Rightarrow> size_t \<Rightarrow> size_t \<Rightarrow> DestructorFn \<Rightarrow> (addr \<Rightarrow> unit gc) \<Rightarrow> gc_ptr gc" where
  "gc_new_nothrow env current sizeof_T alignof_T destroy_object construct s =
     or_null (gc_new env current sizeof_T alignof_T destroy_object construct s)"

section \<open>Arrays\<close>

definition array_elements_begin :: "size_t \<Rightarrow> addr \<Rightarrow> addr" where
  "array_elements_begin alignof_T payload = payload + array_elements_offset alignof_T"

text \<open>\<open>for (i = count; i > 0; --i) elems[i - 1].~T();\<close>\<close>

primrec destroy_elements :: "addr \<Rightarrow> size_t \<Rightarrow> (addr \<Rightarrow> unit gc) \<Rightarrow> nat \<Rightarrow> unit gc" where
  "destroy_elements elems sizeof_T destruct 0 = (\<lambda>s. (Return (), s))"
| "destroy_elements elems sizeof_T destruct (Suc i) = (\<lambda>s.
     let e = elems + of_nat i * sizeof_T in
     bindp (destruct e (s\<lparr>gc_events := gc_events s @ [Destroyed e]\<rparr>))
       (\<lambda>_ s. destroy_elements elems sizeof_T destruct i s))"

definition ArrayDestructor_destroy ::
    "size_t \<Rightarrow> size_t \<Rightarrow> (addr \<Rightarrow> unit gc) \<Rightarrow> addr \<Rightarrow> unit gc" where
  "ArrayDestructor_destroy sizeof_T alignof_T destruct payload s =
     (let cnt = load_word (gc_mem s) payload in
      catchp (destroy_elements (array_elements_begin alignof_T payload) sizeof_T destruct (unat cnt) s)
        (\<lambda>_ s. (Terminate, s)))"

text \<open>
  \<open>for (; constructed < count; ++constructed)\<close>, with the number of elements still to construct
  as recursion argument. The count prefix follows every construction.
\<close>

primrec construct_elements ::
    "addr \<Rightarrow> addr \<Rightarrow> size_t \<Rightarrow> (addr \<Rightarrow> size_t \<Rightarrow> unit gc) \<Rightarrow> size_t \<Rightarrow> nat \<Rightarrow> unit gc" where
  "construct_elements payload elems sizeof_T construct constructed 0 = (\<lambda>s. (Return (), s))"
| "construct_elements payload elems sizeof_T construct constructed (Suc n) = (\<lambda>s.
     let e = elems + constructed * sizeof_T in
     bindp (construct e constructed s) (\<lambda>_ s.
       construct_elements payload elems sizeof_T construct (constructed + 1) n
         (s\<lparr>gc_events := gc_events s @ [Constructed e],
            gc_mem := store_word (gc_mem s) payload (constructed + 1)\<rparr>)))"

text \<open>The part of \<open>construct_array\<close> after the allocation.\<close>

definition fill_array ::
    "gc_env \<Rightarrow> tid \<Rightarrow> size_t \<Rightarrow> size_t \<Rightarrow> (addr \<Rightarrow> unit gc) \<Rightarrow> size_t \<Rightarrow>
     (addr \<Rightarrow> size_t \<Rightarrow> unit gc) \<Rightarrow> addr \<Rightarrow> gc_ptr gc" where
  "fill_array env current sizeof_T alignof_T destruct cnt construct payload s =
     bindp (catchp
         (bindp (construct_elements payload (payload + array_elements_offset alignof_T) sizeof_T construct 0 (unat cnt)
             (s\<lparr>gc_mem := store_word (gc_mem s) payload 0\<rparr>))
           (\<lambda>_ s. (Return None, s)))
         (\<lambda>x s. (Return (Some x), s))) (\<lambda>construction_failure s.
       case construction_failure of
         Some x \<Rightarrow>
           bindp (ArrayDestructor_destroy sizeof_T alignof_T destruct payload s) (\<lambda>_ s.
           bindp (release_unconstructed env current payload s) (\<lambda>_ s. (Throw x, s)))
       | None \<Rightarrow>
           bindp (finish_construction env current payload s) (\<lambda>_ s.
             (Return (Gc_Ptr (array_elements_begin alignof_T payload)), s)))"

definition construct_array ::
    "gc_env \<Rightarrow> tid \<Rightarrow> size_t \<Rightarrow> size_t \<Rightarrow> DestructorFn \<Rightarrow> (addr \<Rightarrow> unit gc) \<Rightarrow> size_t \<Rightarrow>
     (addr \<Rightarrow> size_t \<Rightarrow> unit gc) \<Rightarrow> gc_ptr gc" where
  "construct_array env current sizeof_T alignof_T destroy destruct cnt construct s =
     (if cnt = 0 then (Return null_ptr, s)
      else
        let prefix_size = array_elements_offset alignof_T in
        if multiply_would_overflow sizeof_T cnt \<or> add_would_overflow prefix_size (sizeof_T * cnt)
        then (Throw Bad_Alloc, s)
        else
          let payload_size = prefix_size + sizeof_T * cnt;
              alignment = (if word_size \<le> alignof_T then alignof_T else word_size)
          in bindp (collect_if_needed env current payload_size s) (\<lambda>_ s.
             bindp (malloc_internal env current payload_size alignment (Some destroy) True s) (\<lambda>payload s.
               fill_array env current sizeof_T alignof_T destruct cnt construct payload s)))"

text \<open>The callers of \<open>construct_array\<close>: value, copy and generated elements.\<close>

definition gc_new_array ::
    "gc_env \<Rightarrow> tid \<Rightarrow> size_t \<Rightarrow> size_t \<Rightarrow> DestructorFn \<Rightarrow> (addr \<Rightarrow> unit gc) \<Rightarrow> size_t \<Rightarrow>
     (addr \<Rightarrow> unit gc) \<Rightarrow> gc_ptr gc" where
  "gc_new_array env current sizeof_T alignof_T destroy destruct cnt value_init s =
     construct_array env current sizeof_T alignof_T destroy destruct cnt (\<lambda>e _. value_init e) s"

definition gc_new_array_copy ::
    "gc_env \<Rightarrow> tid \<Rightarrow> size_t \<Rightarrow> size_t \<Rightarrow> DestructorFn \<Rightarrow> (addr \<Rightarrow> unit gc) \<Rightarrow> size_t \<Rightarrow>
     (addr \<Rightarrow> addr \<Rightarrow> unit gc) \<Rightarrow> addr \<Rightarrow> gc_ptr gc" where
  "gc_new_array_copy env current sizeof_T alignof_T destroy destruct cnt copy initial_value s =
     construct_array env current sizeof_T alignof_T destroy destruct cnt (\<lambda>e _. copy e initial_value) s"

definition gc_generate_array ::
    "gc_env \<Rightarrow> tid \<Rightarrow> size_t \<Rightarrow> size_t \<Rightarrow> DestructorFn \<Rightarrow> (addr \<Rightarrow> unit gc) \<Rightarrow> size_t \<Rightarrow>
     (size_t \<Rightarrow> 'v gc) \<Rightarrow> (addr \<Rightarrow> 'v \<Rightarrow> unit gc) \<Rightarrow> gc_ptr gc" where
  "gc_generate_array env current sizeof_T alignof_T destroy destruct cnt generator init s =
     construct_array env current sizeof_T alignof_T destroy destruct cnt
       (\<lambda>e index s. bindp (generator index s) (\<lambda>v s. init e v s)) s"

definition gc_new_array_nothrow ::
    "gc_env \<Rightarrow> tid \<Rightarrow> size_t \<Rightarrow> size_t \<Rightarrow> DestructorFn \<Rightarrow> (addr \<Rightarrow> unit gc) \<Rightarrow> size_t \<Rightarrow>
     (addr \<Rightarrow> unit gc) \<Rightarrow> gc_ptr gc" where
  "gc_new_array_nothrow env current sizeof_T alignof_T destroy destruct cnt value_init s =
     or_null (gc_new_array env current sizeof_T alignof_T destroy destruct cnt value_init s)"

definition gc_new_array_copy_nothrow ::
    "gc_env \<Rightarrow> tid \<Rightarrow> size_t \<Rightarrow> size_t \<Rightarrow> DestructorFn \<Rightarrow> (addr \<Rightarrow> unit gc) \<Rightarrow> size_t \<Rightarrow>
     (addr \<Rightarrow> addr \<Rightarrow> unit gc) \<Rightarrow> addr \<Rightarrow> gc_ptr gc" where
  "gc_new_array_copy_nothrow env current sizeof_T alignof_T destroy destruct cnt copy initial_value s =
     or_null (gc_new_array_copy env current sizeof_T alignof_T destroy destruct cnt copy initial_value s)"

definition gc_generate_array_nothrow ::
    "gc_env \<Rightarrow> tid \<Rightarrow> size_t \<Rightarrow> size_t \<Rightarrow> DestructorFn \<Rightarrow> (addr \<Rightarrow> unit gc) \<Rightarrow> size_t \<Rightarrow>
     (size_t \<Rightarrow> 'v gc) \<Rightarrow> (addr \<Rightarrow> 'v \<Rightarrow> unit gc) \<Rightarrow> gc_ptr gc" where
  "gc_generate_array_nothrow env current sizeof_T alignof_T destroy destruct cnt generator init s =
     or_null (gc_generate_array env current sizeof_T alignof_T destroy destruct cnt generator init s)"

section \<open>Objects, run alone\<close>

lemma collect_if_needed_cases:
  assumes "heap_inv s" "can_collect c s" "finalizers_return env"
  obtains (throws) t where "run (collect_if_needed env c n s) = (Threw Bad_Alloc, t)" "uncollected s t"
    | (returns) u where "run (collect_if_needed env c n s) = (Done (), u)" "maybe_collected env c s u"
proof -
  have run: "may_proceed c s" "thread_registered c s" using assms(2) by (simp_all add: can_collect_def)
  note r = collect_if_needed_result [OF run, of env n]
  from assms show ?thesis
  proof (cases rule: collect_cases)
    case (throws t)
    then show ?thesis
      using r that(1) [of t] that(2) [of s]
      by (auto simp: maybe_collected_def split: if_splits)
  next
    case (returns hs t)
    then show ?thesis
      using r that(2) [of t] that(2) [of s]
      by (auto simp: maybe_collected_def split: if_splits)
  qed
qed

text \<open>
  What is asked of a constructor that runs on a payload under construction: it returns or
  throws, it may allocate and collect, and it leaves a well-formed heap in which its own block is
  still under construction.
\<close>

definition constructor_ok :: "tid \<Rightarrow> (addr \<Rightarrow> unit gc) \<Rightarrow> bool" where
  "constructor_ok c construct \<longleftrightarrow>
     (\<forall>p s b. heap_inv s \<longrightarrow> can_collect c s \<longrightarrow> om_find p (gc_allocations s) = Some b \<longrightarrow>
        br_constructing b \<longrightarrow>
        (\<exists>r t. run (construct p s) = (r, t) \<and> (r = Done () \<or> (\<exists>x. r = Threw x)) \<and>
           heap_inv t \<and> can_collect c t \<and> om_find p (gc_allocations t) = Some b))"

lemma constructor_okE:
  assumes "constructor_ok c construct" "heap_inv s" "can_collect c s"
    "om_find p (gc_allocations s) = Some b" "br_constructing b"
  obtains (returns) t where "run (construct p s) = (Done (), t)" "heap_inv t" "can_collect c t"
      "om_find p (gc_allocations t) = Some b"
    | (throws) x t where "run (construct p s) = (Threw x, t)" "heap_inv t" "can_collect c t"
      "om_find p (gc_allocations t) = Some b"
  using assms unfolding constructor_ok_def by blast

lemma allocated_find:
  assumes "heap_inv u" "allocated u raw off n d al c t"
  shows "om_find (raw + off) (gc_allocations t) = Some (block_at raw off n c)" "raw + off \<noteq> 0"
proof -
  have i: "index_inv t" using assms(2) by (simp add: allocated_def heap_inv_def)
  have "block_at raw off n c \<in> blocks t" using allocated_blocks(1) [OF assms] by simp
  then show "om_find (raw + off) (gc_allocations t) = Some (block_at raw off n c)"
    using om_find_mem [OF index_inv_om_wf [OF i]] blocks_iff [OF i] by (simp add: block_at_def)
  have "0 < unat off" using assms(2) by (simp add: allocated_def fits_def)
  then have "0 < unat (raw + off)" using allocated_blocks(4) [OF assms] by simp
  then show "raw + off \<noteq> 0" by auto
qed

lemma released_find:
  assumes "heap_inv s" "om_find p (gc_allocations s) = Some b"
  shows "om_find p (gc_allocations (free_block_memory (br_header b) (unlinked p b s))) = None"
  using smap.find_erase [OF index_inv_om_wf, of s p p] assms(1)
  by (simp add: free_block_memory_def heap_inv_def)

lemma construct_object_cases:
  assumes ctor: "constructor_ok c construct" and s: "heap_inv s" "can_collect c s"
    and b: "om_find p (gc_allocations s) = Some b" "br_constructing b" "p \<noteq> 0"
  obtains (failed) x u where "run (construct p s) = (Threw x, u)"
      "run (construct_object env c construct p s) = (Threw x, free_block_memory (br_header b) (unlinked p b u))"
      "heap_inv (free_block_memory (br_header b) (unlinked p b u))"
      "om_find p (gc_allocations (free_block_memory (br_header b) (unlinked p b u))) = None"
    | (returns) t where "run (construct_object env c construct p s) = (Done (Gc_Ptr p), t)" "heap_inv t"
      "om_find p (gc_allocations t) = Some (b\<lparr>br_constructing := False\<rparr>)"
  using ctor s b(1,2)
proof (cases rule: constructor_okE)
  case v: (returns v)
  let ?t = "v\<lparr>gc_allocations := om_adjust p (\<lambda>b. b\<lparr>br_constructing := False\<rparr>) (gc_allocations v)\<rparr>"
  have mp: "may_proceed c v" using v(3) by (simp add: can_collect_def)
  show ?thesis
  proof (rule that(2))
    show "run (construct_object env c construct p s) = (Done (Gc_Ptr p), ?t)"
      using finish_construction_result [OF mp, of env p] v(4)
      by (simp add: construct_object_def prog_simps v(1))
    show "om_find p (gc_allocations ?t) = Some (b\<lparr>br_constructing := False\<rparr>)"
      using v(2,4) smap.find_adjust [OF index_inv_om_wf] by (simp add: heap_inv_def)
  qed (rule heap_inv_constructing [OF v(2)])
next
  case x: (throws x v)
  have mp: "may_proceed c v" "thread_registered c v" using x(3) by (simp_all add: can_collect_def)
  show ?thesis
    using release_unconstructed_result [OF mp b(3), of env] x(4)
    by (intro that(1) [OF x(1) _ release_unconstructed_inv [OF x(2,4)] released_find [OF x(2,4)]])
      (simp add: construct_object_def prog_simps x(1))
qed

text \<open>The first two calls: a collection when it is due, then the allocation.\<close>

lemma prepare_cases:
  assumes inv: "heap_inv s" and can: "can_collect c s" and fin: "finalizers_return env" and new: "op_new_ok env"
  obtains (no_memory) t where
      "\<And>f :: addr \<Rightarrow> gc_ptr gc. run (bindp (collect_if_needed env c n s) (\<lambda>_ s.
        bindp (malloc_internal env c n al d True s) f)) = (Threw Bad_Alloc, t)"
      "heap_inv t" "set (gc_regions t) \<subseteq> set (gc_regions s)"
    | (allocated) p b u t where
      "\<And>f :: addr \<Rightarrow> gc_ptr gc. run (bindp (collect_if_needed env c n s) (\<lambda>_ s.
        bindp (malloc_internal env c n al d True s) f)) = run (f p t)"
      "heap_inv t" "can_collect c t" "om_find p (gc_allocations t) = Some b" "br_constructing b" "p \<noteq> 0"
      "unat (br_payload_end b) = unat p + unat n" "br_payload_begin b = p" "unat al dvd unat p"
      "set (gc_regions u) \<subseteq> set (gc_regions s)" "gc_regions t = (br_header b, p - br_header b + n) # gc_regions u"
      "maybe_collected env c s u \<or> (\<exists>w. maybe_collected env c s w \<and> maybe_collected env c w u)"
  using inv can fin
proof (cases rule: collect_if_needed_cases [where n = n])
  case (throws t)
  have "gc_regions t = gc_regions s" using marks_only_sel(2) [OF throws(2) [unfolded uncollected_def]] by simp
  with throws show ?thesis
    using uncollected_inv [OF throws(2) inv] by (intro no_memory [of t]) (simp_all add: prog_simps)
next
  case w: (returns w)
  note rw = maybe_collected_ready [OF inv can w(2)]
  from rw(1,5) fin new show ?thesis
  proof (cases rule: malloc_cases [where n = n and al = al and d = d and constructing = True])
    case (throws t)
    then show ?thesis using rw(4) by (intro no_memory [of t]) (auto simp: prog_simps w(1))
  next
    case m: (returns raw off u t)
    note ru = maybe_collected_ready [OF rw(1,5) m(2)]
    note sizes = allocated_blocks(4,5) [OF ru(1) m(3)]
    show ?thesis
    proof (rule allocated [of "raw + off" t "block_at raw off n True" u])
      show "run (bindp (collect_if_needed env c n s) (\<lambda>_ s. bindp (malloc_internal env c n al d True s) f)) =
        run (f (raw + off) t)" for f :: "addr \<Rightarrow> gc_ptr gc" by (simp add: prog_simps w(1) m(1))
      show "unat al dvd unat (raw + off)" by (rule aligned_payload [OF m(5,4,6) sizes(1)])
      show "set (gc_regions u) \<subseteq> set (gc_regions s)" using ru(4) rw(4) by blast
    qed (use m w sizes(2) same_control_can_collect [OF _ ru(5)] allocated_find [OF ru(1) m(3)]
         in \<open>auto simp: allocated_def block_at_def\<close>)
  qed
qed

lemma gc_new_cases:
  assumes "heap_inv s" "can_collect c s" "finalizers_return env" "op_new_ok env" "constructor_ok c construct"
  obtains (no_memory) t where "run (gc_new env c n al d construct s) = (Threw Bad_Alloc, t)" "heap_inv t"
    | (failed) p u v x t where "run (construct p u) = (Threw x, v)"
      "run (gc_new env c n al d construct s) = (Threw x, t)" "heap_inv t" "om_find p (gc_allocations t) = None"
    | (returns) p b t where "run (gc_new env c n al d construct s) = (Done (Gc_Ptr p), t)" "heap_inv t"
      "om_find p (gc_allocations t) = Some b" "\<not> br_constructing b"
      "unat (br_payload_end b) = unat p + unat n" "unat al dvd unat p"
  using assms(1-4)
proof (cases rule: prepare_cases [where n = n and al = al and d = "Some d"])
  case (no_memory t)
  show ?thesis by (rule that(1) [of t]) (simp_all add: gc_new_def no_memory)
next
  case (allocated p b u t)
  from assms(5) allocated(2-6) show ?thesis
  proof (cases rule: construct_object_cases [where env = env])
    case (failed x u)
    show ?thesis
      by (rule that(2) [OF failed(1) _ failed(3,4)]) (simp add: gc_new_def allocated(1) failed(2))
  next
    case (returns t')
    show ?thesis
      by (rule that(3) [of p t' "b\<lparr>br_constructing := False\<rparr>"])
        (use returns allocated(7,9) in \<open>simp_all add: gc_new_def allocated(1)\<close>)
  qed
qed

section \<open>Arrays, run alone\<close>

text \<open>
  What is asked of the code of an element: it leaves the tables of the manager alone, a
  constructor writes to its element only and returns or throws, a destructor returns.
\<close>

definition element_constructor_ok :: "size_t \<Rightarrow> (addr \<Rightarrow> size_t \<Rightarrow> unit gc) \<Rightarrow> bool" where
  "element_constructor_ok sizeof_T construct \<longleftrightarrow>
     (\<forall>e i s. \<exists>r t. run (construct e i s) = (r, t) \<and> (r = Done () \<or> (\<exists>x. r = Threw x)) \<and>
        finalizer_frame s t \<and> (\<forall>a. \<not> a - e < sizeof_T \<longrightarrow> gc_mem t a = gc_mem s a))"

definition element_destructor_ok :: "(addr \<Rightarrow> unit gc) \<Rightarrow> bool" where
  "element_destructor_ok destruct \<longleftrightarrow>
     (\<forall>e s. \<exists>t. run (destruct e s) = (Done (), t) \<and> finalizer_frame s t)"

definition element_at :: "addr \<Rightarrow> size_t \<Rightarrow> nat \<Rightarrow> addr" where
  "element_at elems sizeof_T i = elems + of_nat i * sizeof_T"

lemma load_word_cong: "(\<And>x. x - a < word_size \<Longrightarrow> m' x = m x) \<Longrightarrow> load_word m' a = load_word m a"
proof (rule bit_word_eqI)
  fix n assume same: "\<And>x. x - a < word_size \<Longrightarrow> m' x = m x" and "n < LENGTH(64)"
  then have "m' (a + of_nat (n div 8)) = m (a + of_nat (n div 8))"
    by (intro same) (simp add: of_nat_small_less)
  then show "bit (load_word m' a) n \<longleftrightarrow> bit (load_word m a) n" by (simp add: bit_load_word)
qed

text \<open>The elements of an array that fits lie behind the count prefix.\<close>

definition array_fits :: "size_t \<Rightarrow> size_t \<Rightarrow> nat \<Rightarrow> bool" where
  "array_fits prefix_size sizeof_T n \<longleftrightarrow>
     8 \<le> unat prefix_size \<and> unat prefix_size + n * unat sizeof_T < 2 ^ 64"

lemma prefix_outside_element:
  assumes fits: "array_fits prefix_size sizeof_T n" "i < n"
    and x: "x - payload < word_size"
  shows "\<not> x - element_at (payload + prefix_size) sizeof_T i < sizeof_T"
proof -
  let ?o = "unat prefix_size + i * unat sizeof_T"
  have le: "?o + unat sizeof_T \<le> unat prefix_size + n * unat sizeof_T"
    using fits(2) mult_le_mono1 [of "Suc i" n "unat sizeof_T"] by simp
  then have o: "?o < 2 ^ 64" using fits(1) by (simp add: array_fits_def)
  have "unat (prefix_size + of_nat i * sizeof_T) = ?o"
    using o by (simp add: unat_word_ariths unat_of_nat mod_mult_left_eq mod_add_right_eq)
  then have u: "unat (of_nat ?o :: u64) = ?o" "prefix_size + of_nat i * sizeof_T = of_nat ?o"
    using o by (simp_all add: unat_of_nat word_unat_eq_iff)
  have eq: "x - element_at (payload + prefix_size) sizeof_T i = (x - payload) - of_nat ?o"
    by (simp add: element_at_def diff_diff_eq add.assoc u(2) [symmetric])
  have small: "unat (x - payload) < 8" using x by (simp add: word_less_nat_alt)
  have "8 \<le> ?o" "?o + unat sizeof_T \<le> 2 ^ 64" using le fits(1) by (simp_all add: array_fits_def)
  moreover from this small have "unat ((x - payload) - of_nat ?o) = unat (x - payload) + 2 ^ 64 - ?o"
    unfolding unat_sub_if' [of "x - payload"] u(1) by simp
  ultimately have "unat sizeof_T \<le> unat (x - element_at (payload + prefix_size) sizeof_T i)"
    unfolding eq by simp
  then show ?thesis by (simp add: word_less_nat_alt)
qed

lemma element_constructor_okE:
  assumes "element_constructor_ok sizeof_T construct"
  obtains (returns) t where "run (construct e i s) = (Done (), t)" "finalizer_frame s t"
      "\<forall>a. \<not> a - e < sizeof_T \<longrightarrow> gc_mem t a = gc_mem s a"
    | (throws) x t where "run (construct e i s) = (Threw x, t)" "finalizer_frame s t"
      "\<forall>a. \<not> a - e < sizeof_T \<longrightarrow> gc_mem t a = gc_mem s a"
  using assms unfolding element_constructor_ok_def by blast

lemma finalizer_frame_mem: "finalizer_frame s t \<Longrightarrow> finalizer_frame s (t\<lparr>gc_mem := m\<rparr>)"
  by (simp add: finalizer_frame_def)

lemma finalizer_frame_mem_left: "finalizer_frame (s\<lparr>gc_mem := m\<rparr>) t = finalizer_frame s t"
  by (simp add: finalizer_frame_def)

definition constructions :: "addr \<Rightarrow> size_t \<Rightarrow> nat \<Rightarrow> nat \<Rightarrow> event list" where
  "constructions elems sizeof_T i k = map (Constructed \<circ> element_at elems sizeof_T) [i..<i + k]"

lemma construct_elements_cases:
  assumes ok: "element_constructor_ok sizeof_T construct"
    and fits: "array_fits prefix_size sizeof_T (i + n)"
    and prefix: "load_word (gc_mem s) payload = of_nat i"
  defines "elems \<equiv> payload + prefix_size"
  obtains (returns) t where
      "run (construct_elements payload elems sizeof_T construct (of_nat i) n s) = (Done (), t)"
      "finalizer_frame (s\<lparr>gc_events := gc_events s @ constructions elems sizeof_T i n\<rparr>) t"
      "load_word (gc_mem t) payload = of_nat (i + n)"
    | (throws) x k t where "k < n"
      "run (construct_elements payload elems sizeof_T construct (of_nat i) n s) = (Threw x, t)"
      "finalizer_frame (s\<lparr>gc_events := gc_events s @ constructions elems sizeof_T i k\<rparr>) t"
      "load_word (gc_mem t) payload = of_nat (i + k)"
  using fits prefix
proof (induction n arbitrary: i s thesis)
  case 0
  then show ?case
    by (intro "0.prems"(1) [of s]) (simp_all add: prog_simps constructions_def)
next
  case (Suc n)
  let ?e = "element_at elems sizeof_T i"
  have step: "run (construct_elements payload elems sizeof_T construct (of_nat i) (Suc n) s) =
    bind_outcome (run (construct ?e (of_nat i) s)) (\<lambda>_ t.
      run (construct_elements payload elems sizeof_T construct (of_nat (Suc i)) n
        (t\<lparr>gc_events := gc_events t @ [Constructed ?e], gc_mem := store_word (gc_mem t) payload (of_nat (Suc i))\<rparr>)))"
    by (simp add: prog_simps Let_def element_at_def add.commute)
  have same: "load_word (gc_mem t) payload = load_word (gc_mem s) payload"
    if "\<forall>a. \<not> a - ?e < sizeof_T \<longrightarrow> gc_mem t a = gc_mem s a" for t
    using that prefix_outside_element [OF Suc.prems(3), of i _ payload]
    by (intro load_word_cong) (simp add: elems_def)
  from ok show ?case
  proof (cases rule: element_constructor_okE [where e = ?e and i = "of_nat i" and s = s])
    case (throws x t)
    then show ?thesis
      using same [OF throws(3)] Suc.prems(4) step
      by (intro Suc.prems(2) [of 0 x t]) (simp_all add: constructions_def)
  next
    case c: (returns t)
    let ?t = "t\<lparr>gc_events := gc_events t @ [Constructed ?e], gc_mem := store_word (gc_mem t) payload (of_nat (Suc i))\<rparr>"
    have fr: "finalizer_frame (s\<lparr>gc_events := gc_events s @ [Constructed ?e] @ es\<rparr>) (?t\<lparr>gc_events := gc_events ?t @ es\<rparr>)" for es
      using c(2) by (simp add: finalizer_frame_def)
    have cons: "constructions elems sizeof_T i (Suc k) = [Constructed ?e] @ constructions elems sizeof_T (Suc i) k" for k
      by (simp add: constructions_def upt_conv_Cons del: upt_Suc)
    have "array_fits prefix_size sizeof_T (Suc i + n)" "load_word (gc_mem ?t) payload = of_nat (Suc i)"
      using Suc.prems(3) by simp_all
    then show ?thesis
    proof (rule Suc.IH [rotated 2])
      fix u assume "run (construct_elements payload elems sizeof_T construct (of_nat (Suc i)) n ?t) = (Done (), u)"
        "finalizer_frame (?t\<lparr>gc_events := gc_events ?t @ constructions elems sizeof_T (Suc i) n\<rparr>) u"
        "load_word (gc_mem u) payload = of_nat (Suc i + n)"
      then show ?thesis
        using step c(1) finalizer_frame_trans [OF fr]
        by (intro Suc.prems(1) [of u]) (simp_all add: cons)
    next
      fix k x u assume "k < n"
        "run (construct_elements payload elems sizeof_T construct (of_nat (Suc i)) n ?t) = (Threw x, u)"
        "finalizer_frame (?t\<lparr>gc_events := gc_events ?t @ constructions elems sizeof_T (Suc i) k\<rparr>) u"
        "load_word (gc_mem u) payload = of_nat (Suc i + k)"
      then show ?thesis
        using step c(1) finalizer_frame_trans [OF fr]
        by (intro Suc.prems(2) [of "Suc k" x u]) (simp_all add: cons)
    qed
  qed
qed

lemma destroy_elements_result:
  assumes "element_destructor_ok destruct"
  shows "\<exists>t. run (destroy_elements elems sizeof_T destruct n s) = (Done (), t) \<and>
    finalizer_frame (s\<lparr>gc_events := gc_events s @ map (Destroyed \<circ> element_at elems sizeof_T) (rev [0..<n])\<rparr>) t"
proof (induction n arbitrary: s)
  case (Suc n)
  let ?e = "element_at elems sizeof_T n"
  let ?s = "s\<lparr>gc_events := gc_events s @ [Destroyed ?e]\<rparr>"
  obtain u where u: "run (destruct ?e ?s) = (Done (), u)" "finalizer_frame ?s u"
    using assms unfolding element_destructor_ok_def by blast
  from Suc.IH [of u] obtain t where t: "run (destroy_elements elems sizeof_T destruct n u) = (Done (), t)"
    "finalizer_frame (u\<lparr>gc_events := gc_events u @ map (Destroyed \<circ> element_at elems sizeof_T) (rev [0..<n])\<rparr>) t"
    by blast
  have "run (destroy_elements elems sizeof_T destruct (Suc n) s) = (Done (), t)"
    using u(1) t(1) by (simp add: prog_simps Let_def element_at_def)
  with finalizer_frame_trans [OF finalizer_frame_events [OF u(2)] t(2)] show ?case
    by (intro exI [of _ t]) (simp add: comp_def del: destroy_elements.simps)
qed (simp add: prog_simps finalizer_frame_def)

lemma array_elements_offset_ge: "has_single_bit al \<Longrightarrow> 8 \<le> unat (array_elements_offset al)"
proof -
  assume al: "has_single_bit al"
  then obtain k where k: "k < 64" "al = 2 ^ k" by (auto simp: has_single_bit_iff)
  have "(2::nat) ^ k \<le> 2 ^ 63" using k(1) by (intro power_increasing) simp_all
  then have "unat al \<le> 2 ^ 63" "al \<noteq> 0" using k by (auto simp: unat_pow2)
  then have "\<not> add_would_overflow 8 (al - 1)" by (simp add: add_would_overflow_iff unat_minus_one)
  then have "round_up_to_alignment 8 al = Some (array_elements_offset al)"
    using al and_pred_zero_iff [of al]
    by (auto simp: round_up_to_alignment_def array_elements_offset_def detail_round_up_to_alignment_def)
  from round_up_to_alignment_Some(2) [OF this] show ?thesis by simp
qed

lemma array_size_fits:
  assumes "has_single_bit al" "\<not> multiply_would_overflow sz cnt"
    "\<not> add_would_overflow (array_elements_offset al) (sz * cnt)"
  shows "array_fits (array_elements_offset al) sz (unat cnt)"
proof -
  have "unat sz * unat cnt < 2 ^ 64" using assms(2) by (simp add: multiply_would_overflow_iff)
  then have "unat (sz * cnt) = unat sz * unat cnt" by (simp add: unat_word_ariths)
  with assms(3) array_elements_offset_ge [OF assms(1)] show ?thesis
    by (simp add: array_fits_def add_would_overflow_iff mult.commute)
qed

lemma array_size_total:
  shows "(multiply_would_overflow sz cnt \<or> add_would_overflow (array_elements_offset al) (sz * cnt)) =
      (2 ^ 64 \<le> unat (array_elements_offset al) + unat sz * unat cnt)"
    and "\<not> (multiply_would_overflow sz cnt \<or> add_would_overflow (array_elements_offset al) (sz * cnt)) \<Longrightarrow>
      unat (array_elements_offset al + sz * cnt) = unat (array_elements_offset al) + unat sz * unat cnt"
proof -
  let ?over = "multiply_would_overflow sz cnt \<or> add_would_overflow (array_elements_offset al) (sz * cnt)"
  have m: "unat (sz * cnt) = unat sz * unat cnt" if "\<not> multiply_would_overflow sz cnt"
    using that by (simp add: multiply_would_overflow_iff unat_word_ariths)
  show "?over = (2 ^ 64 \<le> unat (array_elements_offset al) + unat sz * unat cnt)"
  proof (cases "multiply_would_overflow sz cnt")
    case True
    then show ?thesis by (simp add: multiply_would_overflow_iff)
  next
    case False
    with m [OF False] show ?thesis by (simp add: add_would_overflow_iff)
  qed
  then show "\<not> ?over \<Longrightarrow> unat (array_elements_offset al + sz * cnt) = unat (array_elements_offset al) + unat sz * unat cnt"
    using m by (auto simp: unat_word_ariths)
qed

lemma finalizer_frame_can_collect: "finalizer_frame s t \<Longrightarrow> can_collect c s \<Longrightarrow> can_collect c t"
  by (simp add: finalizer_frame_def can_collect_def may_proceed_def thread_registered_def
      find_thread_state_locked_def others_paused_def)

lemma frame_keeps:
  assumes "finalizer_frame (s\<lparr>gc_events := es\<rparr>) t" "heap_inv s" "can_collect c s"
  shows "heap_inv t" "can_collect c t" "gc_allocations t = gc_allocations s" "gc_regions t = gc_regions s"
    "gc_events t = es" "gc_headers t = gc_headers s"
proof -
  let ?s = "s\<lparr>gc_events := es\<rparr>"
  have "heap_inv ?s" "can_collect c ?s"
    using assms(2,3) heap_inv_tables [of ?s s]
    by (simp_all add: can_collect_def may_proceed_def thread_registered_def find_thread_state_locked_def others_paused_def)
  then show "heap_inv t" "can_collect c t"
    using heap_inv_cong [OF assms(1)] finalizer_frame_can_collect [OF assms(1)] by simp_all
qed (use assms(1) in \<open>simp_all add: finalizer_frame_def\<close>)

lemma fill_array_cases:
  assumes ctor: "element_constructor_ok sz construct" and dtor: "element_destructor_ok destruct"
    and fits: "array_fits (array_elements_offset al) sz (unat cnt)"
    and s: "heap_inv s" "can_collect c s"
    and b: "om_find p (gc_allocations s) = Some b" "p \<noteq> 0"
  defines "elems \<equiv> array_elements_begin al p"
  obtains (returns) t where
      "run (fill_array env c sz al destruct cnt construct p s) = (Done (Gc_Ptr elems), t)" "heap_inv t"
      "om_find p (gc_allocations t) = Some (b\<lparr>br_constructing := False\<rparr>)" "load_word (gc_mem t) p = cnt"
      "gc_events t = gc_events s @ constructions elems sz 0 (unat cnt)"
    | (failed) x k t where "k < unat cnt"
      "run (fill_array env c sz al destruct cnt construct p s) = (Threw x, t)" "heap_inv t"
      "om_find p (gc_allocations t) = None"
      "gc_regions t = filter (\<lambda>r. fst r \<noteq> br_header b) (gc_regions s)"
      "gc_events t = gc_events s @ constructions elems sz 0 k @
        map (Destroyed \<circ> element_at elems sz) (rev [0..<k]) @
        [Freed (br_header b) (allocation_alignment (header_of s b))]"
proof -
  let ?s = "s\<lparr>gc_mem := store_word (gc_mem s) p 0\<rparr>"
  have e: "p + array_elements_offset al = elems" by (simp add: elems_def array_elements_begin_def)
  have "array_fits (array_elements_offset al) sz (0 + unat cnt)" "load_word (gc_mem ?s) p = of_nat 0"
    using fits by simp_all
  then show ?thesis
  proof (rule construct_elements_cases [OF ctor])
    fix t assume a: "run (construct_elements p (p + array_elements_offset al) sz construct (of_nat 0) (unat cnt) ?s) = (Done (), t)"
      "finalizer_frame (?s\<lparr>gc_events := gc_events ?s @ constructions (p + array_elements_offset al) sz 0 (unat cnt)\<rparr>) t"
      "load_word (gc_mem t) p = of_nat (0 + unat cnt)"
    note 2 = a [unfolded e of_nat_0]
    have fr: "finalizer_frame (s\<lparr>gc_events := gc_events s @ constructions elems sz 0 (unat cnt)\<rparr>) t"
      using 2(2) by (simp add: finalizer_frame_def)
    note k = frame_keeps [OF fr s]
    have mp: "may_proceed c t" using k(2) by (simp add: can_collect_def)
    let ?t = "t\<lparr>gc_allocations := om_adjust p (\<lambda>b. b\<lparr>br_constructing := False\<rparr>) (gc_allocations t)\<rparr>"
    have "run (fill_array env c sz al destruct cnt construct p s) = (Done (Gc_Ptr elems), ?t)"
      using finish_construction_result [OF mp, of env p] 2(1) k(3) b(1)
      by (simp add: fill_array_def prog_simps e elems_def)
    moreover have "om_find p (gc_allocations ?t) = Some (b\<lparr>br_constructing := False\<rparr>)"
      using smap.find_adjust [OF index_inv_om_wf, of t p] k(1,3) b(1) by (simp add: heap_inv_def)
    ultimately show ?thesis
      using heap_inv_constructing [OF k(1), of p False] 2(3) k(5) by (intro that(1) [of ?t]) simp_all
  next
    fix x k t assume a: "k < unat cnt"
      "run (construct_elements p (p + array_elements_offset al) sz construct (of_nat 0) (unat cnt) ?s) = (Threw x, t)"
      "finalizer_frame (?s\<lparr>gc_events := gc_events ?s @ constructions (p + array_elements_offset al) sz 0 k\<rparr>) t"
      "load_word (gc_mem t) p = of_nat (0 + k)"
    note 3 = a [unfolded e of_nat_0]
    have fr: "finalizer_frame (s\<lparr>gc_events := gc_events s @ constructions elems sz 0 k\<rparr>) t"
      using 3(3) by (simp add: finalizer_frame_def)
    note kt = frame_keeps [OF fr s]
    have uk: "unat (of_nat k :: u64) = k"
      using 3(1) unat_less_64 [of cnt] by (simp add: unat_of_nat)
    from destroy_elements_result [OF dtor, of elems sz k t] obtain u where u:
      "run (destroy_elements elems sz destruct k t) = (Done (), u)"
      "finalizer_frame (t\<lparr>gc_events := gc_events t @ map (Destroyed \<circ> element_at elems sz) (rev [0..<k])\<rparr>) u" by blast
    note ku = frame_keeps [OF u(2) kt(1,2)]
    have f: "om_find p (gc_allocations u) = Some b" using ku(3) kt(3) b(1) by simp
    have mp: "may_proceed c u" "thread_registered c u" using ku(2) by (simp_all add: can_collect_def)
    let ?t = "free_block_memory (br_header b) (unlinked p b u)"
    have "run (fill_array env c sz al destruct cnt construct p s) = (Threw x, ?t)"
      using release_unconstructed_result [OF mp b(2), of env] f 3(2,4) u(1) uk
      by (simp add: fill_array_def prog_simps e elems_def [symmetric] ArrayDestructor_destroy_def)
    then show ?thesis
      using release_unconstructed_inv [OF ku(1) f] released_find [OF ku(1) f] 3(1) ku(4-6) kt(4-6)
      by (intro that(2) [of k x ?t]) (simp_all add: free_block_memory_def header_of_def)
  qed
qed


lemma construct_array_cases:
  assumes "heap_inv s" "can_collect c s" "finalizers_return env" "op_new_ok env"
    and ctor: "element_constructor_ok sz construct" and dtor: "element_destructor_ok destruct"
    and al: "has_single_bit al"
  obtains (empty) "cnt = 0" "run (construct_array env c sz al d destruct cnt construct s) = (Done null_ptr, s)"
    | (too_large) "cnt \<noteq> 0" "2 ^ 64 \<le> unat (array_elements_offset al) + unat sz * unat cnt"
      "run (construct_array env c sz al d destruct cnt construct s) = (Threw Bad_Alloc, s)"
    | (no_memory) t where "run (construct_array env c sz al d destruct cnt construct s) = (Threw Bad_Alloc, t)"
      "heap_inv t" "set (gc_regions t) \<subseteq> set (gc_regions s)"
    | (failed) p h a es x k t where "k < unat cnt"
      "run (construct_array env c sz al d destruct cnt construct s) = (Threw x, t)" "heap_inv t"
      "om_find p (gc_allocations t) = None" "set (gc_regions t) \<subseteq> set (gc_regions s)"
      "gc_events t = es @ constructions (array_elements_begin al p) sz 0 k @
        map (Destroyed \<circ> element_at (array_elements_begin al p) sz) (rev [0..<k]) @ [Freed h a]"
    | (returns) p b es t where
      "run (construct_array env c sz al d destruct cnt construct s) = (Done (Gc_Ptr (array_elements_begin al p)), t)"
      "heap_inv t" "om_find p (gc_allocations t) = Some b" "\<not> br_constructing b"
      "unat (br_payload_end b) = unat p + unat (array_elements_offset al) + unat sz * unat cnt"
      "load_word (gc_mem t) p = cnt"
      "gc_events t = es @ constructions (array_elements_begin al p) sz 0 (unat cnt)"
proof -
  let ?off = "array_elements_offset al"
  let ?n = "?off + sz * cnt"
  let ?al = "if word_size \<le> al then al else word_size"
  let ?over = "multiply_would_overflow sz cnt \<or> add_would_overflow ?off (sz * cnt)"
  consider (zero) "cnt = 0" | (over) "cnt \<noteq> 0" "?over" | (fits) "cnt \<noteq> 0" "\<not> ?over" by blast
  then show ?thesis
  proof cases
    case zero
    then show ?thesis by (intro that(1)) (simp_all add: construct_array_def prog_simps)
  next
    case over
    then have "2 ^ 64 \<le> unat ?off + unat sz * unat cnt"
      using array_size_total [of sz cnt al] by simp
    with over show ?thesis by (intro that(2)) (simp_all add: construct_array_def prog_simps Let_def)
  next
    case fits
    then have af: "array_fits ?off sz (unat cnt)" using array_size_fits [OF al] by simp
    from fits have run: "run (construct_array env c sz al d destruct cnt construct s) =
      run (bindp (collect_if_needed env c ?n s) (\<lambda>_ s. bindp (malloc_internal env c ?n ?al (Some d) True s)
        (fill_array env c sz al destruct cnt construct)))"
      by (simp add: construct_array_def Let_def)
    have n: "unat ?n = unat ?off + unat sz * unat cnt" using array_size_total [of sz cnt al] fits(2) by simp
    from assms(1-4) show ?thesis
    proof (cases rule: prepare_cases [where n = ?n and al = ?al and d = "Some d"])
      case (no_memory t)
      show ?thesis by (rule that(3) [of t]) (simp_all add: run no_memory)
    next
      case (allocated p b u t)
      from ctor dtor af allocated(2-4,6) show ?thesis
      proof (cases rule: fill_array_cases [where env = env])
        case (returns t')
        show ?thesis
          by (rule that(5) [of p t' "b\<lparr>br_constructing := False\<rparr>" "gc_events t"])
            (use returns allocated(7) n in \<open>simp_all add: run allocated(1)\<close>)
      next
        case (failed x k t')
        have "set (gc_regions t') \<subseteq> set (gc_regions s)"
          using failed(5) allocated(10,11) by auto
        then show ?thesis
          by (intro that(4) [OF failed(1) _ failed(3,4) _ failed(6)]) (simp_all add: run allocated(1) failed(2))
      qed
    qed
  qed
qed

end
