(* ===== verification/Gc_Vector.thy ===== *)
theory Gc_Vector
  imports Root_Handles Construction
begin

text \<open>
  The vector of exact roots, \<open>include/gc/gc_vector.hpp\<close>. Its storage is a \<open>std::vector\<close> of \<open>gc_root\<close>
  objects: a buffer, the number of elements and the capacity. The members of \<open>std::vector\<close> the
  source calls are modelled as libstdc++ performs them on elements whose move constructor may
  throw: growth copies the elements into the new buffer, then destroys the old ones.
  The address of a new buffer comes from the parameter \<open>new_buffer\<close>. The theory
  \<open>Vector_As_List\<close> shows what the operations do to the list of the elements.
\<close>

section \<open>The storage\<close>

record gc_vector =
  vec_begin :: addr
  vec_size :: nat
  vec_capacity :: nat

definition new_gc_vector :: gc_vector where
  "new_gc_vector = \<lparr>vec_begin = 0, vec_size = 0, vec_capacity = 0\<rparr>"

definition slot :: "addr \<Rightarrow> nat \<Rightarrow> addr" where
  "slot buf i = buf + of_nat (8 * i)"

type_synonym new_buffer = "nat \<Rightarrow> gc_state \<Rightarrow> addr option"

text \<open>The destruction of the \<open>n\<close> elements from index \<open>i\<close> on.\<close>

primrec destroy_roots :: "gc_env \<Rightarrow> tid \<Rightarrow> addr \<Rightarrow> nat \<Rightarrow> nat \<Rightarrow> unit gc" where
  "destroy_roots env c buf i 0 = (\<lambda>s. (Return (), s))"
| "destroy_roots env c buf i (Suc n) = (\<lambda>s.
     bindp (gc_root_destroy env c (slot buf i) s) (\<lambda>_. destroy_roots env c buf (Suc i) n))"

text \<open>
  Construction of the elements \<open>i\<close>, \<open>i + 1\<close>, ... of a buffer with \<open>build\<close>; when one throws, the ones
  constructed so far, from index \<open>first\<close> on, are destroyed and the exception goes on.
\<close>

primrec construct_roots ::
    "gc_env \<Rightarrow> tid \<Rightarrow> addr \<Rightarrow> (nat \<Rightarrow> addr \<Rightarrow> unit gc) \<Rightarrow> nat \<Rightarrow> nat \<Rightarrow> nat \<Rightarrow> unit gc" where
  "construct_roots env c buf build first i 0 = (\<lambda>s. (Return (), s))"
| "construct_roots env c buf build first i (Suc n) = (\<lambda>s.
     bindp (catchp (build i (slot buf i) s) (\<lambda>x s.
         bindp (destroy_roots env c buf first (i - first) s) (\<lambda>_ s. (Throw x, s)))) (\<lambda>_.
       construct_roots env c buf build first (Suc i) n))"

definition copy_roots :: "gc_env \<Rightarrow> tid \<Rightarrow> addr \<Rightarrow> addr \<Rightarrow> nat \<Rightarrow> unit gc" where
  "copy_roots env c src dst n s =
     construct_roots env c dst (\<lambda>i a. gc_root_copy env c a (slot src i)) 0 0 n s"

section \<open>Growth\<close>

text \<open>\<open>max_size()\<close>: the largest \<open>ptrdiff_t\<close> in bytes, in elements of one word.\<close>

definition vec_max_size :: nat where
  "vec_max_size = 2 ^ 60 - 1"

text \<open>The capacity after growth by \<open>extra\<close> elements; None is \<open>std::length_error\<close>.\<close>

definition check_len :: "nat \<Rightarrow> nat \<Rightarrow> nat option" where
  "check_len n extra =
     (if vec_max_size - n < extra then None else Some (min (n + max n extra) vec_max_size))"

definition allocate_buffer :: "new_buffer \<Rightarrow> nat \<Rightarrow> addr gc" where
  "allocate_buffer new_buffer n s =
     (case new_buffer n s of None \<Rightarrow> (Throw Bad_Alloc, s) | Some buf \<Rightarrow> (Return buf, s))"

text \<open>\<open>emplace_back\<close> and \<open>push_back\<close>; \<open>build\<close> constructs the new element.\<close>

definition vec_append :: "new_buffer \<Rightarrow> gc_env \<Rightarrow> tid \<Rightarrow> (addr \<Rightarrow> unit gc) \<Rightarrow> gc_vector \<Rightarrow> gc_vector gc" where
  "vec_append new_buffer env c build v s =
     (let n = vec_size v in
      if n < vec_capacity v
      then bindp (build (slot (vec_begin v) n) s) (\<lambda>_ s. (Return (v\<lparr>vec_size := Suc n\<rparr>), s))
      else case check_len n 1 of
        None \<Rightarrow> (Throw Length_Error, s)
      | Some capacity \<Rightarrow>
          bindp (allocate_buffer new_buffer capacity s) (\<lambda>buf s.
          bindp (build (slot buf n) s) (\<lambda>_ s.
          bindp (catchp (copy_roots env c (vec_begin v) buf n s) (\<lambda>x s.
              bindp (gc_root_destroy env c (slot buf n) s) (\<lambda>_ s. (Throw x, s)))) (\<lambda>_ s.
          bindp (destroy_roots env c (vec_begin v) 0 n s) (\<lambda>_ s.
            (Return \<lparr>vec_begin = buf, vec_size = Suc n, vec_capacity = capacity\<rparr>, s))))))"

definition gc_vector_reserve :: "new_buffer \<Rightarrow> gc_env \<Rightarrow> tid \<Rightarrow> nat \<Rightarrow> gc_vector \<Rightarrow> gc_vector gc" where
  "gc_vector_reserve new_buffer env c capacity v s =
     (if vec_max_size < capacity then (Throw Length_Error, s)
      else if capacity \<le> vec_capacity v then (Return v, s)
      else
        bindp (allocate_buffer new_buffer capacity s) (\<lambda>buf s.
        bindp (copy_roots env c (vec_begin v) buf (vec_size v) s) (\<lambda>_ s.
        bindp (destroy_roots env c (vec_begin v) 0 (vec_size v) s) (\<lambda>_ s.
          (Return \<lparr>vec_begin = buf, vec_size = vec_size v, vec_capacity = capacity\<rparr>, s)))))"

definition gc_vector_push_back ::
    "new_buffer \<Rightarrow> gc_env \<Rightarrow> tid \<Rightarrow> gc_ptr \<Rightarrow> gc_vector \<Rightarrow> gc_vector gc" where
  "gc_vector_push_back new_buffer env c pointer v s =
     vec_append new_buffer env c (\<lambda>a. gc_root_from_ptr env c a pointer) v s"

primrec append_all :: "new_buffer \<Rightarrow> gc_env \<Rightarrow> tid \<Rightarrow> gc_ptr list \<Rightarrow> gc_vector \<Rightarrow> gc_vector gc" where
  "append_all new_buffer env c [] v = (\<lambda>s. (Return v, s))"
| "append_all new_buffer env c (p # ps) v = (\<lambda>s.
     bindp (catchp (gc_vector_push_back new_buffer env c p v s) (\<lambda>x s.
         bindp (destroy_roots env c (vec_begin v) 0 (vec_size v) s) (\<lambda>_ s. (Throw x, s)))) (\<lambda>v.
       append_all new_buffer env c ps v))"

text \<open>Constructors; a vector whose construction fails is destroyed.\<close>

definition gc_vector_of_list :: "new_buffer \<Rightarrow> gc_env \<Rightarrow> tid \<Rightarrow> gc_ptr list \<Rightarrow> gc_vector gc" where
  "gc_vector_of_list new_buffer env c pointers s =
     bindp (gc_vector_reserve new_buffer env c (length pointers) new_gc_vector s) (\<lambda>v.
       append_all new_buffer env c pointers v)"

definition gc_vector_of_count :: "new_buffer \<Rightarrow> gc_env \<Rightarrow> tid \<Rightarrow> nat \<Rightarrow> gc_vector gc" where
  "gc_vector_of_count new_buffer env c n s =
     (if vec_max_size < n then (Throw Length_Error, s)
      else if n = 0 then (Return new_gc_vector, s)
      else
        bindp (allocate_buffer new_buffer n s) (\<lambda>buf s.
        bindp (construct_roots env c buf (\<lambda>_ a. gc_root_default env c a) 0 0 n s) (\<lambda>_ s.
          (Return \<lparr>vec_begin = buf, vec_size = n, vec_capacity = n\<rparr>, s))))"

definition gc_vector_copy :: "new_buffer \<Rightarrow> gc_env \<Rightarrow> tid \<Rightarrow> gc_vector \<Rightarrow> gc_vector gc" where
  "gc_vector_copy new_buffer env c other s =
     (if vec_size other = 0 then (Return new_gc_vector, s)
      else
        bindp (allocate_buffer new_buffer (vec_size other) s) (\<lambda>buf s.
        bindp (copy_roots env c (vec_begin other) buf (vec_size other) s) (\<lambda>_ s.
          (Return \<lparr>vec_begin = buf, vec_size = vec_size other, vec_capacity = vec_size other\<rparr>, s))))"

definition gc_vector_move :: "gc_vector \<Rightarrow> gc_vector \<times> gc_vector" where
  "gc_vector_move other = (other, new_gc_vector)"

definition gc_vector_swap :: "gc_vector \<Rightarrow> gc_vector \<Rightarrow> gc_vector \<times> gc_vector" where
  "gc_vector_swap v other = (other, v)"

section \<open>Shrinking\<close>

definition gc_vector_pop_back :: "gc_env \<Rightarrow> tid \<Rightarrow> gc_vector \<Rightarrow> gc_vector gc" where
  "gc_vector_pop_back env c v s =
     bindp (gc_root_destroy env c (slot (vec_begin v) (vec_size v - 1)) s) (\<lambda>_ s.
       (Return (v\<lparr>vec_size := vec_size v - 1\<rparr>), s))"

definition gc_vector_clear :: "gc_env \<Rightarrow> tid \<Rightarrow> gc_vector \<Rightarrow> gc_vector gc" where
  "gc_vector_clear env c v s =
     bindp (destroy_roots env c (vec_begin v) 0 (vec_size v) s) (\<lambda>_ s. (Return (v\<lparr>vec_size := 0\<rparr>), s))"

definition gc_vector_destroy :: "gc_env \<Rightarrow> tid \<Rightarrow> gc_vector \<Rightarrow> unit gc" where
  "gc_vector_destroy env c v s = destroy_roots env c (vec_begin v) 0 (vec_size v) s"

text \<open>\<open>erase\<close> move-assigns the elements behind the gap down and destroys the rest.\<close>

primrec shift_down :: "addr \<Rightarrow> nat \<Rightarrow> nat \<Rightarrow> nat \<Rightarrow> unit gc" where
  "shift_down buf dst src 0 = (\<lambda>s. (Return (), s))"
| "shift_down buf dst src (Suc n) = (\<lambda>s.
     bindp (gc_root_move_assign (slot buf dst) (slot buf src) s) (\<lambda>_. shift_down buf (Suc dst) (Suc src) n))"

definition gc_vector_erase_range :: "gc_env \<Rightarrow> tid \<Rightarrow> nat \<Rightarrow> nat \<Rightarrow> gc_vector \<Rightarrow> gc_vector gc" where
  "gc_vector_erase_range env c first past v s =
     (if first = past then (Return v, s)
      else let n = vec_size v - past; kept = first + n in
        bindp (shift_down (vec_begin v) first past n s) (\<lambda>_ s.
        bindp (destroy_roots env c (vec_begin v) kept (vec_size v - kept) s) (\<lambda>_ s.
          (Return (v\<lparr>vec_size := kept\<rparr>), s))))"

definition gc_vector_erase :: "gc_env \<Rightarrow> tid \<Rightarrow> nat \<Rightarrow> gc_vector \<Rightarrow> gc_vector gc" where
  "gc_vector_erase env c position v s =
     bindp (shift_down (vec_begin v) position (Suc position) (vec_size v - Suc position) s) (\<lambda>_ s.
     bindp (gc_root_destroy env c (slot (vec_begin v) (vec_size v - 1)) s) (\<lambda>_ s.
       (Return (v\<lparr>vec_size := vec_size v - 1\<rparr>), s)))"

text \<open>\<open>resize\<close>: default construction of the missing elements, or destruction of the excess.\<close>

definition gc_vector_resize :: "new_buffer \<Rightarrow> gc_env \<Rightarrow> tid \<Rightarrow> nat \<Rightarrow> gc_vector \<Rightarrow> gc_vector gc" where
  "gc_vector_resize new_buffer env c m v s =
     (let n = vec_size v in
      if m \<le> n then
        bindp (destroy_roots env c (vec_begin v) m (n - m) s) (\<lambda>_ s. (Return (v\<lparr>vec_size := m\<rparr>), s))
      else if m \<le> vec_capacity v then
        bindp (construct_roots env c (vec_begin v) (\<lambda>_ a. gc_root_default env c a) n n (m - n) s) (\<lambda>_ s.
          (Return (v\<lparr>vec_size := m\<rparr>), s))
      else case check_len n (m - n) of
        None \<Rightarrow> (Throw Length_Error, s)
      | Some capacity \<Rightarrow>
          bindp (allocate_buffer new_buffer capacity s) (\<lambda>buf s.
          bindp (construct_roots env c buf (\<lambda>_ a. gc_root_default env c a) n n (m - n) s) (\<lambda>_ s.
          bindp (catchp (copy_roots env c (vec_begin v) buf n s) (\<lambda>x s.
              bindp (destroy_roots env c buf n (m - n) s) (\<lambda>_ s. (Throw x, s)))) (\<lambda>_ s.
          bindp (destroy_roots env c (vec_begin v) 0 n s) (\<lambda>_ s.
            (Return \<lparr>vec_begin = buf, vec_size = m, vec_capacity = capacity\<rparr>, s))))))"

text \<open>
  \<open>shrink_to_fit\<close> copies the elements to a vector without spare room and swaps the two; when that
  throws, the vector stays as it is.
\<close>

definition gc_vector_shrink_to_fit :: "new_buffer \<Rightarrow> gc_env \<Rightarrow> tid \<Rightarrow> gc_vector \<Rightarrow> gc_vector gc" where
  "gc_vector_shrink_to_fit new_buffer env c v s =
     (if vec_capacity v = vec_size v then (Return v, s)
      else catchp (bindp (gc_vector_copy new_buffer env c v s) (\<lambda>tmp s.
          let (v, tmp) = gc_vector_swap v tmp
          in bindp (gc_vector_destroy env c tmp s) (\<lambda>_ s. (Return v, s))))
        (\<lambda>_ s. (Return v, s)))"

section \<open>Assignment\<close>

text \<open>Copy assignment of the first \<open>n\<close> elements.\<close>

primrec assign_roots :: "addr \<Rightarrow> addr \<Rightarrow> nat \<Rightarrow> nat \<Rightarrow> unit gc" where
  "assign_roots dst src i 0 = (\<lambda>s. (Return (), s))"
| "assign_roots dst src i (Suc n) = (\<lambda>s.
     bindp (gc_root_copy_assign (slot dst i) (slot src i) s) (\<lambda>_. assign_roots dst src (Suc i) n))"

text \<open>
  The library replaces the buffer when it is too small, and otherwise assigns to the elements that are
  there, destroys the excess or constructs what is missing. \<open>aliased\<close> says that both sides are
  the same vector.
\<close>

definition gc_vector_copy_assign ::
    "new_buffer \<Rightarrow> gc_env \<Rightarrow> tid \<Rightarrow> bool \<Rightarrow> gc_vector \<Rightarrow> gc_vector \<Rightarrow> gc_vector gc" where
  "gc_vector_copy_assign new_buffer env c aliased v other s =
     (let n = vec_size other in
      if aliased then (Return v, s)
      else if vec_capacity v < n then
        bindp (allocate_buffer new_buffer n s) (\<lambda>buf s.
        bindp (copy_roots env c (vec_begin other) buf n s) (\<lambda>_ s.
        bindp (destroy_roots env c (vec_begin v) 0 (vec_size v) s) (\<lambda>_ s.
          (Return \<lparr>vec_begin = buf, vec_size = n, vec_capacity = n\<rparr>, s))))
      else if n \<le> vec_size v then
        bindp (assign_roots (vec_begin v) (vec_begin other) 0 n s) (\<lambda>_ s.
        bindp (destroy_roots env c (vec_begin v) n (vec_size v - n) s) (\<lambda>_ s.
          (Return (v\<lparr>vec_size := n\<rparr>), s)))
      else
        bindp (assign_roots (vec_begin v) (vec_begin other) 0 (vec_size v) s) (\<lambda>_ s.
        bindp (construct_roots env c (vec_begin v) (\<lambda>i a. gc_root_copy env c a (slot (vec_begin other) i))
            (vec_size v) (vec_size v) (n - vec_size v) s) (\<lambda>_ s.
          (Return (v\<lparr>vec_size := n\<rparr>), s))))"

text \<open>
  Move assignment takes the buffer of the other side and destroys the old elements; a vector moved to
  itself is left empty.
\<close>

definition gc_vector_move_assign ::
    "gc_env \<Rightarrow> tid \<Rightarrow> bool \<Rightarrow> gc_vector \<Rightarrow> gc_vector \<Rightarrow> (gc_vector \<times> gc_vector) gc" where
  "gc_vector_move_assign env c aliased v other s =
     bindp (destroy_roots env c (vec_begin v) 0 (vec_size v) s) (\<lambda>_ s.
       (Return (if aliased then new_gc_vector else other, new_gc_vector), s))"

section \<open>Access\<close>

definition gc_vector_empty :: "gc_vector \<Rightarrow> bool" where
  "gc_vector_empty v \<longleftrightarrow> vec_size v = 0"

definition gc_vector_size :: "gc_vector \<Rightarrow> nat" where
  "gc_vector_size v = vec_size v"

definition gc_vector_capacity :: "gc_vector \<Rightarrow> nat" where
  "gc_vector_capacity v = vec_capacity v"

text \<open>A reference or an iterator is the address of the element; \<open>at\<close> checks the index.\<close>

definition gc_vector_index :: "gc_vector \<Rightarrow> nat \<Rightarrow> addr" where
  "gc_vector_index v i = slot (vec_begin v) i"

definition gc_vector_at :: "gc_vector \<Rightarrow> nat \<Rightarrow> addr gc" where
  "gc_vector_at v i s = (if i < vec_size v then (Return (slot (vec_begin v) i), s) else (Throw Out_Of_Range, s))"

definition gc_vector_front :: "gc_vector \<Rightarrow> addr" where
  "gc_vector_front v = slot (vec_begin v) 0"

definition gc_vector_back :: "gc_vector \<Rightarrow> addr" where
  "gc_vector_back v = slot (vec_begin v) (vec_size v - 1)"

definition gc_vector_begin :: "gc_vector \<Rightarrow> addr" where
  "gc_vector_begin v = slot (vec_begin v) 0"

definition gc_vector_end :: "gc_vector \<Rightarrow> addr" where
  "gc_vector_end v = slot (vec_begin v) (vec_size v)"

definition swap_gc_vector :: "gc_vector \<Rightarrow> gc_vector \<Rightarrow> gc_vector \<times> gc_vector" where
  "swap_gc_vector left right = gc_vector_swap left right"

section \<open>A new object\<close>

text \<open>
  \<open>created\<close> is the address of the local root, which is destroyed on every way out.
\<close>

definition insert_created :: "new_buffer \<Rightarrow> gc_env \<Rightarrow> tid \<Rightarrow> addr \<Rightarrow> gc_vector \<Rightarrow> gc_ptr \<Rightarrow> (gc_ptr \<times> gc_vector) gc" where
  "insert_created new_buffer env c created v p s =
     bindp (gc_root_from_ptr env c created p s) (\<lambda>_ s.
     bindp (catchp (vec_append new_buffer env c (\<lambda>a. gc_root_copy env c a created) v s) (\<lambda>x s.
         bindp (gc_root_destroy env c created s) (\<lambda>_ s. (Throw x, s)))) (\<lambda>v s.
     bindp (as_gc_ptr created s) (\<lambda>r s.
     bindp (gc_root_destroy env c created s) (\<lambda>_ s.
       (Return (r, v), s)))))"

definition gc_vector_emplace_new ::
    "new_buffer \<Rightarrow> gc_env \<Rightarrow> tid \<Rightarrow> addr \<Rightarrow> size_t \<Rightarrow> size_t \<Rightarrow> DestructorFn \<Rightarrow> (addr \<Rightarrow> unit gc) \<Rightarrow>
     gc_vector \<Rightarrow> (gc_ptr \<times> gc_vector) gc" where
  "gc_vector_emplace_new new_buffer env c created sizeof_T alignof_T destroy_object construct v s =
     bindp (gc_new env c sizeof_T alignof_T destroy_object construct s)
       (insert_created new_buffer env c created v)"

end
