(* ===== verification/Vector_As_List.thy ===== *)
theory Vector_As_List
  imports Gc_Vector
begin

text \<open>
  \<open>gc_vector\<close> refines a list of pointers: \<open>vec_sim\<close> relates a vector to the list of its elements,
  each of which is a live root, beside the roots of others. An operation that returns has done
  what the list operation does; one that throws has left the list as it was, and no root behind.
\<close>

section \<open>Buffers\<close>

definition buffer_ok :: "addr \<Rightarrow> nat \<Rightarrow> bool" where
  "buffer_ok buf cap \<longleftrightarrow> 0 < unat buf \<and> unat buf mod 8 = 0 \<and> unat buf + 8 * cap < 2 ^ 64"

definition fresh_buffer :: "(addr \<rightharpoonup> addr) \<Rightarrow> addr \<Rightarrow> nat \<Rightarrow> bool" where
  "fresh_buffer m buf cap \<longleftrightarrow> buffer_ok buf cap \<and> (\<forall>h\<in>dom m. \<forall>i<cap. word_apart h (slot buf i))"

lemma unat_slot: "buffer_ok buf cap \<Longrightarrow> i \<le> cap \<Longrightarrow> unat (slot buf i) = unat buf + 8 * i"
proof -
  assume b: "buffer_ok buf cap" "i \<le> cap"
  then have lt: "unat buf + 8 * i < 2 ^ 64" unfolding buffer_ok_def by linarith
  then have "unat (of_nat (8 * i) :: u64) = 8 * i" by (simp only: unat_of_nat) simp
  with lt show ?thesis by (simp add: slot_def unat_word_ariths(1) del: of_nat_mult)
qed

lemma slot_inj: "buffer_ok buf cap \<Longrightarrow> i \<le> cap \<Longrightarrow> j \<le> cap \<Longrightarrow> slot buf i = slot buf j \<longleftrightarrow> i = j"
  using unat_slot [of buf cap i] unat_slot [of buf cap j] by (metis add_left_cancel mult_cancel1 zero_neq_numeral)

lemma root_slot_slot: "buffer_ok buf cap \<Longrightarrow> i < cap \<Longrightarrow> root_slot (slot buf i)"
proof -
  assume b: "buffer_ok buf cap" "i < cap"
  then have u: "unat (slot buf i) = unat buf + 8 * i" by (intro unat_slot [of _ cap]) simp_all
  moreover have "slot buf i \<noteq> 0"
  proof
    assume "slot buf i = 0"
    then have "unat (slot buf i) = 0" by simp
    with u b(1) show False by (simp add: buffer_ok_def)
  qed
  moreover have "(unat buf + 8 * i) mod 8 = 0"
    using b(1) unfolding buffer_ok_def by (metis mod_mult_self2)
  moreover have "unat buf + 8 * i + 8 < 2 ^ 64"
    using b unfolding buffer_ok_def by linarith
  ultimately show ?thesis unfolding root_slot_def by metis
qed

lemma word_apart_nat:
  assumes "8 \<le> unat a" "unat a + 8 \<le> unat b"
  shows "word_apart a b"
proof -
  have "unat b < 2 ^ 64" using unat_less_64 [of b] by simp
  moreover have "unat (b - a) = unat b - unat a" using assms by (intro unat_sub) (simp add: word_le_nat_alt)
  moreover have "unat (a - b) = unat a + 2 ^ 64 - unat b" using assms unat_sub_if' [of a b] by (simp add: word_le_nat_alt)
  ultimately have "8 \<le> unat (a - b)" "8 \<le> unat (b - a)" using assms by linarith+
  then show ?thesis by (simp add: word_apart_def word_le_nat_alt)
qed

lemma slots_apart: 
  assumes "buffer_ok buf cap" "i < cap" "j < cap" "i \<noteq> j"
  shows "word_apart (slot buf i) (slot buf j)"
proof -
  have ge: "8 \<le> unat buf" using assms(1) by (auto simp: buffer_ok_def)
  note u = unat_slot [OF assms(1), of i] unat_slot [OF assms(1), of j]
  from assms(4) consider "i < j" | "j < i" by linarith
  then show ?thesis
  proof cases
    case 1 then show ?thesis using ge u assms by (intro word_apart_nat) simp_all
  next
    case 2 then show ?thesis using ge u assms by (subst word_apart_sym, intro word_apart_nat) simp_all
  qed
qed

lemma buffer_ok_mono: "buffer_ok buf cap \<Longrightarrow> n \<le> cap \<Longrightarrow> buffer_ok buf n"
  unfolding buffer_ok_def by (elim conjE) (intro conjI; linarith)

lemma fresh_bufferD: "fresh_buffer m buf cap \<Longrightarrow> m h = Some x \<Longrightarrow> i < cap \<Longrightarrow> word_apart h (slot buf i)"
  unfolding fresh_buffer_def by (drule conjunct2) (blast dest: bspec)

lemma fresh_buffer_mono: "fresh_buffer m' buf cap \<Longrightarrow> m \<subseteq>\<^sub>m m' \<Longrightarrow> fresh_buffer m buf cap"
proof -
  assume f: "fresh_buffer m' buf cap" and le: "m \<subseteq>\<^sub>m m'"
  have "word_apart h (slot buf i)" if "h \<in> dom m" "i < cap" for h i
  proof -
    have "h \<in> dom m'" using map_le_implies_dom_le [OF le] that(1) by blast
    then show ?thesis using f that(2) by (simp add: fresh_buffer_def)
  qed
  with f show ?thesis by (simp add: fresh_buffer_def)
qed

text \<open>
  What is asked of the allocator of buffers: a buffer overlaps no live root, each of which is in
  the table of ranges, nor the beginning of any other range.
\<close>

definition buffers_apart :: "new_buffer \<Rightarrow> bool" where
  "buffers_apart new_buffer \<longleftrightarrow> (\<forall>n s buf. new_buffer n s = Some buf \<longrightarrow>
     buffer_ok buf n \<and> (\<forall>r\<in>set (gc_root_ranges s). \<forall>i<n. word_apart (rr_begin r) (slot buf i)))"

lemma buffers_apart_fresh:
  assumes "buffers_apart new_buffer" "new_buffer n s = Some buf" "roots_sim base m s"
  shows "fresh_buffer m buf n"
  unfolding fresh_buffer_def
proof (intro conjI ballI allI impI)
  show "buffer_ok buf n" using assms(1,2) by (simp add: buffers_apart_def)
  fix h i assume h: "h \<in> dom m" "i < n"
  have "self_range h \<in># mset (gc_root_ranges s)" using assms(3) h(1) by (auto simp: roots_sim_def)
  then have "self_range h \<in> set (gc_root_ranges s)" by simp
  with assms(1,2) h(2) have "word_apart (rr_begin (self_range h)) (slot buf i)" unfolding buffers_apart_def by blast
  then show "word_apart h (slot buf i)" by (simp add: self_range_def)
qed

text \<open>The part of the root map that a run of elements makes up.\<close>

definition segment :: "addr \<Rightarrow> nat \<Rightarrow> nat \<Rightarrow> (nat \<Rightarrow> addr) \<Rightarrow> (addr \<rightharpoonup> addr)" where
  "segment buf i n val = map_of (map (\<lambda>j. (slot buf j, val j)) [i..<i + n])"

lemma segment_0 [simp]: "segment buf i 0 val = Map.empty"
  by (simp add: segment_def)

lemma segment_Suc: "segment buf i (Suc n) val = (segment buf (Suc i) n val)(slot buf i \<mapsto> val i)"
  by (simp add: segment_def upt_conv_Cons del: upt_Suc)

lemma dom_segment: "dom (segment buf i n val) = slot buf ` {i..<i + n}"
  by (auto simp: segment_def dom_map_of_conv_image_fst image_image)

lemma segment_None: "a \<notin> slot buf ` {i..<i + n} \<Longrightarrow> segment buf i n val a = None"
  by (simp flip: dom_segment [of _ _ _ val] add: domIff)

lemma segment_cong: "(\<And>j. i \<le> j \<Longrightarrow> j < i + n \<Longrightarrow> val j = val' j) \<Longrightarrow> segment buf i n val = segment buf i n val'"
  unfolding segment_def by (intro arg_cong [of _ _ map_of] map_cong) simp_all

lemma segment_at:
  assumes "buffer_ok buf cap" "i + n \<le> cap" "i \<le> j" "j < i + n"
  shows "segment buf i n val (slot buf j) = Some (val j)"
  using assms by (auto simp: segment_def map_of_eq_Some_iff slot_inj distinct_map inj_on_def image_iff comp_def)

section \<open>The loops\<close>

lemma restrict_all [simp]: "m |` UNIV = m"
  by (simp add: restrict_map_def)

lemma destroy_roots_sim:
  assumes "roots_sim base m s" "may_proceed c s" "buffer_ok buf cap" "i + n \<le> cap"
    "slot buf ` {i..<i + n} \<subseteq> dom m"
  shows "\<exists>t. run (destroy_roots env c buf i n s) = (Done (), t) \<and> root_frame s t \<and>
    roots_sim base (m |` (- slot buf ` {i..<i + n})) t"
  using assms
proof (induction n arbitrary: i m s)
  case (Suc n)
  have le: "Suc i + n \<le> cap" using Suc.prems(4) by simp
  have live: "slot buf i \<in> dom m" using Suc.prems(5) by (rule subsetD) simp
  from root_destroy [OF Suc.prems(1) live Suc.prems(2)] obtain u where u:
    "run (gc_root_destroy env c (slot buf i) s) = (Done (), u)" "root_frame s u" "roots_sim base (m(slot buf i := None)) u"
    by blast
  have mp: "may_proceed c u" using root_frame_keeps(1) [OF u(2)] Suc.prems(2) by simp
  have "slot buf j \<in> dom (m(slot buf i := None))" if j: "Suc i \<le> j" "j < Suc i + n" for j
  proof -
    have "slot buf j \<in> dom m" using Suc.prems(5) by (rule subsetD) (use j in simp)
    moreover have "slot buf j \<noteq> slot buf i" using slot_inj [OF Suc.prems(3)] Suc.prems(4) j by simp
    ultimately show ?thesis by simp
  qed
  then have "slot buf ` {Suc i..<Suc i + n} \<subseteq> dom (m(slot buf i := None))"
    by (intro image_subsetI) simp
  from Suc.IH [OF u(3) mp Suc.prems(3) le this] obtain t where t:
    "run (destroy_roots env c buf (Suc i) n u) = (Done (), t)" "root_frame u t"
    "roots_sim base (m(slot buf i := None) |` (- slot buf ` {Suc i..<Suc i + n})) t" by blast
  have "m(slot buf i := None) |` (- slot buf ` {Suc i..<Suc i + n}) = m |` (- slot buf ` {i..<i + Suc n})"
  proof -
    have "{i..<i + Suc n} = insert i {Suc i..<Suc i + n}" by auto
    then show ?thesis by (auto simp: restrict_map_def fun_eq_iff)
  qed
  with u t root_frame_trans [OF u(2) t(2)] show ?case by (auto simp: run_bindp)
qed (simp add: run_leaf restrict_map_def)

lemma construct_roots_sim:
  assumes "roots_sim base m s" "may_proceed c s" "buffer_ok buf cap" "i + n \<le> cap"
    and "\<And>j h. i \<le> j \<Longrightarrow> j < i + n \<Longrightarrow> h \<in> dom m \<Longrightarrow> word_apart h (slot buf j)"
    and "\<And>j m' s'. i \<le> j \<Longrightarrow> j < i + n \<Longrightarrow> m \<subseteq>\<^sub>m m' \<Longrightarrow> roots_sim base m' s' \<Longrightarrow> may_proceed c s' \<Longrightarrow>
      fresh_root m' (slot buf j) \<Longrightarrow>
      \<exists>t. run (build j (slot buf j) s') = (Done (), t) \<and> root_frame s' t \<and> roots_sim base (m'(slot buf j \<mapsto> val j)) t"
  shows "\<exists>t. run (construct_roots env c buf build first i n s) = (Done (), t) \<and> root_frame s t \<and>
    roots_sim base (m ++ segment buf i n val) t"
  using assms
proof (induction n arbitrary: i m s)
  case (Suc n)
  have fresh: "fresh_root m (slot buf i)"
    using Suc.prems(5) [where j = i] root_slot_slot [OF Suc.prems(3), where i = i] Suc.prems(4) by (simp add: fresh_root_def)
  have "i \<le> i" "i < i + Suc n" by simp_all
  from Suc.prems(6) [OF this map_le_refl Suc.prems(1,2) fresh] obtain u where u:
    "run (build i (slot buf i) s) = (Done (), u)" "root_frame s u" "roots_sim base (m(slot buf i \<mapsto> val i)) u" by blast
  let ?m = "m(slot buf i \<mapsto> val i)"
  have mp: "may_proceed c u" using root_frame_keeps(1) [OF u(2)] Suc.prems(2) by simp
  have le: "m \<subseteq>\<^sub>m ?m" using fresh_root_not_live [OF fresh] by (auto simp: map_le_def)
  have "\<exists>t. run (construct_roots env c buf build first (Suc i) n u) = (Done (), t) \<and> root_frame u t \<and>
    roots_sim base (?m ++ segment buf (Suc i) n val) t"
  proof (rule Suc.IH [OF u(3) mp Suc.prems(3)])
    show "Suc i + n \<le> cap" using Suc.prems(4) by simp
    show "word_apart h (slot buf j)" if "Suc i \<le> j" "j < Suc i + n" "h \<in> dom ?m" for j h
      using that Suc.prems(5) [of j h] slots_apart [OF Suc.prems(3), where i = i and j = j] Suc.prems(4) by auto
    show "\<exists>t. run (build j (slot buf j) s') = (Done (), t) \<and> root_frame s' t \<and> roots_sim base (m'(slot buf j \<mapsto> val j)) t"
      if "Suc i \<le> j" "j < Suc i + n" "?m \<subseteq>\<^sub>m m'" "roots_sim base m' s'" "may_proceed c s'" "fresh_root m' (slot buf j)" for j m' s'
      using that le by (intro Suc.prems(6)) (auto intro: map_le_trans)
  qed
  then obtain t where t: "run (construct_roots env c buf build first (Suc i) n u) = (Done (), t)" "root_frame u t"
    "roots_sim base (?m ++ segment buf (Suc i) n val) t" by blast
  have "slot buf i \<notin> dom (segment buf (Suc i) n val)"
    using slot_inj [OF Suc.prems(3)] Suc.prems(4) by (auto simp: dom_segment)
  then have "?m ++ segment buf (Suc i) n val = m ++ segment buf i (Suc n) val"
    by (simp add: segment_Suc map_add_upd_left)
  with u t root_frame_trans [OF u(2) t(2)] show ?case by (auto simp: run_bindp run_catchp)
qed (simp add: run_leaf)

lemma copy_roots_sim:
  assumes sim: "roots_sim base m s" and mp: "may_proceed c s" and fresh: "fresh_buffer m dst cap" "n \<le> cap"
    and src: "\<And>i. i < n \<Longrightarrow> m (slot src i) = Some (val i)" and mem: "n = 0 \<or> \<not> e_alloc_fails env Root_Ranges_Push"
  shows "\<exists>t. run (copy_roots env c src dst n s) = (Done (), t) \<and> root_frame s t \<and>
    roots_sim base (m ++ segment dst 0 n val) t"
  unfolding copy_roots_def
proof (rule construct_roots_sim [OF sim mp])
  show "buffer_ok dst cap" "0 + n \<le> cap" using fresh by (simp_all add: fresh_buffer_def)
  show "word_apart h (slot dst j)" if "0 \<le> j" "j < 0 + n" "h \<in> dom m" for j h
    using that fresh by (simp add: fresh_buffer_def)
  show "\<exists>t. run (gc_root_copy env c (slot dst j) (slot src j) s') = (Done (), t) \<and> root_frame s' t \<and>
      roots_sim base (m'(slot dst j \<mapsto> val j)) t"
    if "0 \<le> j" "j < 0 + n" "m \<subseteq>\<^sub>m m'" "roots_sim base m' s'" "may_proceed c s'" "fresh_root m' (slot dst j)" for j m' s'
  proof -
    have "m (slot src j) = Some (val j)" using src that(2) by simp
    then have "m' (slot src j) = Some (val j)" using that(3) by (metis domI map_le_def)
    then have "get_word (slot src j) s' = val j" using that(4) by (simp add: roots_sim_def)
    moreover have "\<not> e_alloc_fails env Root_Ranges_Push" using mem that(2) by simp
    ultimately show ?thesis
      using root_construct(2) [OF that(4,6,5), of env "val j"] by (simp add: gc_root_copy_def)
  qed
qed

section \<open>The vector as a list of pointers\<close>

text \<open>
  \<open>vec_sim base m v ps s\<close>: beside the roots \<open>m\<close> of others, the elements of \<open>v\<close> are live roots
  that hold the pointers \<open>ps\<close>, and the unused part of the buffer is free for more.
\<close>

definition vec_sim :: "RootRange multiset \<Rightarrow> (addr \<rightharpoonup> addr) \<Rightarrow> gc_vector \<Rightarrow> addr list \<Rightarrow> gc_state \<Rightarrow> bool" where
  "vec_sim base m v ps s \<longleftrightarrow> vec_size v = length ps \<and> length ps \<le> vec_capacity v \<and>
     (0 < vec_capacity v \<longrightarrow> fresh_buffer m (vec_begin v) (vec_capacity v)) \<and>
     roots_sim base (m ++ segment (vec_begin v) 0 (length ps) ((!) ps)) s"

lemma vec_sim_new: "roots_sim base m s \<Longrightarrow> vec_sim base m new_gc_vector [] s"
  by (simp add: vec_sim_def new_gc_vector_def)

lemma segment_disjoint:
  assumes "fresh_buffer m buf cap" "n \<le> cap"
  shows "dom m \<inter> slot buf ` {0..<n} = {}"
proof -
  have "slot buf i \<notin> dom m" if "i < n" for i
  proof
    assume "slot buf i \<in> dom m"
    then have "word_apart (slot buf i) (slot buf i)" using assms that by (simp add: fresh_buffer_def del: not_word_apart_self)
    then show False by simp
  qed
  then show ?thesis by (simp only: disjoint_iff) (metis atLeastLessThan_iff imageE)
qed

lemma vec_sim_element:
  assumes "vec_sim base m v ps s" "i < length ps"
  shows "(m ++ segment (vec_begin v) 0 (length ps) ((!) ps)) (slot (vec_begin v) i) = Some (ps ! i)"
proof -
  have "buffer_ok (vec_begin v) (vec_capacity v)" using assms by (auto simp: vec_sim_def fresh_buffer_def)
  then show ?thesis using assms segment_at [of "vec_begin v" "vec_capacity v" 0 "length ps" i] 
    by (simp add: vec_sim_def map_add_Some_iff)
qed

text \<open>Every element is a root: what it points into is reachable.\<close>

lemma vec_element_reachable:
  assumes "vec_sim base m v ps s" "p \<in> set ps" "find_block_locked p s = Some b"
  shows "b \<in> reachable env c s"
proof -
  obtain i where i: "i < length ps" "p = ps ! i" using assms(2) by (auto simp: in_set_conv_nth)
  have "roots_sim base (m ++ segment (vec_begin v) 0 (length ps) ((!) ps)) s" using assms(1) by (simp add: vec_sim_def)
  from rooted_reachable [OF this vec_sim_element [OF assms(1) i(1)]] assms(3) i(2) show ?thesis by simp
qed

lemma others_first:
  assumes "vec_sim base m v ps s"
  shows "m \<subseteq>\<^sub>m m ++ segment (vec_begin v) 0 (length ps) ((!) ps)"
proof (cases "vec_capacity v")
  case 0
  then show ?thesis using assms by (simp add: vec_sim_def)
next
  case (Suc k)
  then have "dom m \<inter> slot (vec_begin v) ` {0..<length ps} = {}"
    using assms by (intro segment_disjoint [of _ _ "vec_capacity v"]) (simp_all add: vec_sim_def)
  then have "dom m \<inter> dom (segment (vec_begin v) 0 (length ps) ((!) ps)) = {}" by (simp add: dom_segment)
  then show ?thesis by (auto simp: map_le_def map_add_def disjoint_iff domIff split: option.split)
qed

lemma segment_append:
  assumes "buffer_ok buf cap" "i + n + k \<le> cap"
  shows "segment buf i n val ++ segment buf (i + n) k val = segment buf i (n + k) val"
proof -
  have "slot buf ` {i..<i + n} \<inter> slot buf ` {i + n..<i + n + k} = {}"
    using slot_inj [OF assms(1)] assms(2) by auto
  then have "dom (segment buf i n val) \<inter> dom (segment buf (i + n) k val) = {}" by (simp only: dom_segment)
  then have "segment buf i n val ++ segment buf (i + n) k val = segment buf (i + n) k val ++ segment buf i n val"
    by (rule map_add_comm)
  also have "\<dots> = segment buf i (n + k) val"
    using upt_add_eq_append [of i "i + n" k] by (simp add: segment_def add.assoc map_of_append [symmetric] del: map_of_append)
  finally show ?thesis .
qed

definition vec_roots :: "(addr \<rightharpoonup> addr) \<Rightarrow> gc_vector \<Rightarrow> addr list \<Rightarrow> (addr \<rightharpoonup> addr)" where
  "vec_roots m v ps = m ++ segment (vec_begin v) 0 (length ps) ((!) ps)"

lemma vec_simD:
  assumes "vec_sim base m v ps s"
  shows "vec_size v = length ps" "length ps \<le> vec_capacity v" "roots_sim base (vec_roots m v ps) s"
    "0 < vec_capacity v \<Longrightarrow> fresh_buffer m (vec_begin v) (vec_capacity v)"
    "i < length ps \<Longrightarrow> vec_roots m v ps (slot (vec_begin v) i) = Some (ps ! i)"
    "m \<subseteq>\<^sub>m vec_roots m v ps"
  using assms vec_sim_element [OF assms, of i] others_first [OF assms] by (simp_all add: vec_sim_def vec_roots_def)

section \<open>Spare room and new buffers\<close>

text \<open>The spare part of the buffer is apart from every live root.\<close>

lemma spare_apart:
  assumes sim: "vec_sim base m v ps s" and j: "length ps \<le> j" "j < vec_capacity v" and h: "h \<in> dom (vec_roots m v ps)"
  shows "word_apart h (slot (vec_begin v) j)"
proof -
  have f: "fresh_buffer m (vec_begin v) (vec_capacity v)" using vec_simD(4) [OF sim] j by simp
  then have ok: "buffer_ok (vec_begin v) (vec_capacity v)" by (simp add: fresh_buffer_def)
  show ?thesis
  proof (cases "h \<in> dom m")
    case True
    then show ?thesis using f j by (simp add: fresh_buffer_def)
  next
    case False
    with h obtain i where "i < length ps" "h = slot (vec_begin v) i" by (auto simp: vec_roots_def dom_segment domIff)
    then show ?thesis using slots_apart [OF ok, of i j] j by simp
  qed
qed

text \<open>
  The end of every relocation: another vector is there beside the old one, whose elements
  are destroyed.
\<close>

lemma dropped_map:
  assumes sim: "vec_sim base m v ps s" and new: "vec_sim base (vec_roots m v ps) w qs t"
  shows "vec_roots (vec_roots m v ps) w qs |` (- slot (vec_begin v) ` {0..<length ps}) = vec_roots m w qs"
proof (rule ext)
  let ?n = "length ps" and ?b = "vec_begin v"
  let ?new = "segment (vec_begin w) 0 (length qs) ((!) qs)"
  fix a
  show "(vec_roots (vec_roots m v ps) w qs |` (- slot ?b ` {0..<?n})) a = vec_roots m w qs a"
  proof (cases "a \<in> slot ?b ` {0..<?n}")
    case True
    then obtain i where i: "i < ?n" "a = slot ?b i" by auto
    have f: "fresh_buffer m ?b (vec_capacity v)" "?n \<le> vec_capacity v" using vec_simD(2,4) [OF sim] i(1) by auto
    then have "a \<notin> dom m" using segment_disjoint [OF f] True by blast
    moreover have "a \<notin> dom ?new"
    proof
      assume "a \<in> dom ?new"
      then obtain j where j: "j < length qs" "a = slot (vec_begin w) j" unfolding dom_segment by auto
      have "fresh_buffer (vec_roots m v ps) (vec_begin w) (vec_capacity w)" "j < vec_capacity w"
        using vec_simD(2,4) [OF new] j(1) by auto
      moreover have "vec_roots m v ps a = Some (ps ! i)" using vec_simD(5) [OF sim i(1)] i(2) by simp
      ultimately have "word_apart a (slot (vec_begin w) j)" by (blast intro: fresh_bufferD)
      then show False using j(2) by simp
    qed
    ultimately show ?thesis using True by (simp add: domIff map_add_def vec_roots_def [of m w])
  next
    case False
    then have "segment ?b 0 ?n ((!) ps) a = None" using dom_segment [of ?b 0 ?n "(!) ps"] by (auto simp: domIff)
    with False show ?thesis by (simp add: vec_roots_def map_add_def split: option.splits)
  qed
qed

lemma drop_old:
  assumes sim: "vec_sim base m v ps s" and new: "vec_sim base (vec_roots m v ps) w qs t" and mp: "may_proceed c t"
  shows "\<exists>u. run (destroy_roots env c (vec_begin v) 0 (length ps) t) = (Done (), u) \<and> root_frame t u \<and> vec_sim base m w qs u"
proof -
  let ?n = "length ps" and ?b = "vec_begin v" and ?all = "vec_roots (vec_roots m v ps) w qs"
  have "\<exists>u. run (destroy_roots env c ?b 0 ?n t) = (Done (), u) \<and> root_frame t u \<and>
    roots_sim base (?all |` (- slot ?b ` {0..<?n})) u"
  proof (cases "?n = 0")
    case True
    then show ?thesis using vec_simD(3) [OF new] by (simp add: run_leaf)
  next
    case False
    then have "0 < vec_capacity v" using vec_simD(2) [OF sim] by linarith
    then have "buffer_ok ?b (vec_capacity v)" "?n \<le> vec_capacity v"
      using vec_simD(2,4) [OF sim] by (simp_all add: fresh_buffer_def)
    moreover have "slot ?b ` {0..<?n} \<subseteq> dom ?all"
    proof (rule image_subsetI)
      fix i assume "i \<in> {0..<?n}"
      then have "slot ?b i \<in> dom (vec_roots m v ps)" using vec_simD(5) [OF sim, of i] by (intro domI) simp
      then show "slot ?b i \<in> dom ?all" using map_le_implies_dom_le [OF vec_simD(6) [OF new]] by blast
    qed
    ultimately show ?thesis
      using destroy_roots_sim [OF vec_simD(3) [OF new] mp, of ?b "vec_capacity v" 0 ?n env] by simp
  qed
  then obtain u where u: "run (destroy_roots env c ?b 0 ?n t) = (Done (), u)" "root_frame t u" "roots_sim base (vec_roots m w qs) u"
    unfolding dropped_map [OF sim new] by blast
  have "fresh_buffer m (vec_begin w) (vec_capacity w)" if "0 < vec_capacity w"
    by (rule fresh_buffer_mono [OF vec_simD(4) [OF new that] vec_simD(6) [OF sim]])
  then have "vec_sim base m w qs u" using u(3) vec_simD(1,2) [OF new] by (simp add: vec_sim_def vec_roots_def)
  with u show ?thesis by blast
qed

text \<open>
  Relocation: the new buffer holds the elements \<open>qs\<close> behind room for the old ones, which are copied
  over and destroyed.
\<close>

lemma relocate_sim:
  assumes sim: "vec_sim base m v ps s0" and cap: "length ps + length qs \<le> cap"
    and mem: "ps = [] \<or> \<not> e_alloc_fails env Root_Ranges_Push"
    and fresh: "fresh_buffer (vec_roots m v ps) buf cap"
    and s: "roots_sim base (vec_roots m v ps ++ segment buf (length ps) (length qs) ((!) (ps @ qs))) s" "may_proceed c s"
  shows "\<exists>u t. run (copy_roots env c (vec_begin v) buf (length ps) s) = (Done (), u) \<and>
    run (destroy_roots env c (vec_begin v) 0 (length ps) u) = (Done (), t) \<and> root_frame s t \<and>
    vec_sim base m \<lparr>vec_begin = buf, vec_size = length (ps @ qs), vec_capacity = cap\<rparr> (ps @ qs) t"
proof -
  let ?n = "length ps" and ?b = "vec_begin v"
  let ?new = "segment buf ?n (length qs) ((!) (ps @ qs))" and ?copy = "segment buf 0 ?n ((!) (ps @ qs))"
  let ?m1 = "vec_roots m v ps ++ ?new" and ?w = "\<lparr>vec_begin = buf, vec_size = length ps + length qs, vec_capacity = cap\<rparr>"
  have ok: "buffer_ok buf cap" using fresh by (simp add: fresh_buffer_def)
  have dn: "\<exists>j. ?n \<le> j \<and> j < ?n + length qs \<and> h = slot buf j" if "h \<in> dom ?new" for h
    using that unfolding dom_segment by auto
  have fr1: "fresh_buffer ?m1 buf ?n"
    unfolding fresh_buffer_def
  proof (intro conjI ballI allI impI)
    show "buffer_ok buf ?n" using buffer_ok_mono [OF ok] cap by simp
    fix h i assume h: "h \<in> dom ?m1" "i < ?n"
    show "word_apart h (slot buf i)"
    proof (cases "h \<in> dom ?new")
      case True
      then obtain j where "?n \<le> j" "j < ?n + length qs" "h = slot buf j" using dn by blast
      then show ?thesis using slots_apart [OF ok, of j i] h(2) cap by simp
    next
      case False
      then show ?thesis using h fresh cap by (simp add: fresh_buffer_def)
    qed
  qed
  have old: "?m1 (slot ?b i) = Some ((ps @ qs) ! i)" if "i < ?n" for i
  proof -
    note e = vec_simD(5) [OF sim that]
    have "slot ?b i \<notin> dom ?new"
    proof
      assume "slot ?b i \<in> dom ?new"
      then obtain j where j: "j < ?n + length qs" "slot ?b i = slot buf j" using dn by blast
      then have "word_apart (slot ?b i) (slot buf j)" using cap by (intro fresh_bufferD [OF fresh e]) simp
      then show False using j(2) by simp
    qed
    with e that show ?thesis by (simp add: map_add_def domIff nth_append)
  qed
  from mem have mem': "?n = 0 \<or> \<not> e_alloc_fails env Root_Ranges_Push" by simp
  from copy_roots_sim [OF s fr1 order_refl old mem'] obtain u where u:
    "run (copy_roots env c ?b buf ?n s) = (Done (), u)" "root_frame s u" "roots_sim base (?m1 ++ ?copy) u" by blast
  have mpu: "may_proceed c u" using root_frame_keeps(1) [OF u(2)] s(2) by simp
  have "slot buf ` {?n..<?n + length qs} \<inter> slot buf ` {0..<0 + ?n} = {}" using slot_inj [OF ok] cap by auto
  then have "dom ?new \<inter> dom ?copy = {}" by (simp only: dom_segment)
  then have "?new ++ ?copy = ?copy ++ ?new" by (rule map_add_comm)
  then have "?m1 ++ ?copy = vec_roots (vec_roots m v ps) ?w (ps @ qs)"
    using segment_append [OF ok, of 0 ?n "length qs" "(!) (ps @ qs)"] cap
    by (simp add: vec_roots_def [of _ ?w] map_add_assoc [symmetric] del: map_add_assoc)
  with u(3) fresh cap have "vec_sim base (vec_roots m v ps) ?w (ps @ qs) u"
    by (simp add: vec_sim_def vec_roots_def [of _ ?w])
  from drop_old [OF sim this mpu, of env] u(1) root_frame_trans [OF u(2)] show ?thesis by (simp only: length_append) blast
qed

section \<open>Construction of elements\<close>

text \<open>
  \<open>builds\<close>: what the constructors of a root have in common. They make a root that holds \<open>p\<close>, or throw
  and leave the roots as they were.
\<close>

definition builds :: "gc_env \<Rightarrow> tid \<Rightarrow> RootRange multiset \<Rightarrow> (addr \<rightharpoonup> addr) \<Rightarrow> (addr \<Rightarrow> unit gc) \<Rightarrow> addr \<Rightarrow> bool" where
  "builds env c base m build p \<longleftrightarrow> (\<forall>m' s a. m \<subseteq>\<^sub>m m' \<longrightarrow> roots_sim base m' s \<longrightarrow> may_proceed c s \<longrightarrow> fresh_root m' a \<longrightarrow>
     (if e_alloc_fails env Root_Ranges_Push
      then \<exists>t. run (build a s) = (Threw Bad_Alloc, t) \<and> root_frame s t \<and> roots_sim base m' t
      else \<exists>t. run (build a s) = (Done (), t) \<and> root_frame s t \<and> roots_sim base (m'(a \<mapsto> p)) t))"

lemma builds_word:
  assumes "\<And>m' s a. m \<subseteq>\<^sub>m m' \<Longrightarrow> roots_sim base m' s \<Longrightarrow> build a s = register_self env c a (put_word a p s)"
  shows "builds env c base m build p"
  unfolding builds_def
proof (intro allI impI)
  fix m' s a assume a: "m \<subseteq>\<^sub>m m'" "roots_sim base m' s" "may_proceed c s" "fresh_root m' a"
  show "if e_alloc_fails env Root_Ranges_Push
      then \<exists>t. run (build a s) = (Threw Bad_Alloc, t) \<and> root_frame s t \<and> roots_sim base m' t
      else \<exists>t. run (build a s) = (Done (), t) \<and> root_frame s t \<and> roots_sim base (m'(a \<mapsto> p)) t"
    using root_construct [OF a(2,4,3), of env p] roots_sim_put_fresh [OF a(2,4), of p] assms [OF a(1,2), of a] by auto
qed

lemma builds_roots:
  "builds env c base m (\<lambda>a. gc_root_from_ptr env c a p) (raw_ptr p)"
  "builds env c base m (\<lambda>a. gc_root_default env c a) 0"
  "m src = Some x \<Longrightarrow> builds env c base m (\<lambda>a. gc_root_copy env c a src) x"
proof -
  show "builds env c base m (\<lambda>a. gc_root_copy env c a src) x" if x: "m src = Some x"
  proof (rule builds_word)
    fix m' s a assume a: "m \<subseteq>\<^sub>m m'" "roots_sim base m' s"
    then have "m' src = Some x" using x by (metis domI map_le_def)
    with a(2) have "get_word src s = x" by (simp add: roots_sim_def)
    then show "gc_root_copy env c a src s = register_self env c a (put_word a x s)" by (simp add: gc_root_copy_def)
  qed
qed (simp_all add: builds_word gc_root_from_ptr_def gc_root_default_def gc_ptr_get_def)

lemma buildsD:
  assumes "builds env c base m build p" "m \<subseteq>\<^sub>m m'" "roots_sim base m' s" "may_proceed c s" "fresh_root m' a"
  shows "e_alloc_fails env Root_Ranges_Push \<Longrightarrow>
      \<exists>t. run (build a s) = (Threw Bad_Alloc, t) \<and> root_frame s t \<and> roots_sim base m' t"
    and "\<not> e_alloc_fails env Root_Ranges_Push \<Longrightarrow>
      \<exists>t. run (build a s) = (Done (), t) \<and> root_frame s t \<and> roots_sim base (m'(a \<mapsto> p)) t"
  using assms unfolding builds_def by meson+

lemma construct_sim:
  assumes sim: "roots_sim base m s" and mp: "may_proceed c s" and ok: "buffer_ok buf cap" "i + n \<le> cap"
    and apart: "\<And>j h. i \<le> j \<Longrightarrow> j < i + n \<Longrightarrow> h \<in> dom m \<Longrightarrow> word_apart h (slot buf j)"
    and build: "\<And>j. i \<le> j \<Longrightarrow> j < i + n \<Longrightarrow> builds env c base m (build j) (val j)"
  shows "e_alloc_fails env Root_Ranges_Push \<Longrightarrow> 0 < n \<Longrightarrow>
      \<exists>t. run (construct_roots env c buf build i i n s) = (Threw Bad_Alloc, t) \<and> root_frame s t \<and> roots_sim base m t"
    and "n = 0 \<or> \<not> e_alloc_fails env Root_Ranges_Push \<Longrightarrow>
      \<exists>t. run (construct_roots env c buf build i i n s) = (Done (), t) \<and> root_frame s t \<and>
        roots_sim base (m ++ segment buf i n val) t"
proof -
  assume a: "e_alloc_fails env Root_Ranges_Push" "0 < n"
  then obtain k where k: "n = Suc k" by (cases n) auto
  have "fresh_root m (slot buf i)"
    using apart [of i] root_slot_slot [OF ok(1), of i] ok(2) a(2) by (simp add: fresh_root_def)
  from buildsD(1) [OF build [of i] map_le_refl sim mp this a(1)] a(2) obtain t where
    "run (build i (slot buf i) s) = (Threw Bad_Alloc, t)" "root_frame s t" "roots_sim base m t" by auto
  then show "\<exists>t. run (construct_roots env c buf build i i n s) = (Threw Bad_Alloc, t) \<and> root_frame s t \<and> roots_sim base m t"
    by (simp add: k run_bindp run_catchp run_leaf)
next
  assume a: "n = 0 \<or> \<not> e_alloc_fails env Root_Ranges_Push"
  show "\<exists>t. run (construct_roots env c buf build i i n s) = (Done (), t) \<and> root_frame s t \<and>
      roots_sim base (m ++ segment buf i n val) t"
    by (rule construct_roots_sim [OF sim mp ok apart]) (use a buildsD(2) [OF build] in auto)
qed

section \<open>Outcomes\<close>

text \<open>
  Why an operation may throw: no memory, or more than \<open>max_size()\<close> elements asked for.
\<close>

definition refused :: "new_buffer \<Rightarrow> gc_env \<Rightarrow> nat \<Rightarrow> gc_exn \<Rightarrow> bool" where
  "refused new_buffer env n e \<longleftrightarrow>
     e = Bad_Alloc \<and> (e_alloc_fails env Root_Ranges_Push \<or> (\<exists>k s. new_buffer k s = None)) \<or>
     e = Length_Error \<and> vec_max_size < n"

text \<open>The strong guarantee: the new list, or an exception and the old list.\<close>

definition vec_outcome ::
    "RootRange multiset \<Rightarrow> (addr \<rightharpoonup> addr) \<Rightarrow> (gc_exn \<Rightarrow> bool) \<Rightarrow> gc_vector \<Rightarrow> addr list \<Rightarrow> addr list \<Rightarrow>
     gc_state \<Rightarrow> gc_vector outcome \<times> gc_state \<Rightarrow> bool" where
  "vec_outcome base m may_throw v ps qs s r \<longleftrightarrow>
     (\<exists>v' t. r = (Done v', t) \<and> root_frame s t \<and> vec_sim base m v' qs t) \<or>
     (\<exists>e t. r = (Threw e, t) \<and> root_frame s t \<and> vec_sim base m v ps t \<and> may_throw e)"

lemma outcome_done: "run r = (Done v', t) \<Longrightarrow> root_frame s t \<Longrightarrow> vec_sim base m v' qs t \<Longrightarrow> vec_outcome base m X v ps qs s (run r)"
  by (auto simp: vec_outcome_def)

lemma outcome_threw:
  "run r = (Threw e, t) \<Longrightarrow> root_frame s t \<Longrightarrow> vec_sim base m v ps t \<Longrightarrow> X e \<Longrightarrow> vec_outcome base m X v ps qs s (run r)"
  by (auto simp: vec_outcome_def)

lemma run_allocate [prog_simps]:
  "run (allocate_buffer new_buffer n s) = (case new_buffer n s of None \<Rightarrow> (Threw Bad_Alloc, s) | Some buf \<Rightarrow> (Done buf, s))"
  by (simp add: allocate_buffer_def run_leaf split: option.split)

lemma vec_sim_roots:
  "vec_sim base m v ps s \<Longrightarrow> roots_sim base (vec_roots m v ps) t \<Longrightarrow> vec_sim base m v ps t"
  by (simp add: vec_sim_def vec_roots_def)

text \<open>Growth by the elements \<open>qs\<close>, which are constructed in the new buffer first.\<close>

lemma check_len_bounds: "check_len n k = Some cap \<Longrightarrow> 0 < k \<Longrightarrow> n + k \<le> cap"
  by (auto simp: check_len_def split: if_splits)

lemma construct_new:
  assumes sim: "vec_sim base m v ps s" and mp: "may_proceed c s" and fresh: "fresh_buffer (vec_roots m v ps) buf cap"
    and cap: "length ps + length qs \<le> cap"
    and build: "\<And>j. length ps \<le> j \<Longrightarrow> j < length (ps @ qs) \<Longrightarrow> builds env c base m (build j) ((ps @ qs) ! j)"
  shows "e_alloc_fails env Root_Ranges_Push \<Longrightarrow> qs \<noteq> [] \<Longrightarrow>
      \<exists>t. run (construct_roots env c buf build (length ps) (length ps) (length qs) s) = (Threw Bad_Alloc, t) \<and>
        root_frame s t \<and> vec_sim base m v ps t"
    and "\<not> e_alloc_fails env Root_Ranges_Push \<Longrightarrow>
      \<exists>t u w. run (construct_roots env c buf build (length ps) (length ps) (length qs) s) = (Done (), t) \<and>
        run (copy_roots env c (vec_begin v) buf (length ps) t) = (Done (), u) \<and>
        run (destroy_roots env c (vec_begin v) 0 (length ps) u) = (Done (), w) \<and> root_frame s w \<and>
        vec_sim base m \<lparr>vec_begin = buf, vec_size = length (ps @ qs), vec_capacity = cap\<rparr> (ps @ qs) w"
proof -
  have ok: "buffer_ok buf cap" using fresh by (simp add: fresh_buffer_def)
  have apart: "word_apart h (slot buf j)" if "length ps \<le> j" "j < length ps + length qs" "h \<in> dom (vec_roots m v ps)" for j h
    using that fresh cap by (simp add: fresh_buffer_def)
  have b: "builds env c base (vec_roots m v ps) (build j) ((ps @ qs) ! j)" if "length ps \<le> j" "j < length ps + length qs" for j
    using build [of j] that vec_simD(6) [OF sim] map_le_trans unfolding builds_def by (metis length_append)
  note con = construct_sim [where build = build and val = "(!) (ps @ qs)", OF vec_simD(3) [OF sim] mp ok cap]
  show "\<exists>t. run (construct_roots env c buf build (length ps) (length ps) (length qs) s) = (Threw Bad_Alloc, t) \<and>
        root_frame s t \<and> vec_sim base m v ps t" if "e_alloc_fails env Root_Ranges_Push" "qs \<noteq> []"
    using con(1) [OF apart b that(1)] that(2) vec_sim_roots [OF sim] by force
  assume mem: "\<not> e_alloc_fails env Root_Ranges_Push"
  then obtain t where t: "run (construct_roots env c buf build (length ps) (length ps) (length qs) s) = (Done (), t)"
    "root_frame s t" "roots_sim base (vec_roots m v ps ++ segment buf (length ps) (length qs) ((!) (ps @ qs))) t"
    using con(2) [OF apart b] by auto
  have "may_proceed c t" using root_frame_keeps(1) [OF t(2)] mp by simp
  from relocate_sim [OF sim cap disjI2 [OF mem] fresh t(3) this] root_frame_trans [OF t(2)] t(1)
  show "\<exists>t u w. run (construct_roots env c buf build (length ps) (length ps) (length qs) s) = (Done (), t) \<and>
        run (copy_roots env c (vec_begin v) buf (length ps) t) = (Done (), u) \<and>
        run (destroy_roots env c (vec_begin v) 0 (length ps) u) = (Done (), w) \<and> root_frame s w \<and>
        vec_sim base m \<lparr>vec_begin = buf, vec_size = length (ps @ qs), vec_capacity = cap\<rparr> (ps @ qs) w" by blast
qed

lemma construct_in_place:
  assumes sim: "vec_sim base m v ps s" and mp: "may_proceed c s" and room: "length ps + length qs \<le> vec_capacity v"
    and build: "\<And>j. length ps \<le> j \<Longrightarrow> j < length (ps @ qs) \<Longrightarrow> builds env c base m (build j) ((ps @ qs) ! j)"
  shows "e_alloc_fails env Root_Ranges_Push \<Longrightarrow> qs \<noteq> [] \<Longrightarrow>
      \<exists>t. run (construct_roots env c (vec_begin v) build (length ps) (length ps) (length qs) s) = (Threw Bad_Alloc, t) \<and>
        root_frame s t \<and> vec_sim base m v ps t"
    and "\<not> e_alloc_fails env Root_Ranges_Push \<Longrightarrow> qs \<noteq> [] \<Longrightarrow>
      \<exists>t. run (construct_roots env c (vec_begin v) build (length ps) (length ps) (length qs) s) = (Done (), t) \<and>
        root_frame s t \<and> vec_sim base m (v\<lparr>vec_size := length (ps @ qs)\<rparr>) (ps @ qs) t"
proof -
  let ?b = "vec_begin v" and ?n = "length ps"
  have apart: "word_apart h (slot ?b j)" if "?n \<le> j" "j < ?n + length qs" "h \<in> dom (vec_roots m v ps)" for j h
    using spare_apart [OF sim _ _ that(3), of j] that(1,2) room by simp
  have b: "builds env c base (vec_roots m v ps) (build j) ((ps @ qs) ! j)" if "?n \<le> j" "j < ?n + length qs" for j
    using build [of j] that vec_simD(6) [OF sim] map_le_trans unfolding builds_def by (metis length_append)
  have f: "fresh_buffer m ?b (vec_capacity v)" if "qs \<noteq> []" using vec_simD(4) [OF sim] room that by fastforce
  then have ok: "buffer_ok ?b (vec_capacity v)" if "qs \<noteq> []" using that by (simp add: fresh_buffer_def)
  note con = construct_sim [where build = build and val = "(!) (ps @ qs)", OF vec_simD(3) [OF sim] mp]
  show "\<exists>t. run (construct_roots env c ?b build ?n ?n (length qs) s) = (Threw Bad_Alloc, t) \<and>
        root_frame s t \<and> vec_sim base m v ps t" if "e_alloc_fails env Root_Ranges_Push" "qs \<noteq> []"
    using con(1) [OF ok room apart b that(1)] that(2) vec_sim_roots [OF sim] by force
  assume mem: "\<not> e_alloc_fails env Root_Ranges_Push" and ne: "qs \<noteq> []"
  from con(2) [OF ok [OF ne] room apart b] mem obtain t where t:
    "run (construct_roots env c ?b build ?n ?n (length qs) s) = (Done (), t)" "root_frame s t"
    "roots_sim base (vec_roots m v ps ++ segment ?b ?n (length qs) ((!) (ps @ qs))) t" by auto
  have "segment ?b 0 ?n ((!) ps) = segment ?b 0 ?n ((!) (ps @ qs))" by (rule segment_cong) (simp add: nth_append)
  then have "vec_roots m v ps ++ segment ?b ?n (length qs) ((!) (ps @ qs)) = m ++ segment ?b 0 (length (ps @ qs)) ((!) (ps @ qs))"
    using segment_append [OF ok [OF ne], of 0 ?n "length qs" "(!) (ps @ qs)"] room
    by (simp add: vec_roots_def map_add_assoc [symmetric] del: map_add_assoc)
  then have "vec_sim base m (v\<lparr>vec_size := length (ps @ qs)\<rparr>) (ps @ qs) t"
    using t(3) room f [OF ne] by (simp add: vec_sim_def)
  with t(1,2) show "\<exists>t. run (construct_roots env c ?b build ?n ?n (length qs) s) = (Done (), t) \<and>
        root_frame s t \<and> vec_sim base m (v\<lparr>vec_size := length (ps @ qs)\<rparr>) (ps @ qs) t" by blast
qed

lemma construct_one:
  "run (construct_roots env c buf build i i (Suc 0) s) = run (build i (slot buf i) s)"
  by (cases "run (build i (slot buf i) s)" rule: catch_outcome.cases [of "(_, \<lambda>_ s. (Stuck, s))", simplified])
    (auto simp: run_bindp run_catchp run_leaf)

section \<open>Adding elements\<close>

text \<open>Appending where there is room, and appending that moves the elements.\<close>

lemma append_in_place:
  assumes sim: "vec_sim base m v ps s" and mp: "may_proceed c s" and room: "length ps < vec_capacity v"
    and build: "builds env c base m build p"
  shows "vec_outcome base m (refused new_buffer env (Suc (length ps))) v ps (ps @ [p]) s
    (run (vec_append new_buffer env c build v s))"
proof -
  have b: "builds env c base m build ((ps @ [p]) ! j)" if "length ps \<le> j" "j < length (ps @ [p])" for j
    using build that by (simp add: le_less_Suc_eq)
  have room': "length ps + length [p] \<le> vec_capacity v" using room by simp
  note con = construct_in_place [where build = "\<lambda>_. build", OF sim mp room' b]
  show ?thesis
  proof (cases "e_alloc_fails env Root_Ranges_Push")
    case fails: True
    with con(1) obtain t where "run (build (slot (vec_begin v) (length ps)) s) = (Threw Bad_Alloc, t)" "root_frame s t"
      "vec_sim base m v ps t" by (auto simp: construct_one simp del: construct_roots.simps)
    then show ?thesis using room vec_simD(1) [OF sim] fails
      by (intro outcome_threw [where e = Bad_Alloc]) (simp_all add: vec_append_def Let_def run_bindp refused_def)
  next
    case False
    with con(2) obtain t where "run (build (slot (vec_begin v) (length ps)) s) = (Done (), t)" "root_frame s t"
      "vec_sim base m (v\<lparr>vec_size := Suc (length ps)\<rparr>) (ps @ [p]) t"
      by (auto simp: construct_one simp del: construct_roots.simps)
    then show ?thesis using room vec_simD(1) [OF sim]
      by (intro outcome_done) (simp_all add: vec_append_def Let_def run_bindp run_leaf)
  qed
qed

lemma append_to_new_buffer:
  assumes sim: "vec_sim base m v ps s" and mp: "may_proceed c s" and apart: "buffers_apart new_buffer"
    and build: "builds env c base m build p"
    and full: "\<not> length ps < vec_capacity v" and len: "check_len (length ps) 1 = Some cap" and buf: "new_buffer cap s = Some buf"
  shows "vec_outcome base m (refused new_buffer env (Suc (length ps))) v ps (ps @ [p]) s
    (run (vec_append new_buffer env c build v s))"
proof -
  let ?n = "length ps" and ?b = "vec_begin v"
  have b: "builds env c base m build ((ps @ [p]) ! j)" if "?n \<le> j" "j < length (ps @ [p])" for j
    using build that by (simp add: le_less_Suc_eq)
  note fresh = buffers_apart_fresh [OF apart buf vec_simD(3) [OF sim]]
  have cap: "?n + length [p] \<le> cap" using check_len_bounds [OF len] by simp
  note con = construct_new [where build = "\<lambda>_. build", OF sim mp fresh cap b]
  show ?thesis
  proof (cases "e_alloc_fails env Root_Ranges_Push")
    case fails: True
    with con(1) obtain t where "run (build (slot buf ?n) s) = (Threw Bad_Alloc, t)" "root_frame s t"
      "vec_sim base m v ps t" by (auto simp: construct_one simp del: construct_roots.simps)
    then show ?thesis using full vec_simD(1) [OF sim] fails len buf
      by (intro outcome_threw [where e = Bad_Alloc]) (simp_all add: vec_append_def Let_def run_bindp run_allocate refused_def)
  next
    case False
    with con(2) obtain t u w where "run (build (slot buf ?n) s) = (Done (), t)"
      "run (copy_roots env c ?b buf ?n t) = (Done (), u)" "run (destroy_roots env c ?b 0 ?n u) = (Done (), w)"
      "root_frame s w" "vec_sim base m \<lparr>vec_begin = buf, vec_size = Suc ?n, vec_capacity = cap\<rparr> (ps @ [p]) w"
      by (auto simp: construct_one simp del: construct_roots.simps)
    then show ?thesis using full vec_simD(1) [OF sim] len buf
      by (intro outcome_done) (simp_all add: vec_append_def Let_def run_bindp run_catchp run_allocate run_leaf)
  qed
qed

lemma vec_append_outcome:
  assumes sim: "vec_sim base m v ps s" and mp: "may_proceed c s" and apart: "buffers_apart new_buffer"
    and build: "builds env c base m build p"
  shows "vec_outcome base m (refused new_buffer env (Suc (length ps))) v ps (ps @ [p]) s
    (run (vec_append new_buffer env c build v s))"
proof -
  note sz = vec_simD(1) [OF sim]
  consider "length ps < vec_capacity v"
    | "\<not> length ps < vec_capacity v" "check_len (length ps) 1 = None"
    | cap where "\<not> length ps < vec_capacity v" "check_len (length ps) 1 = Some cap" "new_buffer cap s = None"
    | cap buf where "\<not> length ps < vec_capacity v" "check_len (length ps) 1 = Some cap" "new_buffer cap s = Some buf"
    by fastforce
  then show ?thesis
  proof cases
    case 1
    then show ?thesis by (rule append_in_place [OF sim mp _ build])
  next
    case 2
    then have "vec_max_size < Suc (length ps)" by (simp add: check_len_def split: if_splits)
    then show ?thesis using 2 sz sim
      by (intro outcome_threw [where e = Length_Error]) (simp_all add: vec_append_def Let_def run_leaf refused_def)
  next
    case 3
    then show ?thesis using sz sim
      by (intro outcome_threw [where e = Bad_Alloc]) (auto simp: vec_append_def Let_def run_bindp run_allocate refused_def)
  next
    case 4
    then show ?thesis by (rule append_to_new_buffer [OF sim mp apart build])
  qed
qed

lemma push_back_outcome:
  assumes "vec_sim base m v ps s" "may_proceed c s" "buffers_apart new_buffer"
  shows "vec_outcome base m (refused new_buffer env (Suc (length ps))) v ps (ps @ [raw_ptr p]) s
    (run (gc_vector_push_back new_buffer env c p v s))"
  unfolding gc_vector_push_back_def by (rule vec_append_outcome [OF assms builds_roots(1)])

text \<open>\<open>resize\<close> fills up with null roots, as many as are missing.\<close>

lemma grow_in_place:
  assumes sim: "vec_sim base m v ps s" and mp: "may_proceed c s" and k: "length ps < k" "k \<le> vec_capacity v"
  shows "vec_outcome base m (refused new_buffer env k) v ps (ps @ replicate (k - length ps) 0) s
    (run (gc_vector_resize new_buffer env c k v s))"
proof -
  let ?n = "length ps" and ?b = "vec_begin v" and ?qs = "replicate (k - length ps) (0 :: addr)"
  let ?build = "\<lambda>_ a. gc_root_default env c a"
  have b: "builds env c base m (?build j) ((ps @ ?qs) ! j)" if "?n \<le> j" "j < length (ps @ ?qs)" for j
    using builds_roots(2) [of env c base m] that by (simp add: nth_append)
  have ne: "?qs \<noteq> []" and len: "length ?qs = k - ?n" "length (ps @ ?qs) = k" using k by simp_all
  have room: "?n + length ?qs \<le> vec_capacity v" using k by simp
  note sz = vec_simD(1) [OF sim]
  note resize = gc_vector_resize_def Let_def run_bindp run_leaf
  note con = construct_in_place [where build = ?build, OF sim mp room b, unfolded len]
  show ?thesis
  proof (cases "e_alloc_fails env Root_Ranges_Push")
    case fails: True
    from con(1) [OF _ _ fails ne] obtain t where "run (construct_roots env c ?b ?build ?n ?n (k - ?n) s) = (Threw Bad_Alloc, t)"
      "root_frame s t" "vec_sim base m v ps t" by auto
    then show ?thesis using k sz fails
      by (intro outcome_threw [where e = Bad_Alloc]) (simp_all add: resize refused_def)
  next
    case False
    from con(2) [OF _ _ False ne] obtain t where "run (construct_roots env c ?b ?build ?n ?n (k - ?n) s) = (Done (), t)"
      "root_frame s t" "vec_sim base m (v\<lparr>vec_size := k\<rparr>) (ps @ ?qs) t" by auto
    then show ?thesis using k sz by (intro outcome_done) (simp_all add: resize)
  qed
qed

lemma grow_to_new_buffer:
  assumes sim: "vec_sim base m v ps s" and mp: "may_proceed c s" and apart: "buffers_apart new_buffer"
    and k: "length ps < k" "\<not> k \<le> vec_capacity v"
    and some: "check_len (length ps) (k - length ps) = Some cap" and buf: "new_buffer cap s = Some buf"
  shows "vec_outcome base m (refused new_buffer env k) v ps (ps @ replicate (k - length ps) 0) s
    (run (gc_vector_resize new_buffer env c k v s))"
proof -
  let ?n = "length ps" and ?b = "vec_begin v" and ?qs = "replicate (k - length ps) (0 :: addr)"
  let ?build = "\<lambda>_ a. gc_root_default env c a"
  have b: "builds env c base m (?build j) ((ps @ ?qs) ! j)" if "?n \<le> j" "j < length (ps @ ?qs)" for j
    using builds_roots(2) [of env c base m] that by (simp add: nth_append)
  have ne: "?qs \<noteq> []" and len: "length ?qs = k - ?n" "length (ps @ ?qs) = k" using k by simp_all
  have cap: "?n + length ?qs \<le> cap" using check_len_bounds [OF some] k by simp
  note sz = vec_simD(1) [OF sim]
  note resize = gc_vector_resize_def Let_def run_bindp run_catchp run_allocate run_leaf
  note fresh = buffers_apart_fresh [OF apart buf vec_simD(3) [OF sim]]
  note con = construct_new [where build = ?build, OF sim mp fresh cap b, unfolded len]
  show ?thesis
  proof (cases "e_alloc_fails env Root_Ranges_Push")
    case fails: True
    from con(1) [OF _ _ fails ne] obtain t where "run (construct_roots env c buf ?build ?n ?n (k - ?n) s) = (Threw Bad_Alloc, t)"
      "root_frame s t" "vec_sim base m v ps t" by auto
    then show ?thesis using k sz fails some buf
      by (intro outcome_threw [where e = Bad_Alloc]) (simp_all add: resize refused_def)
  next
    case False
    from con(2) [OF _ _ False] obtain t u w where "run (construct_roots env c buf ?build ?n ?n (k - ?n) s) = (Done (), t)"
      "run (copy_roots env c ?b buf ?n t) = (Done (), u)" "run (destroy_roots env c ?b 0 ?n u) = (Done (), w)"
      "root_frame s w" "vec_sim base m \<lparr>vec_begin = buf, vec_size = k, vec_capacity = cap\<rparr> (ps @ ?qs) w" by auto
    then show ?thesis using k sz some buf by (intro outcome_done) (simp_all add: resize)
  qed
qed

lemma grow_outcome:
  assumes sim: "vec_sim base m v ps s" and mp: "may_proceed c s" and apart: "buffers_apart new_buffer" and k: "length ps < k"
  shows "vec_outcome base m (refused new_buffer env k) v ps (ps @ replicate (k - length ps) 0) s
    (run (gc_vector_resize new_buffer env c k v s))"
proof -
  let ?len = "check_len (length ps) (k - length ps)"
  note sz = vec_simD(1) [OF sim]
  note resize = gc_vector_resize_def Let_def run_bindp run_catchp run_allocate run_leaf
  consider "k \<le> vec_capacity v" | "\<not> k \<le> vec_capacity v" "?len = None"
    | cap where "\<not> k \<le> vec_capacity v" "?len = Some cap" "new_buffer cap s = None"
    | cap buf where "\<not> k \<le> vec_capacity v" "?len = Some cap" "new_buffer cap s = Some buf"
    by fastforce
  then show ?thesis
  proof cases
    case 1
    then show ?thesis by (rule grow_in_place [OF sim mp k])
  next
    case 2
    then have "vec_max_size < k" by (auto simp: check_len_def split: if_splits)
    then show ?thesis using 2 k sz sim
      by (intro outcome_threw [where e = Length_Error]) (simp_all add: resize refused_def)
  next
    case 3
    then show ?thesis using k sz sim
      by (intro outcome_threw [where e = Bad_Alloc]) (auto simp: resize refused_def)
  next
    case 4
    then show ?thesis by (rule grow_to_new_buffer [OF sim mp apart k])
  qed
qed

text \<open>A copy of elements that live elsewhere.\<close>

lemma copy_roots_fails:
  assumes "roots_sim base m s" "may_proceed c s" "fresh_buffer m dst cap" "n \<le> cap" "0 < n"
    "\<And>i. i < n \<Longrightarrow> m (slot src i) = Some (val i)" "e_alloc_fails env Root_Ranges_Push"
  shows "\<exists>t. run (copy_roots env c src dst n s) = (Threw Bad_Alloc, t) \<and> root_frame s t \<and> roots_sim base m t"
  unfolding copy_roots_def
  by (rule construct_sim(1) [where val = val, OF assms(1,2) _ _ _ builds_roots(3) assms(7,5)])
    (use assms(3,4,6) in \<open>auto simp: fresh_buffer_def\<close>)

lemma vec_copy_cases:
  assumes rs: "roots_sim base m s" and mp: "may_proceed c s" and apart: "buffers_apart new_buffer"
    and src: "vec_size other = length qs" "\<And>i. i < length qs \<Longrightarrow> m (slot (vec_begin other) i) = Some (qs ! i)"
  obtains v' t where "run (gc_vector_copy new_buffer env c other s) = (Done v', t)" "root_frame s t" "vec_sim base m v' qs t"
  | t where "run (gc_vector_copy new_buffer env c other s) = (Threw Bad_Alloc, t)" "root_frame s t" "roots_sim base m t"
      "refused new_buffer env n Bad_Alloc"
proof (cases "qs = []")
  case True
  then show ?thesis
    using that(1) [OF _ root_frame_refl] vec_sim_new [OF rs] src(1) by (simp add: gc_vector_copy_def run_leaf)
next
  case False
  note copy = gc_vector_copy_def run_bindp run_allocate run_leaf
  show ?thesis
  proof (cases "new_buffer (length qs) s")
    case None
    then show ?thesis
      using that(2) [OF _ root_frame_refl rs] False src(1) by (auto simp: copy refused_def)
  next
    case (Some buf)
    note fresh = buffers_apart_fresh [OF apart Some rs]
    show ?thesis
    proof (cases "e_alloc_fails env Root_Ranges_Push")
      case True
      from copy_roots_fails [where val = "(!) qs", OF rs mp fresh order_refl _ src(2) True] False obtain t where
        "run (copy_roots env c (vec_begin other) buf (length qs) s) = (Threw Bad_Alloc, t)" "root_frame s t" "roots_sim base m t"
        by auto
      then show ?thesis using that(2) True False src(1) Some by (auto simp: copy refused_def)
    next
      case mem: False
      from copy_roots_sim [where val = "(!) qs", OF rs mp fresh order_refl src(2) disjI2 [OF mem]] obtain t where t:
        "run (copy_roots env c (vec_begin other) buf (length qs) s) = (Done (), t)" "root_frame s t"
        "roots_sim base (m ++ segment buf 0 (length qs) ((!) qs)) t" by auto
      then have "vec_sim base m \<lparr>vec_begin = buf, vec_size = length qs, vec_capacity = length qs\<rparr> qs t"
        using fresh by (simp add: vec_sim_def)
      then show ?thesis using that(1) t(1,2) False src(1) Some by (simp add: copy)
    qed
  qed
qed

lemma reserve_outcome:
  assumes sim: "vec_sim base m v ps s" and mp: "may_proceed c s" and apart: "buffers_apart new_buffer"
  shows "vec_outcome base m (refused new_buffer env k) v ps ps s (run (gc_vector_reserve new_buffer env c k v s))"
proof -
  note sz = vec_simD(1,2) [OF sim]
  note reserve = gc_vector_reserve_def run_bindp run_allocate run_leaf
  consider "vec_max_size < k" | "k \<le> vec_max_size" "k \<le> vec_capacity v" |
    "k \<le> vec_max_size" "vec_capacity v < k" "new_buffer k s = None" |
    buf where "k \<le> vec_max_size" "vec_capacity v < k" "new_buffer k s = Some buf" by fastforce
  then show ?thesis
  proof cases
    case 1
    then show ?thesis using sim by (intro outcome_threw [where e = Length_Error]) (simp_all add: reserve refused_def)
  next
    case 2
    then show ?thesis using sim by (intro outcome_done) (simp_all add: reserve)
  next
    case 3
    then show ?thesis using sim by (intro outcome_threw [where e = Bad_Alloc]) (auto simp: reserve refused_def)
  next
    case 4
    note fresh = buffers_apart_fresh [OF apart 4(3) vec_simD(3) [OF sim]]
    have cap: "length ps + length [] \<le> k" "length ps \<le> k" using sz 4(2) by simp_all
    show ?thesis
    proof (cases "ps = [] \<or> \<not> e_alloc_fails env Root_Ranges_Push")
      case True
      from relocate_sim [OF sim cap(1) True fresh _ mp] vec_simD(3) [OF sim] obtain u t where
        "run (copy_roots env c (vec_begin v) buf (length ps) s) = (Done (), u)"
        "run (destroy_roots env c (vec_begin v) 0 (length ps) u) = (Done (), t)" "root_frame s t"
        "vec_sim base m \<lparr>vec_begin = buf, vec_size = length ps, vec_capacity = k\<rparr> ps t" by auto
      then show ?thesis using 4 sz by (intro outcome_done) (simp_all add: reserve)
    next
      case False
      then have "0 < length ps" "e_alloc_fails env Root_Ranges_Push" by simp_all
      from copy_roots_fails [where val = "(!) ps", OF vec_simD(3) [OF sim] mp fresh cap(2) this(1) vec_simD(5) [OF sim] this(2)]
      obtain t where "run (copy_roots env c (vec_begin v) buf (length ps) s) = (Threw Bad_Alloc, t)" "root_frame s t"
        "roots_sim base (vec_roots m v ps) t" by auto
      then show ?thesis using 4 sz False vec_sim_roots [OF sim]
        by (intro outcome_threw [where e = Bad_Alloc]) (simp_all add: reserve refused_def)
    qed
  qed
qed

text \<open>\<open>shrink_to_fit\<close> never throws and never changes the list.\<close>

lemma shrink_outcome:
  assumes sim: "vec_sim base m v ps s" and mp: "may_proceed c s" and apart: "buffers_apart new_buffer"
  shows "vec_outcome base m (\<lambda>_. False) v ps ps s (run (gc_vector_shrink_to_fit new_buffer env c v s))"
proof (cases "vec_capacity v = vec_size v")
  case True
  then show ?thesis using sim by (intro outcome_done) (simp_all add: gc_vector_shrink_to_fit_def run_leaf)
next
  case False
  note shrink = gc_vector_shrink_to_fit_def gc_vector_swap_def gc_vector_destroy_def run_bindp run_catchp run_leaf vec_simD(1) [OF sim]
  show ?thesis
  proof (rule vec_copy_cases [OF vec_simD(3) [OF sim] mp apart vec_simD(1) [OF sim] vec_simD(5) [OF sim], where env = env])
    fix w t assume w: "run (gc_vector_copy new_buffer env c v s) = (Done w, t)" "root_frame s t"
      "vec_sim base (vec_roots m v ps) w ps t"
    have "may_proceed c t" using root_frame_keeps(1) [OF w(2)] mp by simp
    from drop_old [OF sim w(3) this, of env] obtain u where
      "run (destroy_roots env c (vec_begin v) 0 (length ps) t) = (Done (), u)" "root_frame t u" "vec_sim base m w ps u" by blast
    then show ?thesis using w(1) root_frame_trans [OF w(2)] False
      by (intro outcome_done) (simp_all add: shrink)
  next
    fix t assume "run (gc_vector_copy new_buffer env c v s) = (Threw Bad_Alloc, t)" "root_frame s t" "roots_sim base (vec_roots m v ps) t"
    then show ?thesis using False vec_sim_roots [OF sim]
      by (intro outcome_done) (simp_all add: shrink)
  qed simp
qed

section \<open>Removal\<close>

lemma segment_truncate:
  assumes fresh: "fresh_buffer m buf cap" and n: "n \<le> cap" "k \<le> n"
  shows "(m ++ segment buf 0 n val) |` (- slot buf ` {k..<n}) = m ++ segment buf 0 k val"
proof (rule ext)
  fix a
  have ok: "buffer_ok buf cap" using fresh by (simp add: fresh_buffer_def)
  show "((m ++ segment buf 0 n val) |` (- slot buf ` {k..<n})) a = (m ++ segment buf 0 k val) a"
  proof (cases "a \<in> slot buf ` {0..<n}")
    case True
    then obtain i where i: "i < n" "a = slot buf i" by auto
    have am: "m a = None" using segment_disjoint [OF fresh n(1)] True by auto
    show ?thesis
    proof (cases "i < k")
      case True
      then have "segment buf 0 n val a = Some (val i)" "segment buf 0 k val a = Some (val i)"
        using segment_at [OF ok, of 0 n i val] segment_at [OF ok, of 0 k i val] i n by simp_all
      moreover have "a \<notin> slot buf ` {k..<n}" using True i n slot_inj [OF ok] by auto
      ultimately show ?thesis by (simp add: map_add_Some_iff)
    next
      case False
      then have "a \<in> slot buf ` {k..<n}" using i by simp
      moreover have "a \<notin> dom (segment buf 0 k val)"
        using False i n slot_inj [OF ok] by (auto simp add: dom_segment simp del: domIff)
      then have "segment buf 0 k val a = None" by (simp add: domIff)
      ultimately show ?thesis using am by (simp add: map_add_def)
    qed
  next
    case False
    moreover from this n have "a \<notin> slot buf ` {0..<k}" "a \<notin> slot buf ` {k..<n}" by auto
    ultimately have "segment buf 0 n val a = None" "segment buf 0 k val a = None" "a \<notin> slot buf ` {k..<n}"
      by (simp_all add: segment_None)
    then show ?thesis by (simp add: map_add_def)
  qed
qed

lemma truncate_sim:
  assumes rs: "roots_sim base (m ++ segment (vec_begin v) 0 n val) s" and mp: "may_proceed c s"
    and fresh: "0 < vec_capacity v \<longrightarrow> fresh_buffer m (vec_begin v) (vec_capacity v)" and n: "n \<le> vec_capacity v" "k \<le> n"
  shows "\<exists>t. run (destroy_roots env c (vec_begin v) k (n - k) s) = (Done (), t) \<and> root_frame s t \<and>
    roots_sim base (m ++ segment (vec_begin v) 0 k val) t"
proof (cases "n = k")
  case True
  with rs show ?thesis by (simp add: run_leaf)
next
  case False
  with fresh n have f: "fresh_buffer m (vec_begin v) (vec_capacity v)" by simp
  then have ok: "buffer_ok (vec_begin v) (vec_capacity v)" by (simp add: fresh_buffer_def)
  have "slot (vec_begin v) ` {k..<k + (n - k)} \<subseteq> dom (m ++ segment (vec_begin v) 0 n val)"
    using n by (simp only: dom_map_add dom_segment) auto
  from destroy_roots_sim [OF rs mp ok _ this, of env] n segment_truncate [OF f n]
  show ?thesis by simp
qed

text \<open>The excess of \<open>resize\<close>, \<open>clear\<close> and the destructor.\<close>

lemma vec_truncate_sim:
  assumes sim: "vec_sim base m v ps s" and mp: "may_proceed c s" and k: "k \<le> length ps"
  shows "\<exists>t. run (destroy_roots env c (vec_begin v) k (vec_size v - k) s) = (Done (), t) \<and> root_frame s t \<and>
    vec_sim base m (v\<lparr>vec_size := k\<rparr>) (take k ps) t"
proof -
  have sz: "vec_size v = length ps" "length ps \<le> vec_capacity v" 
    "0 < vec_capacity v \<longrightarrow> fresh_buffer m (vec_begin v) (vec_capacity v)"
    "roots_sim base (m ++ segment (vec_begin v) 0 (length ps) ((!) ps)) s"
    using sim by (simp_all add: vec_sim_def)
  from truncate_sim [OF sz(4) mp sz(3) sz(2) k, of env] obtain t where t:
    "run (destroy_roots env c (vec_begin v) k (length ps - k) s) = (Done (), t)" "root_frame s t"
    "roots_sim base (m ++ segment (vec_begin v) 0 k ((!) ps)) t" by blast
  have "segment (vec_begin v) 0 k ((!) ps) = segment (vec_begin v) 0 k ((!) (take k ps))"
    by (rule segment_cong) simp
  with t sz k show ?thesis by (intro exI [of _ t]) (simp add: vec_sim_def min_absorb2)
qed

lemma clear_sim:
  assumes "vec_sim base m v ps s" "may_proceed c s"
  shows "\<exists>t. run (gc_vector_clear env c v s) = (Done (v\<lparr>vec_size := 0\<rparr>), t) \<and> root_frame s t \<and>
      vec_sim base m (v\<lparr>vec_size := 0\<rparr>) [] t"
    and "\<exists>t. run (gc_vector_destroy env c v s) = (Done (), t) \<and> root_frame s t \<and> roots_sim base m t"
  using vec_truncate_sim [OF assms, of 0 env]
  by (auto simp: gc_vector_clear_def gc_vector_destroy_def run_bindp run_leaf vec_sim_def)

lemma pop_back_sim:
  assumes "vec_sim base m v ps s" "may_proceed c s" "ps \<noteq> []"
  shows "\<exists>t. run (gc_vector_pop_back env c v s) = (Done (v\<lparr>vec_size := vec_size v - 1\<rparr>), t) \<and> root_frame s t \<and>
      vec_sim base m (v\<lparr>vec_size := vec_size v - 1\<rparr>) (butlast ps) t"
proof -
  have sz: "vec_size v = length ps" "length ps - (length ps - 1) = Suc 0"
    using assms(1,3) by (auto simp: vec_sim_def Suc_leI)
  from vec_truncate_sim [OF assms(1,2), of "length ps - 1" env] sz obtain t where t:
    "run (destroy_roots env c (vec_begin v) (length ps - 1) (Suc 0) s) = (Done (), t)" "root_frame s t"
    "vec_sim base m (v\<lparr>vec_size := length ps - 1\<rparr>) (take (length ps - 1) ps) t" by auto
  then have "run (gc_root_destroy env c (slot (vec_begin v) (length ps - 1)) s) = (Done (), t)"
    by (cases "run (gc_root_destroy env c (slot (vec_begin v) (length ps - 1)) s)")
      (auto simp: run_bindp run_leaf elim!: bind_outcome.elims)
  with t(2,3) sz show ?thesis
    by (intro exI [of _ t]) (simp add: gc_vector_pop_back_def run_bindp run_leaf butlast_conv_take)
qed

text \<open>A write to an element.\<close>

lemma segment_upd:
  assumes ok: "buffer_ok buf cap" and n: "N \<le> cap" "j < N"
  shows "(m ++ segment buf 0 N val)(slot buf j \<mapsto> x) = m ++ segment buf 0 N (val(j := x))"
proof -
  have "(segment buf 0 N val)(slot buf j \<mapsto> x) = segment buf 0 N (val(j := x))"
  proof (rule ext)
    fix a
    show "((segment buf 0 N val)(slot buf j \<mapsto> x)) a = segment buf 0 N (val(j := x)) a"
    proof (cases "a \<in> slot buf ` {0..<N}")
      case True
      then obtain i where "i < N" "a = slot buf i" by auto
      then show ?thesis using segment_at [OF ok, of 0 N i] n slot_inj [OF ok, of i j] by auto
    next
      case False
      then have "a \<noteq> slot buf j" "segment buf 0 N val a = None" "segment buf 0 N (val(j := x)) a = None"
        using n dom_segment [of buf 0 N] by (auto simp: domIff)
      then show ?thesis by simp
    qed
  qed
  then show ?thesis by (simp flip: map_add_upd)
qed

lemma vec_write:
  assumes sim: "vec_sim base m v ps s" and j: "j < length ps"
  shows "vec_sim base m v (ps[j := x]) (put_word (slot (vec_begin v) j) x s)"
proof -
  let ?b = "vec_begin v"
  have cap: "length ps \<le> vec_capacity v" by (rule vec_simD(2) [OF sim])
  then have ok: "buffer_ok ?b (vec_capacity v)" using vec_simD(4) [OF sim] j by (simp add: fresh_buffer_def)
  have "roots_sim base ((m ++ segment ?b 0 (length ps) ((!) ps))(slot ?b j \<mapsto> x)) (put_word (slot ?b j) x s)"
    by (rule root_write [OF vec_simD(3) [OF sim, unfolded vec_roots_def]])
      (rule domI, rule vec_simD(5) [OF sim j, unfolded vec_roots_def])
  moreover have "segment ?b 0 (length ps) (((!) ps)(j := x)) = segment ?b 0 (length ps) ((!) (ps[j := x]))"
    by (rule segment_cong) (simp add: nth_list_update)
  ultimately show ?thesis
    using sim segment_upd [OF ok cap j, of m "(!) ps" x] by (simp add: vec_sim_def)
qed

text \<open>\<open>erase\<close>: what the moved-from elements at the end hold does not matter, they are destroyed.\<close>

lemma shift_down_sim:
  assumes "roots_sim base (m ++ segment buf 0 N val) s" "fresh_buffer m buf cap" "N \<le> cap"
    "dst < src" "src + n \<le> N" "may_proceed c s"
  shows "\<exists>t val'. run (shift_down buf dst src n s) = (Done (), t) \<and> root_frame s t \<and>
    roots_sim base (m ++ segment buf 0 N val') t \<and> (\<forall>j<dst. val' j = val j) \<and>
    (\<forall>k<n. val' (dst + k) = val (src + k))"
  using assms
proof (induction n arbitrary: dst src val s)
  case (Suc n)
  let ?a = "slot buf dst" and ?b = "slot buf src"
  have ok: "buffer_ok buf cap" using Suc.prems(2) by (simp add: fresh_buffer_def)
  have at: "(m ++ segment buf 0 N val) (slot buf j) = Some (val j)" if "j < N" for j val
    using segment_at [OF ok, of 0 N j val] that Suc.prems(3) by (simp add: map_add_Some_iff)
  have ne: "?a \<noteq> ?b" using slot_inj [OF ok] Suc.prems(3-5) by simp
  note upd = segment_upd [OF ok Suc.prems(3)]
  have gw: "get_word ?b s = val src" using Suc.prems(1,5) at [of src val] by (simp add: roots_sim_def)
  let ?val = "(val(dst := val src))(src := 0)"
  let ?s = "put_word ?b 0 (put_word ?a (val src) s)"
  have "roots_sim base ((m ++ segment buf 0 N val)(?a \<mapsto> val src)) (put_word ?a (val src) s)"
    by (rule root_write [OF Suc.prems(1)]) (use at [of dst val] Suc.prems(4,5) in \<open>auto simp: domI\<close>)
  then have "roots_sim base (m ++ segment buf 0 N (val(dst := val src))) (put_word ?a (val src) s)"
    using upd [of dst] Suc.prems(4,5) by simp
  then have "roots_sim base ((m ++ segment buf 0 N (val(dst := val src)))(?b \<mapsto> 0)) ?s"
    by (rule root_write) (use at [of src "val(dst := val src)"] Suc.prems(4,5) in \<open>auto simp: domI\<close>)
  then have rs: "roots_sim base (m ++ segment buf 0 N ?val) ?s" using upd [of src] Suc.prems(5) by simp
  have "may_proceed c ?s" using Suc.prems(6) by simp
  from Suc.IH [OF rs Suc.prems(2,3) _ _ this, of "Suc dst" "Suc src"] Suc.prems(4,5) obtain t val' where t:
    "run (shift_down buf (Suc dst) (Suc src) n ?s) = (Done (), t)" "root_frame ?s t"
    "roots_sim base (m ++ segment buf 0 N val') t" "\<forall>j<Suc dst. val' j = ?val j"
    "\<forall>k<n. val' (Suc dst + k) = ?val (Suc src + k)" by auto
  have "val' (dst + k) = val (src + k)" if "k < Suc n" for k
    using t(4,5) that Suc.prems(4) by (cases k) auto
  moreover have "\<forall>j<dst. val' j = val j" using t(4) Suc.prems(4) by auto
  moreover have "run (shift_down buf dst src (Suc n) s) = (Done (), t)"
    using ne gw t(1) by (simp add: gc_root_move_assign_def run_bindp run_leaf)
  moreover have "root_frame s t" by (rule root_frame_trans [OF _ t(2)]) simp
  ultimately show ?case using t(3) by blast
qed (auto simp: run_leaf)

lemma erase_range_sim:
  assumes sim: "vec_sim base m v ps s" and mp: "may_proceed c s" and r: "first \<le> past" "past \<le> length ps"
  shows "\<exists>v' t. run (gc_vector_erase_range env c first past v s) = (Done v', t) \<and> root_frame s t \<and>
    vec_sim base m v' (take first ps @ drop past ps) t"
proof (cases "first = past")
  case True
  with sim show ?thesis by (auto simp: gc_vector_erase_range_def run_leaf)
next
  case False
  let ?N = "length ps" and ?b = "vec_begin v" and ?n = "length ps - past"
  let ?kept = "first + ?n"
  have sz: "vec_size v = ?N" "?N \<le> vec_capacity v" and rs: "roots_sim base (m ++ segment ?b 0 ?N ((!) ps)) s"
    and fb: "0 < vec_capacity v \<longrightarrow> fresh_buffer m ?b (vec_capacity v)"
    using sim by (simp_all add: vec_sim_def)
  with False r have f: "fresh_buffer m ?b (vec_capacity v)" by simp
  from shift_down_sim [OF rs f sz(2) _ _ mp, of first past ?n] False r obtain u val where u:
    "run (shift_down ?b first past ?n s) = (Done (), u)" "root_frame s u"
    "roots_sim base (m ++ segment ?b 0 ?N val) u" "\<forall>j<first. val j = ps ! j" "\<forall>k<?n. val (first + k) = ps ! (past + k)"
    by auto
  have mpu: "may_proceed c u" using root_frame_keeps(1) [OF u(2)] mp by simp
  have "?kept \<le> ?N" using r by linarith
  from truncate_sim [OF u(3) mpu fb sz(2) this, of env] obtain t where t:
    "run (destroy_roots env c ?b ?kept (?N - ?kept) u) = (Done (), t)" "root_frame u t"
    "roots_sim base (m ++ segment ?b 0 ?kept val) t" by blast
  have "segment ?b 0 ?kept val = segment ?b 0 ?kept ((!) (take first ps @ drop past ps))"
  proof (rule segment_cong)
    fix j assume "0 \<le> j" "j < 0 + ?kept"
    then show "val j = (take first ps @ drop past ps) ! j"
      using u(4) u(5) [rule_format, of "j - first"] r by (cases "j < first") (auto simp: nth_append)
  qed
  then have "vec_sim base m (v\<lparr>vec_size := ?kept\<rparr>) (take first ps @ drop past ps) t"
    using t(3) r sz f by (simp add: vec_sim_def)
  moreover have "run (gc_vector_erase_range env c first past v s) = (Done (v\<lparr>vec_size := ?kept\<rparr>), t)"
    using False u(1) t(1) sz by (simp add: gc_vector_erase_range_def Let_def run_bindp run_leaf)
  ultimately show ?thesis using root_frame_trans [OF u(2) t(2)] by blast
qed

lemma destroy_one: "run (destroy_roots env c buf i (Suc 0) s) = run (gc_root_destroy env c (slot buf i) s)"
  by (cases "run (gc_root_destroy env c (slot buf i) s)" rule: catch_outcome.cases [of "(_, \<lambda>_ s. (Stuck, s))", simplified])
    (auto simp: run_bindp run_leaf)

lemma erase_is_erase_range:
  "i < vec_size v \<Longrightarrow> run (gc_vector_erase env c i v s) = run (gc_vector_erase_range env c i (Suc i) v s)"
proof -
  assume "i < vec_size v"
  then have "i + (vec_size v - Suc i) = vec_size v - 1" "vec_size v - (vec_size v - 1) = Suc 0" by simp_all
  then show ?thesis
    by (simp add: gc_vector_erase_def gc_vector_erase_range_def Let_def run_bindp destroy_one del: destroy_roots.simps)
qed

text \<open>\<open>resize\<close> as one operation on lists.\<close>

definition resized :: "nat \<Rightarrow> addr list \<Rightarrow> addr list" where
  "resized k ps = take k ps @ replicate (k - length ps) 0"

lemma resize_outcome:
  assumes "vec_sim base m v ps s" "may_proceed c s" "buffers_apart new_buffer"
  shows "vec_outcome base m (refused new_buffer env k) v ps (resized k ps) s (run (gc_vector_resize new_buffer env c k v s))"
proof (cases "length ps < k")
  case True
  then show ?thesis using grow_outcome [OF assms True] by (simp add: resized_def)
next
  case False
  then show ?thesis
    using vec_truncate_sim [OF assms(1,2), of k env] vec_simD(1) [OF assms(1)]
    by (auto simp: vec_outcome_def gc_vector_resize_def resized_def run_bindp run_leaf)
qed

section \<open>Constructors and assignment\<close>

lemma vec_sim_new_iff: "vec_sim base m new_gc_vector [] s \<longleftrightarrow> roots_sim base m s"
  by (simp add: vec_sim_def new_gc_vector_def)

lemma refused_mono: "refused new_buffer env n e \<Longrightarrow> n \<le> k \<Longrightarrow> refused new_buffer env k e"
  by (auto simp: refused_def)

lemma copy_outcome:
  assumes "roots_sim base m s" "may_proceed c s" "buffers_apart new_buffer"
    "vec_size other = length qs" "\<And>i. i < length qs \<Longrightarrow> m (slot (vec_begin other) i) = Some (qs ! i)"
  shows "vec_outcome base m (refused new_buffer env n) new_gc_vector [] qs s (run (gc_vector_copy new_buffer env c other s))"
  by (rule vec_copy_cases [OF assms, where n = n and env = env]) (auto simp: vec_outcome_def vec_sim_new_iff)

lemma of_count_outcome:
  assumes rs: "roots_sim base m s" and mp: "may_proceed c s" and apart: "buffers_apart new_buffer"
  shows "vec_outcome base m (refused new_buffer env n) new_gc_vector [] (replicate n 0) s
    (run (gc_vector_of_count new_buffer env c n s))"
proof -
  note count = gc_vector_of_count_def run_bindp run_allocate run_leaf
  let ?build = "\<lambda>_ a. gc_root_default env c a"
  consider "vec_max_size < n" | "n = 0" | "n \<le> vec_max_size" "0 < n" "new_buffer n s = None" |
    buf where "n \<le> vec_max_size" "0 < n" "new_buffer n s = Some buf" by fastforce
  then show ?thesis
  proof cases
    case 1
    then show ?thesis using rs by (intro outcome_threw [where e = Length_Error]) (simp_all add: count refused_def vec_sim_new_iff)
  next
    case 2
    then show ?thesis using rs
      by (intro outcome_done [where v' = new_gc_vector and t = s]) (simp_all add: count vec_sim_new_iff)
  next
    case 3
    then show ?thesis using rs by (intro outcome_threw [where e = Bad_Alloc]) (auto simp: count refused_def vec_sim_new_iff)
  next
    case 4
    note fresh = buffers_apart_fresh [OF apart 4(3) rs]
    then have ok: "buffer_ok buf n" by (simp add: fresh_buffer_def)
    have len: "0 + n \<le> n" by simp
    have apart': "word_apart h (slot buf j)" if "0 \<le> j" "j < 0 + n" "h \<in> dom m" for j h
      using that fresh by (simp add: fresh_buffer_def)
    have con: "\<exists>t. run (construct_roots env c buf ?build 0 0 n s) = (Threw Bad_Alloc, t) \<and>
        root_frame s t \<and> roots_sim base m t" if "e_alloc_fails env Root_Ranges_Push"
      by (rule construct_sim(1) [where val = "\<lambda>_. 0", OF rs mp ok len apart']) (use 4(2) that in \<open>simp_all add: builds_roots\<close>)
    have con': "\<exists>t. run (construct_roots env c buf ?build 0 0 n s) = (Done (), t) \<and>
        root_frame s t \<and> roots_sim base (m ++ segment buf 0 n (\<lambda>_. 0)) t" if "\<not> e_alloc_fails env Root_Ranges_Push"
      by (rule construct_sim(2) [where val = "\<lambda>_. 0", OF rs mp ok len apart']) (use that in \<open>simp_all add: builds_roots\<close>)
    show ?thesis
    proof (cases "e_alloc_fails env Root_Ranges_Push")
      case True
      from con [OF True] obtain t where "run (construct_roots env c buf ?build 0 0 n s) = (Threw Bad_Alloc, t)"
        "root_frame s t" "roots_sim base m t" by auto
      then show ?thesis using 4 True
        by (intro outcome_threw [where e = Bad_Alloc]) (simp_all add: count refused_def vec_sim_new_iff)
    next
      case False
      from con' [OF False] obtain t where
        "run (construct_roots env c buf ?build 0 0 n s) = (Done (), t)"
        "root_frame s t" "roots_sim base (m ++ segment buf 0 n (\<lambda>_. 0)) t" by auto
      moreover have "segment buf 0 n (\<lambda>_. 0) = segment buf 0 n ((!) (replicate n 0))" by (rule segment_cong) simp
      ultimately show ?thesis using 4 fresh
        by (intro outcome_done [where v' = "\<lparr>vec_begin = buf, vec_size = n, vec_capacity = n\<rparr>"])
          (simp_all add: count vec_sim_def)
    qed
  qed
qed

lemma append_all_outcome:
  assumes "vec_sim base m v ps s" "may_proceed c s" "buffers_apart new_buffer"
  shows "vec_outcome base m (refused new_buffer env (length ps + length xs)) new_gc_vector [] (ps @ map raw_ptr xs) s
    (run (append_all new_buffer env c xs v s))"
  using assms
proof (induction xs arbitrary: v ps s)
  case Nil
  then show ?case by (intro outcome_done) (simp_all add: run_leaf)
next
  case (Cons p xs)
  from push_back_outcome [OF Cons.prems, of env p] show ?case
    unfolding vec_outcome_def [of base m _ v]
  proof (elim disjE exE conjE)
    fix v' t assume t: "run (gc_vector_push_back new_buffer env c p v s) = (Done v', t)" "root_frame s t"
      "vec_sim base m v' (ps @ [raw_ptr p]) t"
    have "may_proceed c t" using root_frame_keeps(1) [OF t(2)] Cons.prems(2) by simp
    from Cons.IH [OF t(3) this Cons.prems(3)] t(1) root_frame_trans [OF t(2)] show ?thesis
      by (auto simp: vec_outcome_def run_bindp run_catchp)
  next
    fix e t assume t: "run (gc_vector_push_back new_buffer env c p v s) = (Threw e, t)" "root_frame s t"
      "vec_sim base m v ps t" "refused new_buffer env (Suc (length ps)) e"
    have "may_proceed c t" using root_frame_keeps(1) [OF t(2)] Cons.prems(2) by simp
    from clear_sim(2) [OF t(3) this, of env] obtain u where
      "run (destroy_roots env c (vec_begin v) 0 (vec_size v) t) = (Done (), u)" "root_frame t u" "roots_sim base m u"
      by (auto simp: gc_vector_destroy_def)
    then show ?thesis using t(1) root_frame_trans [OF t(2)] refused_mono [OF t(4)]
      by (intro outcome_threw [where e = e]) (simp_all add: run_bindp run_catchp run_leaf vec_sim_new_iff)
  qed
qed

lemma of_list_outcome:
  assumes rs: "roots_sim base m s" and mp: "may_proceed c s" and apart: "buffers_apart new_buffer"
  shows "vec_outcome base m (refused new_buffer env (length xs)) new_gc_vector [] (map raw_ptr xs) s
    (run (gc_vector_of_list new_buffer env c xs s))"
  using reserve_outcome [OF vec_sim_new [OF rs] mp apart, of env "length xs"]
  unfolding vec_outcome_def [of base m _ new_gc_vector "[]" "[]"]
proof (elim disjE exE conjE)
  fix v t assume t: "run (gc_vector_reserve new_buffer env c (length xs) new_gc_vector s) = (Done v, t)" "root_frame s t"
    "vec_sim base m v [] t"
  have "may_proceed c t" using root_frame_keeps(1) [OF t(2)] mp by simp
  from append_all_outcome [OF t(3) this apart, of env xs] t(1) root_frame_trans [OF t(2)] show ?thesis
    by (auto simp: vec_outcome_def gc_vector_of_list_def run_bindp)
qed (auto simp: vec_outcome_def gc_vector_of_list_def run_bindp)

lemma vector_move_assign_sim:
  assumes sim: "vec_sim base m v ps s" and other: "vec_sim base (vec_roots m v ps) w qs s" and mp: "may_proceed c s"
  shows "\<exists>t. run (gc_vector_move_assign env c False v w s) = (Done (w, new_gc_vector), t) \<and> root_frame s t \<and>
    vec_sim base m w qs t"
  using drop_old [OF assms, of env] vec_simD(1) [OF sim] by (auto simp: gc_vector_move_assign_def run_bindp run_leaf)

lemma assign_roots_sim:
  assumes "vec_sim base m v ps s" "i + n \<le> length ps" "\<And>j. j < length qs \<Longrightarrow> m (slot src j) = Some (qs ! j)" "i + n \<le> length qs"
  shows "\<exists>t. run (assign_roots (vec_begin v) src i n s) = (Done (), t) \<and> root_frame s t \<and>
    vec_sim base m v (take i ps @ take n (drop i qs) @ drop (i + n) ps) t"
  using assms
proof (induction n arbitrary: i ps s)
  case 0
  then show ?case by (simp add: run_leaf)
next
  case (Suc n)
  let ?s = "put_word (slot (vec_begin v) i) (qs ! i) s"
  have i: "i < length ps" "i < length qs" using Suc.prems by simp_all
  have "vec_roots m v ps (slot src i) = Some (qs ! i)"
    using Suc.prems(3) [OF i(2)] vec_simD(6) [OF Suc.prems(1)] by (metis domI map_le_def)
  then have w: "get_word (slot src i) s = qs ! i" using vec_simD(3) [OF Suc.prems(1)] by (simp add: roots_sim_def)
  have "slot src i \<noteq> slot (vec_begin v) i"
  proof
    assume e: "slot src i = slot (vec_begin v) i"
    have "fresh_buffer m (vec_begin v) (vec_capacity v)" "i < vec_capacity v"
      using vec_simD(2,4) [OF Suc.prems(1)] i(1) by auto
    then have "word_apart (slot src i) (slot (vec_begin v) i)"
      using fresh_bufferD [where m = m and h = "slot src i" and x = "qs ! i" and i = i] Suc.prems(3) [OF i(2)] by blast
    with e show False by simp
  qed
  then have step: "run (gc_root_copy_assign (slot (vec_begin v) i) (slot src i) s) = (Done (), ?s)"
    using w by (simp add: gc_root_copy_assign_def run_leaf)
  from Suc.IH [OF vec_write [OF Suc.prems(1) i(1)] _ Suc.prems(3), of "Suc i" "qs ! i"] Suc.prems(2,4) obtain t where t:
    "run (assign_roots (vec_begin v) src (Suc i) n ?s) = (Done (), t)" "root_frame ?s t"
    "vec_sim base m v (take (Suc i) (ps[i := qs ! i]) @ take n (drop (Suc i) qs) @ drop (Suc i + n) (ps[i := qs ! i])) t"
    by auto
  have e: "take (Suc i) (ps[i := qs ! i]) @ take n (drop (Suc i) qs) @ drop (Suc i + n) (ps[i := qs ! i]) =
    take i ps @ take (Suc n) (drop i qs) @ drop (i + Suc n) ps"
    using i by (simp add: take_Suc_conv_app_nth Cons_nth_drop_Suc [symmetric])
  have "root_frame s t" by (rule root_frame_trans [OF _ t(2)]) simp
  with t(1) t(3) [unfolded e] step show ?case by (intro exI [of _ t]) (simp add: run_bindp)
qed

text \<open>
  Copy assignment gives the basic guarantee: when it throws, the elements it has reached hold
  the new pointers and the others the old ones.
\<close>

text \<open>Copy assignment: into a new buffer, over the first elements, and over all of them and beyond.\<close>

lemma assign_to_new_buffer:
  assumes sim: "vec_sim base m v ps s" and mp: "may_proceed c s" and apart: "buffers_apart new_buffer"
    and src: "vec_size other = length qs" "\<And>j. j < length qs \<Longrightarrow> m (slot (vec_begin other) j) = Some (qs ! j)"
    and more: "vec_capacity v < length qs"
  shows "vec_outcome base m (refused new_buffer env n) v ps qs s
    (run (gc_vector_copy_assign new_buffer env c False v other s))"
proof (cases "new_buffer (length qs) s")
  case None
  then show ?thesis using more sim src(1)
    by (intro outcome_threw [where e = Bad_Alloc])
      (auto simp: gc_vector_copy_assign_def Let_def run_bindp run_allocate refused_def)
next
  case (Some buf)
  let ?o = "vec_begin other"
  note assign = gc_vector_copy_assign_def Let_def run_bindp run_allocate run_leaf
  have ne: "0 < length qs" using more by linarith
  have src': "vec_roots m v ps (slot ?o j) = Some (qs ! j)" if "j < length qs" for j
    using src(2) [OF that] vec_simD(6) [OF sim] by (metis domI map_le_def)
  note fresh = buffers_apart_fresh [OF apart Some vec_simD(3) [OF sim]]
  show ?thesis
  proof (cases "e_alloc_fails env Root_Ranges_Push")
    case True
    from copy_roots_fails [where val = "(!) qs", OF vec_simD(3) [OF sim] mp fresh order_refl ne src' True] obtain t where
      "run (copy_roots env c ?o buf (length qs) s) = (Threw Bad_Alloc, t)" "root_frame s t"
      "roots_sim base (vec_roots m v ps) t" by auto
    then show ?thesis using more src(1) Some True vec_sim_roots [OF sim]
      by (intro outcome_threw [where e = Bad_Alloc]) (simp_all add: assign refused_def)
  next
    case False
    from copy_roots_sim [where val = "(!) qs", OF vec_simD(3) [OF sim] mp fresh order_refl src' disjI2 [OF False]]
    obtain t where t: "run (copy_roots env c ?o buf (length qs) s) = (Done (), t)" "root_frame s t"
      "roots_sim base (vec_roots m v ps ++ segment buf 0 (length qs) ((!) qs)) t" by auto
    let ?w = "\<lparr>vec_begin = buf, vec_size = length qs, vec_capacity = length qs\<rparr>"
    have "vec_sim base (vec_roots m v ps) ?w qs t" using t(3) fresh by (simp add: vec_sim_def)
    moreover have "may_proceed c t" using root_frame_keeps(1) [OF t(2)] mp by simp
    ultimately obtain u where "run (destroy_roots env c (vec_begin v) 0 (length ps) t) = (Done (), u)" "root_frame t u"
      "vec_sim base m ?w qs u" using drop_old [OF sim, of ?w qs t c env] by blast
    then show ?thesis using more src(1) Some vec_simD(1) [OF sim] t(1) root_frame_trans [OF t(2)]
      by (intro outcome_done) (simp_all add: assign)
  qed
qed

lemma assign_fewer:
  assumes sim: "vec_sim base m v ps s" and mp: "may_proceed c s"
    and src: "vec_size other = length qs" "\<And>j. j < length qs \<Longrightarrow> m (slot (vec_begin other) j) = Some (qs ! j)"
    and fewer: "length qs \<le> length ps"
  shows "vec_outcome base m X v ps qs s (run (gc_vector_copy_assign new_buffer env c False v other s))"
proof -
  let ?b = "vec_begin v" and ?o = "vec_begin other"
  note sz = vec_simD(1,2) [OF sim]
  have nc: "\<not> vec_capacity v < length qs" using fewer sz by simp
  from assign_roots_sim [OF sim _ src(2), of 0 "length qs"] fewer obtain t where t:
    "run (assign_roots ?b ?o 0 (length qs) s) = (Done (), t)" "root_frame s t"
    "vec_sim base m v (qs @ drop (length qs) ps) t" by auto
  have "may_proceed c t" using root_frame_keeps(1) [OF t(2)] mp by simp
  from vec_truncate_sim [OF t(3) this, of "length qs" env] obtain u where
    "run (destroy_roots env c ?b (length qs) (vec_size v - length qs) t) = (Done (), u)" "root_frame t u"
    "vec_sim base m (v\<lparr>vec_size := length qs\<rparr>) qs u" by auto
  then show ?thesis using nc fewer src(1) sz t(1) root_frame_trans [OF t(2)]
    by (intro outcome_done) (simp_all add: gc_vector_copy_assign_def Let_def run_bindp run_leaf)
qed

lemma assign_more:
  assumes sim: "vec_sim base m v ps s" and mp: "may_proceed c s"
    and src: "vec_size other = length qs" "\<And>j. j < length qs \<Longrightarrow> m (slot (vec_begin other) j) = Some (qs ! j)"
    and more: "length ps < length qs" "length qs \<le> vec_capacity v"
  shows "vec_outcome base m (refused new_buffer env n) v (take (length ps) qs) qs s
    (run (gc_vector_copy_assign new_buffer env c False v other s))"
proof -
  let ?b = "vec_begin v" and ?o = "vec_begin other"
  let ?ps = "take (length ps) qs" and ?qs = "drop (length ps) qs"
  let ?build = "\<lambda>i a. gc_root_copy env c a (slot ?o i)"
  note assign = gc_vector_copy_assign_def Let_def run_bindp run_leaf
  have nc: "\<not> vec_capacity v < length qs" "\<not> length qs \<le> length ps" using more by simp_all
  from assign_roots_sim [OF sim _ src(2), of 0 "length ps"] more obtain t where t:
    "run (assign_roots ?b ?o 0 (length ps) s) = (Done (), t)" "root_frame s t" "vec_sim base m v ?ps t" by auto
  have len: "length ?ps = length ps" "length ?qs = length qs - length ps" "?ps @ ?qs = qs" using more by simp_all
  have mpt: "may_proceed c t" using root_frame_keeps(1) [OF t(2)] mp by simp
  have room: "length ?ps + length ?qs \<le> vec_capacity v" and ne: "?qs \<noteq> []" using more by simp_all
  have b: "builds env c base m (?build j) ((?ps @ ?qs) ! j)" if "length ?ps \<le> j" "j < length (?ps @ ?qs)" for j
    by (rule builds_roots(3)) (use src(2) [of j] that in simp)
  note con = construct_in_place [where build = ?build, OF t(3) mpt room b, unfolded len]
  show ?thesis
  proof (cases "e_alloc_fails env Root_Ranges_Push")
    case True
    from con(1) [OF _ _ True ne] obtain u where
      "run (construct_roots env c ?b ?build (length ps) (length ps) (length qs - length ps) t) = (Threw Bad_Alloc, u)"
      "root_frame t u" "vec_sim base m v ?ps u" by auto
    then show ?thesis using nc src(1) vec_simD(1) [OF sim] t(1) True root_frame_trans [OF t(2)]
      by (intro outcome_threw [where e = Bad_Alloc]) (simp_all add: assign refused_def)
  next
    case False
    from con(2) [OF _ _ False ne] obtain u where
      "run (construct_roots env c ?b ?build (length ps) (length ps) (length qs - length ps) t) = (Done (), u)"
      "root_frame t u" "vec_sim base m (v\<lparr>vec_size := length qs\<rparr>) qs u" by auto
    then show ?thesis using nc src(1) vec_simD(1) [OF sim] t(1) root_frame_trans [OF t(2)]
      by (intro outcome_done) (simp_all add: assign)
  qed
qed

lemma copy_assign_outcome:
  assumes sim: "vec_sim base m v ps s" and mp: "may_proceed c s" and apart: "buffers_apart new_buffer"
    and src: "vec_size other = length qs" "\<And>j. j < length qs \<Longrightarrow> m (slot (vec_begin other) j) = Some (qs ! j)"
  shows "vec_outcome base m (refused new_buffer env n) v ps qs s
      (run (gc_vector_copy_assign new_buffer env c False v other s)) \<or>
    vec_outcome base m (refused new_buffer env n) v (take (length ps) qs) qs s
      (run (gc_vector_copy_assign new_buffer env c False v other s))"
proof -
  consider "vec_capacity v < length qs" | "length qs \<le> length ps" | "length ps < length qs" "length qs \<le> vec_capacity v"
    by linarith
  then show ?thesis
  proof cases
    case 1
    then show ?thesis by (intro disjI1 assign_to_new_buffer [OF sim mp apart src])
  next
    case 2
    then show ?thesis by (intro disjI1 assign_fewer [OF sim mp src])
  next
    case 3
    then show ?thesis by (intro disjI2 assign_more [OF sim mp src])
  qed
qed

section \<open>A new element, rooted on the way\<close>

text \<open>
  The local root of \<open>emplace_new\<close> keeps the new object until the vector holds it, and is gone on
  every way out.
\<close>

text \<open>The root of the new object joins the live roots, and leaves them when it goes out of scope.\<close>

lemma created_joins:
  assumes sim: "vec_sim base m v ps s" and u: "roots_sim base ((vec_roots m v ps)(created \<mapsto> p)) u"
    and created: "fresh_root (vec_roots m v ps) created" "\<forall>i<vec_capacity v. word_apart created (slot (vec_begin v) i)"
  shows "vec_sim base (m(created \<mapsto> p)) v ps u" "m created = None"
proof -
  have "created \<notin> dom (vec_roots m v ps)" by (rule fresh_root_not_live [OF created(1)])
  then have ns: "created \<notin> dom (segment (vec_begin v) 0 (length ps) ((!) ps))" "m created = None"
    by (auto simp: vec_roots_def domIff map_add_None)
  have "fresh_buffer (m(created \<mapsto> p)) (vec_begin v) (vec_capacity v)" if "0 < vec_capacity v"
    using vec_simD(4) [OF sim that] created(2) by (simp add: fresh_buffer_def)
  moreover have "(vec_roots m v ps)(created \<mapsto> p) = m(created \<mapsto> p) ++ segment (vec_begin v) 0 (length ps) ((!) ps)"
    using ns(1) by (simp add: vec_roots_def map_add_upd_left)
  ultimately show "vec_sim base (m(created \<mapsto> p)) v ps u" using sim u by (simp add: vec_sim_def)
  show "m created = None" by (rule ns(2))
qed

lemma created_leaves:
  assumes sw: "vec_sim base (m(created \<mapsto> p)) v qs w" and none: "m created = None" and mp: "may_proceed c w"
  shows "\<exists>t. run (gc_root_destroy env c created w) = (Done (), t) \<and> root_frame w t \<and> vec_sim base m v qs t \<and>
    get_word created w = p"
proof -
  let ?m = "m(created \<mapsto> p)" and ?seg = "segment (vec_begin v) 0 (length qs) ((!) qs)"
  have nd: "created \<notin> dom ?seg"
  proof (cases "vec_capacity v")
    case 0
    then show ?thesis using vec_simD(2) [OF sw] by simp
  next
    case (Suc k)
    then have f: "fresh_buffer ?m (vec_begin v) (vec_capacity v)" using vec_simD(4) [OF sw] by simp
    show ?thesis unfolding dom_segment using segment_disjoint [OF f vec_simD(2) [OF sw]] by auto
  qed
  have rw: "roots_sim base (?m ++ ?seg) w" using vec_simD(3) [OF sw] by (simp add: vec_roots_def)
  have "created \<in> dom (?m ++ ?seg)" by simp
  from root_destroy [OF rw this mp] obtain t where t: "run (gc_root_destroy env c created w) = (Done (), t)"
    "root_frame w t" "roots_sim base ((?m ++ ?seg)(created := None)) t" by blast
  have "(?m ++ ?seg)(created := None) = m ++ ?seg"
    using nd none by (auto simp: fun_eq_iff map_add_def domIff split: option.splits)
  moreover have "m \<subseteq>\<^sub>m ?m" using none by (auto simp: map_le_def)
  then have "fresh_buffer m (vec_begin v) (vec_capacity v)" if "0 < vec_capacity v"
    by (rule fresh_buffer_mono [OF vec_simD(4) [OF sw that]])
  ultimately have "vec_sim base m v qs t" using t(3) vec_simD(1,2) [OF sw] by (simp add: vec_sim_def)
  moreover have "get_word created w = p" using rw nd by (auto simp: roots_sim_def map_add_Some_iff domIff)
  ultimately show ?thesis using t(1,2) by blast
qed

lemma insert_created_outcome:
  assumes sim: "vec_sim base m v ps s" and mp: "may_proceed c s" and apart: "buffers_apart new_buffer"
    and created: "fresh_root (vec_roots m v ps) created" "\<forall>i<vec_capacity v. word_apart created (slot (vec_begin v) i)"
  shows "(\<exists>v' t. run (insert_created new_buffer env c created v p s) = (Done (p, v'), t) \<and> root_frame s t \<and>
      vec_sim base m v' (ps @ [raw_ptr p]) t) \<or>
    (\<exists>e t. run (insert_created new_buffer env c created v p s) = (Threw e, t) \<and> root_frame s t \<and>
      vec_sim base m v ps t \<and> refused new_buffer env (Suc (length ps)) e)"
proof (cases "e_alloc_fails env Root_Ranges_Push")
  case True
  from buildsD(1) [OF builds_roots(1) map_le_refl vec_simD(3) [OF sim] mp created(1) True, of p] obtain t where
    "run (gc_root_from_ptr env c created p s) = (Threw Bad_Alloc, t)" "root_frame s t" "roots_sim base (vec_roots m v ps) t"
    by blast
  then show ?thesis using vec_sim_roots [OF sim] True
    by (intro disjI2 exI [of _ Bad_Alloc] exI [of _ t]) (simp add: insert_created_def run_bindp refused_def)
next
  case mem: False
  let ?p = "raw_ptr p"
  note insert = insert_created_def run_bindp run_catchp as_gc_ptr_def run_leaf
  from buildsD(2) [OF builds_roots(1) map_le_refl vec_simD(3) [OF sim] mp created(1) mem, of p] obtain u where u:
    "run (gc_root_from_ptr env c created p s) = (Done (), u)" "root_frame s u"
    "roots_sim base ((vec_roots m v ps)(created \<mapsto> ?p)) u" by blast
  have mpu: "may_proceed c u" using root_frame_keeps(1) [OF u(2)] mp by simp
  note joined = created_joins [OF sim u(3) created]
  have mpw: "may_proceed c w" if "root_frame u w" for w using root_frame_keeps(1) [OF that] mpu by simp
  have "builds env c base (m(created \<mapsto> ?p)) (\<lambda>a. gc_root_copy env c a created) ?p" by (rule builds_roots(3)) simp
  from vec_append_outcome [OF joined(1) mpu apart this] show ?thesis
    unfolding vec_outcome_def
  proof (elim disjE exE conjE)
    fix v' w assume w: "run (vec_append new_buffer env c (\<lambda>a. gc_root_copy env c a created) v u) = (Done v', w)"
      "root_frame u w" "vec_sim base (m(created \<mapsto> ?p)) v' (ps @ [?p]) w"
    from created_leaves [OF w(3) joined(2) mpw [OF w(2)], of env] show ?thesis
      using u(1) w(1) root_frame_trans [OF root_frame_trans [OF u(2) w(2)]] by (auto simp: insert)
  next
    fix e w assume w: "run (vec_append new_buffer env c (\<lambda>a. gc_root_copy env c a created) v u) = (Threw e, w)"
      "root_frame u w" "vec_sim base (m(created \<mapsto> ?p)) v ps w" "refused new_buffer env (Suc (length ps)) e"
    from created_leaves [OF w(3) joined(2) mpw [OF w(2)], of env] show ?thesis
      using u(1) w(1,4) root_frame_trans [OF root_frame_trans [OF u(2) w(2)]] by (auto simp: insert)
  qed
qed

section \<open>Programs on a vector\<close>

text \<open>
  The operations on one vector and their specification on lists; None where the C++ program would
  be undefined.
\<close>

datatype vec_op =
    Push_Back gc_ptr
  | Pop_Back
  | Erase nat
  | Erase_Range nat nat
  | Clear
  | Reserve nat
  | Resize nat
  | Shrink_To_Fit

fun list_op :: "vec_op \<Rightarrow> addr list \<Rightarrow> addr list option" where
  "list_op (Push_Back p) ps = Some (ps @ [raw_ptr p])"
| "list_op Pop_Back ps = (if ps = [] then None else Some (butlast ps))"
| "list_op (Erase i) ps = (if i < length ps then Some (take i ps @ drop (Suc i) ps) else None)"
| "list_op (Erase_Range i j) ps = (if i \<le> j \<and> j \<le> length ps then Some (take i ps @ drop j ps) else None)"
| "list_op Clear ps = Some []"
| "list_op (Reserve k) ps = Some ps"
| "list_op (Resize k) ps = Some (resized k ps)"
| "list_op Shrink_To_Fit ps = Some ps"

fun vec_exec :: "new_buffer \<Rightarrow> gc_env \<Rightarrow> tid \<Rightarrow> vec_op \<Rightarrow> gc_vector \<Rightarrow> gc_vector gc" where
  "vec_exec nb env c (Push_Back p) v = gc_vector_push_back nb env c p v"
| "vec_exec nb env c Pop_Back v = gc_vector_pop_back env c v"
| "vec_exec nb env c (Erase i) v = gc_vector_erase env c i v"
| "vec_exec nb env c (Erase_Range i j) v = gc_vector_erase_range env c i j v"
| "vec_exec nb env c Clear v = gc_vector_clear env c v"
| "vec_exec nb env c (Reserve k) v = gc_vector_reserve nb env c k v"
| "vec_exec nb env c (Resize k) v = gc_vector_resize nb env c k v"
| "vec_exec nb env c Shrink_To_Fit v = gc_vector_shrink_to_fit nb env c v"

text \<open>The number of elements an operation needs room for.\<close>

fun wanted :: "vec_op \<Rightarrow> addr list \<Rightarrow> nat" where
  "wanted (Push_Back p) ps = Suc (length ps)"
| "wanted (Reserve k) ps = k"
| "wanted (Resize k) ps = k"
| "wanted x ps = 0"

lemma vec_exec_outcome:
  assumes sim: "vec_sim base m v ps s" and mp: "may_proceed c s" and apart: "buffers_apart new_buffer"
    and op: "list_op x ps = Some qs"
  shows "vec_outcome base m (refused new_buffer env (wanted x ps)) v ps qs s (run (vec_exec new_buffer env c x v s))"
proof (cases x)
  case (Push_Back p)
  then show ?thesis using push_back_outcome [OF sim mp apart, of env p] op by simp
next
  case Pop_Back
  then show ?thesis using pop_back_sim [OF sim mp, of env] op by (auto simp: vec_outcome_def split: if_splits)
next
  case (Erase i)
  then have "i < vec_size v" "i \<le> Suc i" "Suc i \<le> length ps" using op vec_simD(1) [OF sim] by (auto split: if_splits)
  then show ?thesis using erase_range_sim [OF sim mp, of i "Suc i" env] erase_is_erase_range [of i v env c s] op Erase
    by (auto simp: vec_outcome_def)
next
  case (Erase_Range i j)
  then show ?thesis using erase_range_sim [OF sim mp, of i j env] op by (auto simp: vec_outcome_def split: if_splits)
next
  case Clear
  then show ?thesis using clear_sim(1) [OF sim mp, of env] op by (auto simp: vec_outcome_def)
next
  case (Reserve k)
  then show ?thesis using reserve_outcome [OF sim mp apart, of env k] op by simp
next
  case (Resize k)
  then show ?thesis using resize_outcome [OF sim mp apart, of env k] op by simp
next
  case Shrink_To_Fit
  then show ?thesis using shrink_outcome [OF sim mp apart, of env] op by (auto simp: vec_outcome_def)
qed

primrec vec_execs :: "new_buffer \<Rightarrow> gc_env \<Rightarrow> tid \<Rightarrow> vec_op list \<Rightarrow> gc_vector \<Rightarrow> gc_vector gc" where
  "vec_execs nb env c [] v = (\<lambda>s. (Return v, s))"
| "vec_execs nb env c (x # xs) v = (\<lambda>s. bindp (vec_exec nb env c x v s) (vec_execs nb env c xs))"

primrec list_ops :: "vec_op list \<Rightarrow> addr list \<Rightarrow> addr list option" where
  "list_ops [] ps = Some ps"
| "list_ops (x # xs) ps = Option.bind (list_op x ps) (list_ops xs)"

lemma vec_execs_refine:
  assumes "vec_sim base m v ps s" "may_proceed c s" "buffers_apart new_buffer" "list_ops xs ps = Some qs"
  shows "(\<exists>v' t. run (vec_execs new_buffer env c xs v s) = (Done v', t) \<and> root_frame s t \<and> vec_sim base m v' qs t) \<or>
    (\<exists>k v' ps' e t. k < length xs \<and> list_ops (take k xs) ps = Some ps' \<and>
      run (vec_execs new_buffer env c xs v s) = (Threw e, t) \<and> root_frame s t \<and> vec_sim base m v' ps' t \<and>
      refused new_buffer env (wanted (xs ! k) ps') e)"
  using assms
proof (induction xs arbitrary: v ps s)
  case Nil
  then show ?case by (intro disjI1) (simp add: run_leaf)
next
  case (Cons x xs)
  then obtain rs where op: "list_op x ps = Some rs" "list_ops xs rs = Some qs" by (auto simp: bind_eq_Some_conv)
  from vec_exec_outcome [OF Cons.prems(1-3) op(1), of env] show ?case
    unfolding vec_outcome_def
  proof (elim disjE exE conjE)
    fix v' t assume t: "run (vec_exec new_buffer env c x v s) = (Done v', t)" "root_frame s t" "vec_sim base m v' rs t"
    have "may_proceed c t" using root_frame_keeps(1) [OF t(2)] Cons.prems(2) by simp
    from Cons.IH [OF t(3) this Cons.prems(3) op(2)] show ?thesis
    proof (elim disjE exE conjE)
      fix w u assume "run (vec_execs new_buffer env c xs v' t) = (Done w, u)" "root_frame t u" "vec_sim base m w qs u"
      then show ?thesis using t(1) root_frame_trans [OF t(2)] by (intro disjI1) (auto simp: run_bindp)
    next
      fix k w ps' e u assume "k < length xs" "list_ops (take k xs) rs = Some ps'"
        "run (vec_execs new_buffer env c xs v' t) = (Threw e, u)" "root_frame t u" "vec_sim base m w ps' u"
        "refused new_buffer env (wanted (xs ! k) ps') e"
      then show ?thesis using t(1) root_frame_trans [OF t(2)] op(1)
        by (intro disjI2 exI [of _ "Suc k"] exI [of _ w] exI [of _ ps'] exI [of _ e] exI [of _ u])
          (simp add: run_bindp)
    qed
  next
    fix e t assume "run (vec_exec new_buffer env c x v s) = (Threw e, t)" "root_frame s t" "vec_sim base m v ps t"
      "refused new_buffer env (wanted x ps) e"
    then show ?thesis
      by (intro disjI2 exI [of _ 0] exI [of _ v] exI [of _ ps] exI [of _ e] exI [of _ t]) (simp add: run_bindp)
  qed
qed

end
