(* ===== verification/Weak_Handles.thy ===== *)
theory Weak_Handles
  imports Sweep Gc_Ptr
begin

text \<open>
  The weak handle \<open>gc_weak_ptr\<close> of \<open>include/gc/gc_weak_ptr.hpp\<close> for objects. A handle is the word \<open>encoded_ptr_\<close> at its address
  \<open>this\<close>. Its operations refine an abstract table that maps live handles to their targets.
\<close>

section \<open>The encoding\<close>

definition encode_weak_ptr :: "addr \<Rightarrow> u64" where
  "encode_weak_ptr ptr = (if ptr = 0 then 0 else 0 - ptr)"

definition decode_weak_ptr :: "u64 \<Rightarrow> addr" where
  "decode_weak_ptr encoded = (if encoded = 0 then 0 else 0 - encoded)"

lemma encode_weak_ptr_zero [simp]: "encode_weak_ptr p = 0 \<longleftrightarrow> p = 0"
  by (simp add: encode_weak_ptr_def)

lemma decode_encode [simp]: "decode_weak_ptr (encode_weak_ptr p) = p"
  by (simp add: encode_weak_ptr_def decode_weak_ptr_def)

lemma encode_decode [simp]: "encode_weak_ptr (decode_weak_ptr e) = e"
  by (simp add: encode_weak_ptr_def decode_weak_ptr_def)

lemma encoded_in_upper_half:
  assumes "p \<noteq> 0" "unat p \<le> 2 ^ 63"
  shows "2 ^ 63 \<le> unat (encode_weak_ptr p)"
  using assms unat_sub_if' [of 0 p] by (simp add: encode_weak_ptr_def word_le_nat_alt unat_eq_zero split: if_splits)

section \<open>The operations\<close>

definition weak_ptr_default :: "addr \<Rightarrow> unit gc" where
  "weak_ptr_default this s = (Return (), put_word this 0 s)"

definition weak_ptr_from_ptr :: "gc_env \<Rightarrow> tid \<Rightarrow> addr \<Rightarrow> gc_ptr \<Rightarrow> unit gc" where
  "weak_ptr_from_ptr env current this p s =
     (let s = put_word this (encode_weak_ptr (gc_ptr_get p)) s in
      if get_word this s \<noteq> 0 then register_weak_ref env current (gc_ptr_get p) this s
      else (Return (), s))"

definition weak_ptr_destroy :: "gc_env \<Rightarrow> tid \<Rightarrow> addr \<Rightarrow> unit gc" where
  "weak_ptr_destroy env current this s =
     (if get_word this s \<noteq> 0 then noexceptp (unregister_weak_ref env current this s)
      else (Return (), s))"

text \<open>The default initializer of \<open>encoded_ptr_\<close> runs before the body.\<close>

definition weak_ptr_copy :: "gc_env \<Rightarrow> tid \<Rightarrow> addr \<Rightarrow> addr \<Rightarrow> unit gc" where
  "weak_ptr_copy env current this other s = copy_weak_ref env current other this (put_word this 0 s)"

definition weak_ptr_move :: "gc_env \<Rightarrow> tid \<Rightarrow> addr \<Rightarrow> addr \<Rightarrow> unit gc" where
  "weak_ptr_move env current this other s =
     (let s = put_word this (get_word other s) s in
      if get_word this s \<noteq> 0
      then bindp (noexceptp (update_weak_ref env current other this s)) (\<lambda>_ s. (Return (), put_word other 0 s))
      else (Return (), s))"

definition weak_ptr_reset :: "gc_env \<Rightarrow> tid \<Rightarrow> addr \<Rightarrow> unit gc" where
  "weak_ptr_reset env current this s =
     (if get_word this s \<noteq> 0
      then bindp (noexceptp (unregister_weak_ref env current this s)) (\<lambda>_ s. (Return (), put_word this 0 s))
      else (Return (), s))"

definition weak_ptr_move_assign :: "gc_env \<Rightarrow> tid \<Rightarrow> addr \<Rightarrow> addr \<Rightarrow> unit gc" where
  "weak_ptr_move_assign env current this other s =
     (if this = other then (Return (), s)
      else bindp (weak_ptr_reset env current this s) (\<lambda>_ s.
        let s = put_word this (get_word other s) s in
        if get_word this s \<noteq> 0
        then bindp (noexceptp (update_weak_ref env current other this s)) (\<lambda>_ s. (Return (), put_word other 0 s))
        else (Return (), s)))"

text \<open>\<open>replacement\<close> is the address of the local handle, which is destroyed at the end.\<close>

definition weak_ptr_copy_assign :: "gc_env \<Rightarrow> tid \<Rightarrow> addr \<Rightarrow> addr \<Rightarrow> addr \<Rightarrow> unit gc" where
  "weak_ptr_copy_assign env current replacement this other s =
     (if this = other then (Return (), s)
      else bindp (weak_ptr_copy env current replacement other s) (\<lambda>_ s.
        bindp (weak_ptr_move_assign env current this replacement s) (\<lambda>_ s.
          weak_ptr_destroy env current replacement s)))"

definition weak_ptr_assign_ptr :: "gc_env \<Rightarrow> tid \<Rightarrow> addr \<Rightarrow> addr \<Rightarrow> gc_ptr \<Rightarrow> unit gc" where
  "weak_ptr_assign_ptr env current replacement this p s =
     bindp (weak_ptr_from_ptr env current replacement p s) (\<lambda>_ s.
     bindp (weak_ptr_move_assign env current this replacement s) (\<lambda>_ s.
       weak_ptr_destroy env current replacement s))"

definition weak_ptr_lock :: "gc_env \<Rightarrow> tid \<Rightarrow> addr \<Rightarrow> gc_ptr gc" where
  "weak_ptr_lock env current this s =
     bindp (noexceptp (read_weak_ref env current this s)) (\<lambda>target s.
       (Return (if target = 0 then null_ptr else Gc_Ptr target), s))"

definition weak_ptr_expired :: "gc_env \<Rightarrow> tid \<Rightarrow> addr \<Rightarrow> bool gc" where
  "weak_ptr_expired env current this s =
     bindp (noexceptp (read_weak_ref env current this s)) (\<lambda>target s. (Return (target = 0), s))"

section \<open>The abstract table\<close>

text \<open>
  The specification of a program that uses weak handles: the set of live handles and the target
  of each one that has not expired. The operations of the program are the values of \<open>weak_op\<close>;
  \<open>spec_op\<close> gives their effect, and None where the C++ program would construct over a live handle
  or use a dead one.
\<close>

datatype weak_op =
    New_Null addr
  | New_From addr gc_ptr
  | New_Copy addr addr
  | New_Move addr addr
  | Destroy addr
  | Reset addr
  | Copy_Assign addr addr addr
  | Move_Assign addr addr
  | Assign_Ptr addr addr gc_ptr

type_synonym weak_spec = "addr set \<times> (addr \<rightharpoonup> addr)"

definition fresh_handle :: "addr set \<Rightarrow> addr \<Rightarrow> bool" where
  "fresh_handle H this \<longleftrightarrow> this \<noteq> 0 \<and> (\<forall>h\<in>H. word_apart h this)"

definition spec_target :: "(addr \<Rightarrow> bool) \<Rightarrow> gc_ptr \<Rightarrow> addr option" where
  "spec_target managed p = (if raw_ptr p \<noteq> 0 \<and> managed (raw_ptr p) then Some (raw_ptr p) else None)"

fun spec_op :: "(addr \<Rightarrow> bool) \<Rightarrow> weak_op \<Rightarrow> weak_spec \<Rightarrow> weak_spec option" where
  "spec_op managed (New_Null this) (H, m) =
     (if fresh_handle H this then Some (insert this H, m) else None)"
| "spec_op managed (New_From this p) (H, m) =
     (if fresh_handle H this then Some (insert this H, m(this := spec_target managed p)) else None)"
| "spec_op managed (New_Copy this other) (H, m) =
     (if fresh_handle H this \<and> other \<in> H then Some (insert this H, m(this := m other)) else None)"
| "spec_op managed (New_Move this other) (H, m) =
     (if fresh_handle H this \<and> other \<in> H
      then Some (insert this H, m(this := m other, other := None)) else None)"
| "spec_op managed (Destroy this) (H, m) =
     (if this \<in> H then Some (H - {this}, m(this := None)) else None)"
| "spec_op managed (Reset this) (H, m) =
     (if this \<in> H then Some (H, m(this := None)) else None)"
| "spec_op managed (Copy_Assign replacement this other) (H, m) =
     (if this \<in> H \<and> other \<in> H \<and> fresh_handle H replacement then Some (H, m(this := m other)) else None)"
| "spec_op managed (Move_Assign this other) (H, m) =
     (if this \<in> H \<and> other \<in> H
      then Some (H, if this = other then m else m(this := m other, other := None)) else None)"
| "spec_op managed (Assign_Ptr replacement this p) (H, m) =
     (if this \<in> H \<and> fresh_handle H replacement then Some (H, m(this := spec_target managed p)) else None)"

fun weak_exec :: "gc_env \<Rightarrow> tid \<Rightarrow> weak_op \<Rightarrow> unit gc" where
  "weak_exec env c (New_Null this) = weak_ptr_default this"
| "weak_exec env c (New_From this p) = weak_ptr_from_ptr env c this p"
| "weak_exec env c (New_Copy this other) = weak_ptr_copy env c this other"
| "weak_exec env c (New_Move this other) = weak_ptr_move env c this other"
| "weak_exec env c (Destroy this) = weak_ptr_destroy env c this"
| "weak_exec env c (Reset this) = weak_ptr_reset env c this"
| "weak_exec env c (Copy_Assign replacement this other) = weak_ptr_copy_assign env c replacement this other"
| "weak_exec env c (Move_Assign this other) = weak_ptr_move_assign env c this other"
| "weak_exec env c (Assign_Ptr replacement this p) = weak_ptr_assign_ptr env c replacement this p"

primrec weak_execs :: "gc_env \<Rightarrow> tid \<Rightarrow> weak_op list \<Rightarrow> unit gc" where
  "weak_execs env c [] = (\<lambda>s. (Return (), s))"
| "weak_execs env c (x # xs) = (\<lambda>s. bindp (weak_exec env c x s) (\<lambda>_. weak_execs env c xs))"

primrec spec_ops :: "(addr \<Rightarrow> bool) \<Rightarrow> weak_op list \<Rightarrow> weak_spec \<Rightarrow> weak_spec option" where
  "spec_ops managed [] a = Some a"
| "spec_ops managed (x # xs) a = Option.bind (spec_op managed x a) (spec_ops managed xs)"

section \<open>The simulation\<close>

definition managed_addr :: "gc_state \<Rightarrow> addr \<Rightarrow> bool" where
  "managed_addr s p \<longleftrightarrow> find_block_locked p s \<noteq> None"

text \<open>
  \<open>handles_sim (H, m) s\<close>: the handles in \<open>H\<close> do not overlap, \<open>m\<close> is the table of the manager, and
  the word of every handle encodes its target, or is null.
\<close>

definition handles_apart :: "addr set \<Rightarrow> bool" where
  "handles_apart H \<longleftrightarrow> 0 \<notin> H \<and> (\<forall>a\<in>H. \<forall>b\<in>H. a \<noteq> b \<longrightarrow> word_apart a b)"

definition handles_sim :: "weak_spec \<Rightarrow> gc_state \<Rightarrow> bool" where
  "handles_sim a s \<longleftrightarrow> handles_apart (fst a) \<and> weak_inv (gc_weak_refs s) \<and>
     (\<forall>st. weak_lookup st (gc_weak_refs s) = snd a st) \<and> dom (snd a) \<subseteq> fst a \<and> 0 \<notin> ran (snd a) \<and>
     (\<forall>h\<in>fst a. get_word h s = (case snd a h of None \<Rightarrow> 0 | Some tg \<Rightarrow> encode_weak_ptr tg))"

definition handle_frame :: "gc_state \<Rightarrow> gc_state \<Rightarrow> bool" where
  "handle_frame s t \<longleftrightarrow> (\<exists>m w. t = s\<lparr>gc_mem := m, gc_weak_refs := w\<rparr>)"

lemma put_word_sel [simp]:
  "gc_weak_refs (put_word a v s) = gc_weak_refs s" "may_proceed c (put_word a v s) = may_proceed c s"
  "find_block_locked x (put_word a v s) = find_block_locked x s"
  by (simp_all add: put_word_def may_proceed_def find_block_locked_def)

lemma handle_frame_trans: "handle_frame s t \<Longrightarrow> handle_frame t u \<Longrightarrow> handle_frame s u"
  by (force simp: handle_frame_def)

lemma handle_frame_refl [simp]: "handle_frame s s"
  unfolding handle_frame_def by (rule exI [of _ "gc_mem s"], rule exI [of _ "gc_weak_refs s"]) simp

lemma handle_frame_refs [simp]: "handle_frame s t \<Longrightarrow> handle_frame s (t\<lparr>gc_weak_refs := w\<rparr>)"
  by (force simp: handle_frame_def)

lemma handle_frame_put [simp]: "handle_frame s t \<Longrightarrow> handle_frame s (put_word a v t)"
proof -
  assume "handle_frame s t"
  then obtain m w where "t = s\<lparr>gc_mem := m, gc_weak_refs := w\<rparr>" by (auto simp: handle_frame_def)
  then have "put_word a v t = s\<lparr>gc_mem := store_word m a v, gc_weak_refs := w\<rparr>" by (simp add: put_word_def)
  then show ?thesis unfolding handle_frame_def by blast
qed

lemma handle_frame_keeps:
  "handle_frame s t \<Longrightarrow> may_proceed c t = may_proceed c s \<and> managed_addr t = managed_addr s"
  by (auto simp: handle_frame_def may_proceed_def managed_addr_def find_block_locked_def fun_eq_iff)

lemma handles_simD:
  assumes "handles_sim (H, m) s"
  shows "handles_apart H" "weak_inv (gc_weak_refs s)" "weak_lookup st (gc_weak_refs s) = m st"
    "dom m \<subseteq> H" "0 \<notin> ran m"
    "h \<in> H \<Longrightarrow> get_word h s = (case m h of None \<Rightarrow> 0 | Some tg \<Rightarrow> encode_weak_ptr tg)"
  using assms by (simp_all add: handles_sim_def)

lemma handle_word_zero:
  "handles_sim (H, m) s \<Longrightarrow> h \<in> H \<Longrightarrow> get_word h s = 0 \<longleftrightarrow> m h = None"
  using handles_simD(5,6) [of H m s] by (force simp: ran_def split: option.splits)

lemma fresh_not_live: "handles_sim (H, m) s \<Longrightarrow> fresh_handle H this \<Longrightarrow> this \<notin> H \<and> m this = None"
  using handles_simD(4) [of H m s] by (force simp: fresh_handle_def word_apart_def)

lemma apart_insert: "handles_apart H \<Longrightarrow> fresh_handle H this \<Longrightarrow> handles_apart (insert this H)"
  by (auto simp: handles_apart_def fresh_handle_def word_apart_sym)

lemma fresh_again: "handles_apart H \<Longrightarrow> this \<in> H \<Longrightarrow> fresh_handle (H - {this}) this"
  by (auto simp: handles_apart_def fresh_handle_def)

lemma sim_forget: "handles_sim (H, m) s \<Longrightarrow> m this = None \<Longrightarrow> handles_sim (H - {this}, m) s"
  by (auto simp: handles_sim_def handles_apart_def)

text \<open>A write to a handle that is not yet, or no longer, in use.\<close>

lemma sim_put_fresh: "handles_sim (H, m) s \<Longrightarrow> fresh_handle H this \<Longrightarrow> handles_sim (H, m) (put_word this v s)"
  by (auto simp: handles_sim_def fresh_handle_def get_put_word word_apart_def)

text \<open>The handle at \<open>this\<close> comes into use, with the target \<open>tg\<close> or without one.\<close>

lemma sim_insert:
  assumes sim: "handles_sim (H, m) s" and fresh: "fresh_handle H this"
    and word: "get_word this t = (case tg of None \<Rightarrow> 0 | Some a \<Rightarrow> encode_weak_ptr a)" "tg \<noteq> Some 0"
    and mem: "\<And>h. h \<in> H \<Longrightarrow> get_word h t = get_word h s"
    and refs: "gc_weak_refs t = (case tg of None \<Rightarrow> gc_weak_refs s | Some a \<Rightarrow> weak_add a this (gc_weak_refs s))"
  shows "handles_sim (insert this H, m(this := tg)) t"
proof -
  note d = handles_simD [OF sim] and n = fresh_not_live [OF sim fresh]
  have lk: "weak_lookup this (gc_weak_refs s) = None" using d(3) n by simp
  have "weak_inv (gc_weak_refs t)" "weak_lookup st (gc_weak_refs t) = (m(this := tg)) st" for st
    using refs wtab.invar_add [OF d(2) lk] wtab.lookup_add [OF d(2) lk] d(2,3) n
    by (auto split: option.splits)
  then show ?thesis
    using apart_insert [OF d(1) fresh] d(4-6) word mem n
    by (auto simp: handles_sim_def ran_def split: if_splits)
qed

lemma new_null_sim:
  assumes "handles_sim (H, m) s" "fresh_handle H this"
  shows "handles_sim (insert this H, m) (put_word this 0 s)"
proof -
  have "m(this := None) = m" using fresh_not_live [OF assms] by (simp add: fun_upd_idem)
  then show ?thesis
    using sim_insert [OF assms, where t = "put_word this 0 s" and tg = None] assms(2) fresh_not_live [OF assms]
    by (force simp: get_put_word fresh_handle_def)
qed

lemma new_from_sim:
  assumes sim: "handles_sim (H, m) s" and fresh: "fresh_handle H this"
    and run: "may_proceed c s" "\<not> out_of_memory env"
  shows "\<exists>t. run (weak_ptr_from_ptr env c this p s) = (Done (), t) \<and> handle_frame s t \<and>
    handles_sim (insert this H, m(this := spec_target (managed_addr s) p)) t"
proof -
  let ?s = "put_word this (encode_weak_ptr (raw_ptr p)) s"
  let ?tg = "spec_target (managed_addr s) p"
  let ?t = "case ?tg of Some a \<Rightarrow> ?s\<lparr>gc_weak_refs := weak_add a this (gc_weak_refs s)\<rparr> | None \<Rightarrow> put_word this 0 ?s"
  have at: "this \<noteq> 0" "\<And>h. h \<in> H \<Longrightarrow> word_apart h this" "\<And>h. h \<in> H \<Longrightarrow> h \<noteq> this"
    using fresh fresh_not_live [OF sim fresh] by (auto simp: fresh_handle_def)
  have "run (weak_ptr_from_ptr env c this p s) = (Done (), if raw_ptr p = 0 then ?s else ?t)"
    using run at(1)
    by (auto simp: weak_ptr_from_ptr_def gc_ptr_get_def Let_def get_put_word register_weak_ref_def prog_simps
        spec_target_def managed_addr_def out_of_memory_def put_word_def [of _ 0])
  moreover have "handles_sim (insert this H, m(this := ?tg)) (if raw_ptr p = 0 then ?s else ?t)"
    using at by (intro sim_insert [OF sim fresh]) (auto simp: spec_target_def get_put_word encode_weak_ptr_def)
  moreover have "handle_frame s (if raw_ptr p = 0 then ?s else ?t)"
    by (auto simp: spec_target_def)
  ultimately show ?thesis by blast
qed

lemma new_copy_sim:
  assumes sim: "handles_sim (H, m) s" and fresh: "fresh_handle H this" and other: "other \<in> H"
    and run: "may_proceed c s" "\<not> out_of_memory env"
  shows "\<exists>t. run (weak_ptr_copy env c this other s) = (Done (), t) \<and> handle_frame s t \<and>
    handles_sim (insert this H, m(this := m other)) t"
proof -
  let ?s = "put_word this 0 s"
  let ?t = "case m other of None \<Rightarrow> put_word this 0 ?s
    | Some a \<Rightarrow> put_word this (get_word other s) (?s\<lparr>gc_weak_refs := weak_add a this (gc_weak_refs s)\<rparr>)"
  have at: "this \<noteq> 0" "\<And>h. h \<in> H \<Longrightarrow> word_apart h this" "\<And>h. h \<in> H \<Longrightarrow> h \<noteq> this"
    using fresh fresh_not_live [OF sim fresh] by (auto simp: fresh_handle_def)
  have w: "get_word other ?s = get_word other s" using at other by (simp add: get_put_word)
  have "run (weak_ptr_copy env c this other s) = (Done (), ?t)"
    using run w [unfolded get_word_def] handles_simD(3) [OF sim, of other]
    by (auto simp: weak_ptr_copy_def copy_weak_ref_def prog_simps Let_def out_of_memory_def get_word_def
        put_word_def split: option.splits)
  moreover have "handles_sim (insert this H, m(this := m other)) ?t"
    using at handles_simD(5) [OF sim] handles_simD(6) [OF sim other]
    by (intro sim_insert [OF sim fresh]) (auto simp: get_put_word ran_def split: option.splits)
  moreover have "handle_frame s ?t" by (auto split: option.splits)
  ultimately show ?thesis by blast
qed

lemma reset_sim:
  assumes sim: "handles_sim (H, m) s" and live: "this \<in> H" and run: "may_proceed c s"
  shows "\<exists>t. run (weak_ptr_reset env c this s) = (Done (), t) \<and> handle_frame s t \<and>
    handles_sim (H, m(this := None)) t"
proof (cases "get_word this s = 0")
  case True
  then have "m(this := None) = m" using handle_word_zero [OF sim live] by (simp add: fun_upd_idem)
  with True sim show ?thesis
    by (intro exI [of _ s]) (simp add: weak_ptr_reset_def prog_simps)
next
  case False
  let ?t = "put_word this 0 (s\<lparr>gc_weak_refs := weak_remove this (gc_weak_refs s)\<rparr>)"
  note d = handles_simD [OF sim]
  have "run (weak_ptr_reset env c this s) = (Done (), ?t)"
    using run False by (simp add: weak_ptr_reset_def noexceptp_def unregister_weak_ref_def prog_simps)
  moreover have "get_word h ?t = (if h = this then 0 else get_word h s)" if "h \<in> H" for h
    using that live d(1) by (subst get_put_word) (auto simp: handles_apart_def get_word_def)
  then have "handles_sim (H, m(this := None)) ?t"
    using d wtab.lookup_remove [OF d(2), of _ this] wtab.invar_remove [OF d(2), of this]
    by (auto simp: handles_sim_def ran_def)
  moreover have "handle_frame s ?t" by simp
  ultimately show ?thesis by blast
qed

lemma destroy_sim:
  assumes sim: "handles_sim (H, m) s" and live: "this \<in> H" and run: "may_proceed c s"
  shows "\<exists>t. run (weak_ptr_destroy env c this s) = (Done (), t) \<and> handle_frame s t \<and>
    handles_sim (H - {this}, m(this := None)) t"
proof (cases "get_word this s = 0")
  case True
  then have "m this = None" using handle_word_zero [OF sim live] by simp
  then have "handles_sim (H - {this}, m(this := None)) s" using sim_forget [OF sim] by (simp add: fun_upd_idem)
  with True show ?thesis by (intro exI [of _ s]) (simp add: weak_ptr_destroy_def prog_simps)
next
  case False
  let ?t = "s\<lparr>gc_weak_refs := weak_remove this (gc_weak_refs s)\<rparr>"
  note d = handles_simD [OF sim]
  have "run (weak_ptr_destroy env c this s) = (Done (), ?t)"
    using run False by (simp add: weak_ptr_destroy_def noexceptp_def unregister_weak_ref_def prog_simps)
  moreover have "handles_sim (H - {this}, m(this := None)) ?t"
    using d wtab.lookup_remove [OF d(2), of _ this] wtab.invar_remove [OF d(2), of this]
    by (auto simp: handles_sim_def ran_def handles_apart_def get_word_def)
  moreover have "handle_frame s ?t" by simp
  ultimately show ?thesis by blast
qed

text \<open>The same code carries the word and the entry over in move construction and move assignment.\<close>

lemma new_move_sim:
  assumes sim: "handles_sim (H, m) s" and fresh: "fresh_handle H this" and other: "other \<in> H"
    and run: "may_proceed c s"
  shows "\<exists>t. run (weak_ptr_move env c this other s) = (Done (), t) \<and> handle_frame s t \<and>
    handles_sim (insert this H, m(this := m other, other := None)) t"
proof -
  note d = handles_simD [OF sim]
  have at: "this \<noteq> 0" "\<And>h. h \<in> H \<Longrightarrow> word_apart h this" "\<And>h. h \<in> H \<Longrightarrow> h \<noteq> this" "m this = None"
    using fresh fresh_not_live [OF sim fresh] by (auto simp: fresh_handle_def)
  let ?s = "put_word this (get_word other s) s"
  have w: "get_word this ?s = get_word other s" "get_word other ?s = get_word other s"
    using at other by (simp_all add: get_put_word)
  show ?thesis
  proof (cases "m other")
    case None
    then have z: "get_word other s = 0" using handle_word_zero [OF sim other] by simp
    then have "m(this := m other, other := None) = m" using None at(4) by (simp add: fun_upd_idem)
    then show ?thesis
      using new_null_sim [OF sim fresh] w z
      by (intro exI [of _ ?s]) (simp add: weak_ptr_move_def prog_simps Let_def)
  next
    case (Some tg)
    then have nz: "get_word other s \<noteq> 0" using handle_word_zero [OF sim other] by simp
    let ?t = "put_word other 0 (put_word other 0 (put_word this (get_word other s) (?s\<lparr>gc_weak_refs := weak_move other this (gc_weak_refs s)\<rparr>)))"
    have lk: "weak_lookup other (gc_weak_refs s) = Some tg" "weak_lookup this (gc_weak_refs s) = None"
      using d(3) Some at(4) by simp_all
    have "run (weak_ptr_move env c this other s) = (Done (), ?t)"
      using run w nz lk(1)
      by (simp add: weak_ptr_move_def noexceptp_def update_weak_ref_def prog_simps Let_def weak_index_None
          put_word_def get_word_def)
    moreover have "get_word h ?t = (if h = other then 0 else if h = this then get_word other s else get_word h s)"
      if "h \<in> insert this H" for h
    proof -
      have "h = other \<or> word_apart h other" "h = this \<or> word_apart h this"
        using that at(2) other d(1) by (auto simp: handles_apart_def word_apart_sym)
      then show ?thesis by (auto simp: get_put_word)
    qed
    then have "handles_sim (insert this H, m(this := m other, other := None)) ?t"
      using d wtab.lookup_move [OF d(2) lk] wtab.invar_move [OF d(2) lk(2), of other] apart_insert [OF d(1) fresh]
        Some other at(3) [OF other]
      by (auto simp: handles_sim_def ran_def)
    moreover have "handle_frame s ?t" by simp
    ultimately show ?thesis by blast
  qed
qed

lemma move_assign_alt:
  "weak_ptr_move_assign env c this other s = (if this = other then (Return (), s)
    else bindp (weak_ptr_reset env c this s) (\<lambda>_. weak_ptr_move env c this other))"
  by (simp add: weak_ptr_move_assign_def weak_ptr_move_def [abs_def] Let_def)

lemma move_assign_sim:
  assumes sim: "handles_sim (H, m) s" and live: "this \<in> H" "other \<in> H" "this \<noteq> other"
    and run: "may_proceed c s"
  shows "\<exists>t. run (weak_ptr_move_assign env c this other s) = (Done (), t) \<and> handle_frame s t \<and>
    handles_sim (H, m(this := m other, other := None)) t"
proof -
  from reset_sim [OF sim live(1) run] obtain u where u: "run (weak_ptr_reset env c this s) = (Done (), u)"
    "handle_frame s u" "handles_sim (H, m(this := None)) u" by blast
  have mp: "may_proceed c u" using handle_frame_keeps [OF u(2)] run by simp
  have "handles_sim (H - {this}, m(this := None)) u" by (rule sim_forget [OF u(3)]) simp
  from new_move_sim [OF this fresh_again [OF handles_simD(1) [OF sim] live(1)] _ mp, of other] live
  obtain t where t: "run (weak_ptr_move env c this other u) = (Done (), t)" "handle_frame u t"
    "handles_sim (insert this (H - {this}), m(this := m other, other := None)) t" by auto
  show ?thesis
    using u(1) t live handle_frame_trans [OF u(2) t(2)]
    by (intro exI [of _ t]) (simp add: move_assign_alt prog_simps insert_absorb)
qed

text \<open>A local handle replaces the target of \<open>this\<close> and goes.\<close>

lemma replace_sim:
  assumes sim: "handles_sim (insert tmp H, m(tmp := tg)) s" and live: "this \<in> H" "tmp \<notin> H" "m tmp = None"
    and run: "may_proceed c s"
  shows "\<exists>t. run (bindp (weak_ptr_move_assign env c this tmp s) (\<lambda>_ s. weak_ptr_destroy env c tmp s)) = (Done (), t) \<and>
    handle_frame s t \<and> handles_sim (H, m(this := tg)) t"
proof -
  from live have ne: "this \<noteq> tmp" by auto
  from move_assign_sim [OF sim _ _ ne run] live
  obtain u where u: "run (weak_ptr_move_assign env c this tmp s) = (Done (), u)" "handle_frame s u"
    "handles_sim (insert tmp H, m(tmp := tg, this := tg, tmp := None)) u" by fastforce
  have mp: "may_proceed c u" using handle_frame_keeps [OF u(2)] run by simp
  from destroy_sim [OF u(3) insertI1 mp] obtain t where t: "run (weak_ptr_destroy env c tmp u) = (Done (), t)"
    "handle_frame u t" "handles_sim (insert tmp H - {tmp}, m(tmp := tg, this := tg, tmp := None, tmp := None)) t" by blast
  have "m(tmp := tg, this := tg, tmp := None, tmp := None) = m(this := tg)" "insert tmp H - {tmp} = H"
    using live ne by (auto simp: fun_eq_iff)
  with t u(1) handle_frame_trans [OF u(2) t(2)] show ?thesis by (intro exI [of _ t]) (simp add: prog_simps)
qed

lemma weak_exec_refines:
  assumes sim: "handles_sim a s" and op: "spec_op (managed_addr s) x a = Some a'"
    and run: "may_proceed c s" "\<not> out_of_memory env"
  shows "\<exists>t. run (weak_exec env c x s) = (Done (), t) \<and> handle_frame s t \<and> handles_sim a' t"
proof -
  obtain H m where a: "a = (H, m)" by (cases a)
  note sim = sim [unfolded a] and op = op [unfolded a]
  show ?thesis
  proof (cases x)
    case (New_Null this)
    with op show ?thesis
      using new_null_sim [OF sim, of this]
      by (intro exI [of _ "put_word this 0 s"]) (auto simp: weak_ptr_default_def prog_simps split: if_splits)
  next
    case (New_From this p)
    with op show ?thesis using new_from_sim [OF sim _ run, of this p] by (auto split: if_splits)
  next
    case (New_Copy this other)
    with op show ?thesis using new_copy_sim [OF sim _ _ run, of this other] by (auto split: if_splits)
  next
    case (New_Move this other)
    with op show ?thesis using new_move_sim [OF sim _ _ run(1), of this other] by (auto split: if_splits)
  next
    case (Destroy this)
    with op show ?thesis using destroy_sim [OF sim _ run(1), of this] by (auto split: if_splits)
  next
    case (Reset this)
    with op show ?thesis using reset_sim [OF sim _ run(1), of this] by (auto split: if_splits)
  next
    case (Move_Assign this other)
    with op sim show ?thesis
      using move_assign_sim [OF sim _ _ _ run(1), of this other]
      by (auto simp: weak_ptr_move_assign_def prog_simps split: if_splits)
  next
    case (Copy_Assign tmp this other)
    with op have pre: "this \<in> H" "other \<in> H" "fresh_handle H tmp" "a' = (H, m(this := m other))"
      by (auto split: if_splits)
    show ?thesis
    proof (cases "this = other")
      case True
      then have "m(this := m other) = m" by (simp add: fun_upd_idem)
      with True sim show ?thesis by (simp add: Copy_Assign pre(4) weak_ptr_copy_assign_def prog_simps)
    next
      case False
      from new_copy_sim [OF sim pre(3,2) run] obtain u where u:
        "run (weak_ptr_copy env c tmp other s) = (Done (), u)" "handle_frame s u"
        "handles_sim (insert tmp H, m(tmp := m other)) u" by blast
      have mp: "may_proceed c u" using handle_frame_keeps [OF u(2)] run(1) by simp
      from replace_sim [OF u(3) pre(1) _ _ mp] fresh_not_live [OF sim pre(3)]
      show ?thesis
        using False u(1) handle_frame_trans [OF u(2)]
        by (auto simp: Copy_Assign pre(4) weak_ptr_copy_assign_def run_bindp)
    qed
  next
    case (Assign_Ptr tmp this p)
    with op have pre: "this \<in> H" "fresh_handle H tmp" "a' = (H, m(this := spec_target (managed_addr s) p))"
      by (auto split: if_splits)
    from new_from_sim [OF sim pre(2) run] obtain u where u:
      "run (weak_ptr_from_ptr env c tmp p s) = (Done (), u)" "handle_frame s u"
      "handles_sim (insert tmp H, m(tmp := spec_target (managed_addr s) p)) u" by blast
    have mp: "may_proceed c u" using handle_frame_keeps [OF u(2)] run(1) by simp
    from replace_sim [OF u(3) pre(1) _ _ mp] fresh_not_live [OF sim pre(2)]
    show ?thesis
      using u(1) handle_frame_trans [OF u(2)]
      by (auto simp: Assign_Ptr pre(3) weak_ptr_assign_ptr_def run_bindp)
  qed
qed

lemma weak_execs_refine:
  assumes "handles_sim a s" "spec_ops (managed_addr s) xs a = Some a'" "may_proceed c s" "\<not> out_of_memory env"
  shows "\<exists>t. run (weak_execs env c xs s) = (Done (), t) \<and> handle_frame s t \<and> handles_sim a' t"
  using assms
proof (induction xs arbitrary: a s)
  case (Cons x xs)
  from Cons.prems(2) obtain b where b: "spec_op (managed_addr s) x a = Some b" "spec_ops (managed_addr s) xs b = Some a'"
    by (auto simp: bind_eq_Some_conv)
  from weak_exec_refines [OF Cons.prems(1) b(1) Cons.prems(3,4)] obtain u where u:
    "run (weak_exec env c x s) = (Done (), u)" "handle_frame s u" "handles_sim b u" by blast
  note k = handle_frame_keeps [OF u(2), of c]
  from Cons.IH [OF u(3)] b(2) k Cons.prems(3,4) obtain t where t:
    "run (weak_execs env c xs u) = (Done (), t)" "handle_frame u t" "handles_sim a' t" by auto
  with u handle_frame_trans [OF u(2) t(2)] show ?case by (auto simp: run_bindp)
qed (simp add: prog_simps)

lemma weak_ptr_lock_result:
  assumes "handles_sim (H, m) s" "may_proceed c s"
  shows "run (weak_ptr_lock env c this s) = (Done (case m this of None \<Rightarrow> null_ptr | Some tg \<Rightarrow> Gc_Ptr tg), s)"
    and "run (weak_ptr_expired env c this s) = (Done (m this = None), s)"
  using assms(2) handles_simD(3,5) [OF assms(1)]
  by (auto simp: weak_ptr_lock_def weak_ptr_expired_def noexceptp_def read_weak_ref_def prog_simps ran_def
      null_ptr_def split: option.splits)

end
