(* ===== verification/Array_Handles.thy ===== *)
theory Array_Handles
  imports Weak_Handles Root_Handles
begin

text \<open>
  The handles of arrays: the specialisations \<open>gc_ptr<T[]>\<close>, \<open>gc_weak_ptr<T[]>\<close> and \<open>gc_root<T[]>\<close>. Each
  is a class of its own in the sources, and is translated from its own lines. The bundle
  \<open>array_handles\<close> says that its members do what the members of the object handles do, so that the
  refinements of \<open>Weak_Handles\<close> and \<open>Root_Handles\<close> hold of arrays.
\<close>

section \<open>Strong handles of arrays\<close>

definition array_ptr_default :: gc_ptr where
  "array_ptr_default = Gc_Ptr 0"

definition array_ptr_get :: "gc_ptr \<Rightarrow> addr" where
  "array_ptr_get p = raw_ptr p"

text \<open>From an array of a less qualified element type: the address stays.\<close>

definition array_ptr_convert :: "gc_ptr \<Rightarrow> gc_ptr" where
  "array_ptr_convert other = Gc_Ptr (array_ptr_get other)"

definition array_ptr_assign :: "gc_ptr \<Rightarrow> gc_ptr \<Rightarrow> gc_ptr" where
  "array_ptr_assign other p = Gc_Ptr (array_ptr_get other)"

definition array_ptr_assign_null :: "gc_ptr \<Rightarrow> gc_ptr" where
  "array_ptr_assign_null p = Gc_Ptr 0"

definition array_ptr_bool :: "gc_ptr \<Rightarrow> bool" where
  "array_ptr_bool p \<longleftrightarrow> raw_ptr p \<noteq> 0"

definition array_ptr_reset :: "addr \<Rightarrow> gc_ptr \<Rightarrow> gc_ptr" where
  "array_ptr_reset ptr p = Gc_Ptr ptr"

section \<open>Weak handles of arrays\<close>

definition weak_array_default :: "addr \<Rightarrow> unit gc" where
  "weak_array_default this s = (Return (), put_word this 0 s)"

definition weak_array_from_ptr :: "gc_env \<Rightarrow> tid \<Rightarrow> addr \<Rightarrow> gc_ptr \<Rightarrow> unit gc" where
  "weak_array_from_ptr env current this p s =
     (let s = put_word this (encode_weak_ptr (array_ptr_get p)) s in
      if get_word this s \<noteq> 0 then register_weak_ref env current (array_ptr_get p) this s
      else (Return (), s))"

definition weak_array_destroy :: "gc_env \<Rightarrow> tid \<Rightarrow> addr \<Rightarrow> unit gc" where
  "weak_array_destroy env current this s =
     (if get_word this s \<noteq> 0 then noexceptp (unregister_weak_ref env current this s)
      else (Return (), s))"

definition weak_array_copy :: "gc_env \<Rightarrow> tid \<Rightarrow> addr \<Rightarrow> addr \<Rightarrow> unit gc" where
  "weak_array_copy env current this other s = copy_weak_ref env current other this (put_word this 0 s)"

definition weak_array_move :: "gc_env \<Rightarrow> tid \<Rightarrow> addr \<Rightarrow> addr \<Rightarrow> unit gc" where
  "weak_array_move env current this other s =
     (let s = put_word this (get_word other s) s in
      if get_word this s \<noteq> 0
      then bindp (noexceptp (update_weak_ref env current other this s)) (\<lambda>_ s. (Return (), put_word other 0 s))
      else (Return (), s))"

definition weak_array_reset :: "gc_env \<Rightarrow> tid \<Rightarrow> addr \<Rightarrow> unit gc" where
  "weak_array_reset env current this s =
     (if get_word this s \<noteq> 0
      then bindp (noexceptp (unregister_weak_ref env current this s)) (\<lambda>_ s. (Return (), put_word this 0 s))
      else (Return (), s))"

definition weak_array_move_assign :: "gc_env \<Rightarrow> tid \<Rightarrow> addr \<Rightarrow> addr \<Rightarrow> unit gc" where
  "weak_array_move_assign env current this other s =
     (if this = other then (Return (), s)
      else bindp (weak_array_reset env current this s) (\<lambda>_ s.
        let s = put_word this (get_word other s) s in
        if get_word this s \<noteq> 0
        then bindp (noexceptp (update_weak_ref env current other this s)) (\<lambda>_ s. (Return (), put_word other 0 s))
        else (Return (), s)))"

definition weak_array_copy_assign :: "gc_env \<Rightarrow> tid \<Rightarrow> addr \<Rightarrow> addr \<Rightarrow> addr \<Rightarrow> unit gc" where
  "weak_array_copy_assign env current replacement this other s =
     (if this = other then (Return (), s)
      else bindp (weak_array_copy env current replacement other s) (\<lambda>_ s.
        bindp (weak_array_move_assign env current this replacement s) (\<lambda>_ s.
          weak_array_destroy env current replacement s)))"

definition weak_array_assign_ptr :: "gc_env \<Rightarrow> tid \<Rightarrow> addr \<Rightarrow> addr \<Rightarrow> gc_ptr \<Rightarrow> unit gc" where
  "weak_array_assign_ptr env current replacement this p s =
     bindp (weak_array_from_ptr env current replacement p s) (\<lambda>_ s.
     bindp (weak_array_move_assign env current this replacement s) (\<lambda>_ s.
       weak_array_destroy env current replacement s))"

definition weak_array_lock :: "gc_env \<Rightarrow> tid \<Rightarrow> addr \<Rightarrow> gc_ptr gc" where
  "weak_array_lock env current this s =
     bindp (noexceptp (read_weak_ref env current this s)) (\<lambda>target s.
       (Return (if target = 0 then array_ptr_default else Gc_Ptr target), s))"

definition weak_array_expired :: "gc_env \<Rightarrow> tid \<Rightarrow> addr \<Rightarrow> bool gc" where
  "weak_array_expired env current this s =
     bindp (noexceptp (read_weak_ref env current this s)) (\<lambda>target s. (Return (target = 0), s))"

section \<open>Roots of arrays\<close>

definition array_register_self :: "gc_env \<Rightarrow> tid \<Rightarrow> addr \<Rightarrow> unit gc" where
  "array_register_self env current this s = register_root_object env current word_size this s"

definition array_unregister_self :: "gc_env \<Rightarrow> tid \<Rightarrow> addr \<Rightarrow> unit gc" where
  "array_unregister_self env current this s =
     noexceptp (unregister_root_object env current word_size this s)"

definition root_array_default :: "gc_env \<Rightarrow> tid \<Rightarrow> addr \<Rightarrow> unit gc" where
  "root_array_default env current this s =
     array_register_self env current this (put_word this (array_ptr_get array_ptr_default) s)"

definition root_array_from_ptr :: "gc_env \<Rightarrow> tid \<Rightarrow> addr \<Rightarrow> gc_ptr \<Rightarrow> unit gc" where
  "root_array_from_ptr env current this ptr s =
     array_register_self env current this (put_word this (array_ptr_get ptr) s)"

definition root_array_copy :: "gc_env \<Rightarrow> tid \<Rightarrow> addr \<Rightarrow> addr \<Rightarrow> unit gc" where
  "root_array_copy env current this other s =
     array_register_self env current this (put_word this (get_word other s) s)"

definition root_array_move :: "gc_env \<Rightarrow> tid \<Rightarrow> addr \<Rightarrow> addr \<Rightarrow> unit gc" where
  "root_array_move env current this other s =
     bindp (array_register_self env current this (put_word this (get_word other s) s)) (\<lambda>_ s.
       (Return (), put_word other 0 s))"

definition root_array_destroy :: "gc_env \<Rightarrow> tid \<Rightarrow> addr \<Rightarrow> unit gc" where
  "root_array_destroy env current this s = array_unregister_self env current this s"

definition root_array_copy_assign :: "addr \<Rightarrow> addr \<Rightarrow> unit gc" where
  "root_array_copy_assign this other s =
     (Return (), if this \<noteq> other then put_word this (get_word other s) s else s)"

definition root_array_move_assign :: "addr \<Rightarrow> addr \<Rightarrow> unit gc" where
  "root_array_move_assign this other s =
     (Return (), if this \<noteq> other then put_word other 0 (put_word this (get_word other s) s) else s)"

definition root_array_assign_ptr :: "addr \<Rightarrow> gc_ptr \<Rightarrow> unit gc" where
  "root_array_assign_ptr this ptr s = (Return (), put_word this (array_ptr_get ptr) s)"

definition root_array_assign_null :: "addr \<Rightarrow> unit gc" where
  "root_array_assign_null this s = (Return (), put_word this 0 s)"

definition root_array_get :: "addr \<Rightarrow> addr gc" where
  "root_array_get this s = (Return (array_ptr_get (Gc_Ptr (get_word this s))), s)"

text \<open>The address of an element; the access itself is user code.\<close>

definition root_array_index :: "size_t \<Rightarrow> addr \<Rightarrow> size_t \<Rightarrow> addr gc" where
  "root_array_index sizeof_T this index s = (Return (gc_ptr_index sizeof_T (Gc_Ptr (get_word this s)) index), s)"

definition root_array_bool :: "addr \<Rightarrow> bool gc" where
  "root_array_bool this s = (Return (array_ptr_bool (Gc_Ptr (get_word this s))), s)"

definition root_array_reset :: "addr \<Rightarrow> addr \<Rightarrow> unit gc" where
  "root_array_reset this ptr s =
     (Return (), put_word this (raw_ptr (array_ptr_reset ptr (Gc_Ptr (get_word this s)))) s)"

definition root_array_as_gc_ptr :: "addr \<Rightarrow> gc_ptr gc" where
  "root_array_as_gc_ptr this s = (Return (Gc_Ptr (get_word this s)), s)"

section \<open>Arrays as objects\<close>

lemma array_ptr_object:
  "array_ptr_default = null_ptr" "array_ptr_get = gc_ptr_get" "array_ptr_convert = gc_ptr_convert id"
  "array_ptr_assign = gc_ptr_assign id" "array_ptr_assign_null = gc_ptr_assign_null"
  "array_ptr_bool = gc_ptr_bool" "array_ptr_reset = gc_ptr_reset"
  by (simp_all add: fun_eq_iff array_ptr_default_def null_ptr_def array_ptr_get_def gc_ptr_get_def
      array_ptr_convert_def gc_ptr_convert_def array_ptr_assign_def gc_ptr_assign_def
      array_ptr_assign_null_def gc_ptr_assign_null_def array_ptr_bool_def gc_ptr_bool_def
      array_ptr_reset_def gc_ptr_reset_def)

lemma weak_array_object:
  "weak_array_default = weak_ptr_default" "weak_array_from_ptr = weak_ptr_from_ptr"
  "weak_array_destroy = weak_ptr_destroy" "weak_array_copy = weak_ptr_copy" "weak_array_move = weak_ptr_move"
  "weak_array_reset = weak_ptr_reset" "weak_array_move_assign = weak_ptr_move_assign"
  "weak_array_copy_assign = weak_ptr_copy_assign" "weak_array_assign_ptr = weak_ptr_assign_ptr"
  "weak_array_lock = weak_ptr_lock" "weak_array_expired = weak_ptr_expired"
proof -
  show ops: "weak_array_from_ptr = weak_ptr_from_ptr" "weak_array_destroy = weak_ptr_destroy"
      "weak_array_copy = weak_ptr_copy" "weak_array_reset = weak_ptr_reset"
    by (simp_all add: fun_eq_iff array_ptr_object Let_def weak_array_from_ptr_def weak_ptr_from_ptr_def
        weak_array_destroy_def weak_ptr_destroy_def weak_array_copy_def weak_ptr_copy_def
        weak_array_reset_def weak_ptr_reset_def)
  show assign: "weak_array_move_assign = weak_ptr_move_assign"
    by (intro ext) (simp only: ops weak_array_move_assign_def weak_ptr_move_assign_def)
  show "weak_array_copy_assign = weak_ptr_copy_assign" "weak_array_assign_ptr = weak_ptr_assign_ptr"
    by (intro ext, simp only: ops assign weak_array_copy_assign_def weak_ptr_copy_assign_def
        weak_array_assign_ptr_def weak_ptr_assign_ptr_def)+
  show "weak_array_lock = weak_ptr_lock"
    by (intro ext) (simp only: array_ptr_object weak_array_lock_def weak_ptr_lock_def)
qed (simp_all add: fun_eq_iff weak_array_default_def weak_ptr_default_def weak_array_move_def
    weak_ptr_move_def weak_array_expired_def weak_ptr_expired_def)

lemma root_array_object:
  "array_register_self = register_self" "array_unregister_self = unregister_self"
  "root_array_default = gc_root_default" "root_array_from_ptr = gc_root_from_ptr" "root_array_copy = gc_root_copy"
  "root_array_move = gc_root_move" "root_array_destroy = gc_root_destroy"
  "root_array_copy_assign = gc_root_copy_assign" "root_array_move_assign = gc_root_move_assign"
  "root_array_assign_ptr = gc_root_assign_ptr" "root_array_assign_null = gc_root_assign_null"
  "root_array_get = gc_root_get" "root_array_bool = gc_root_bool" "root_array_reset = gc_root_reset"
  "root_array_as_gc_ptr = as_gc_ptr"
proof -
  show self: "array_register_self = register_self" "array_unregister_self = unregister_self"
    by (simp_all add: fun_eq_iff array_register_self_def register_self_def array_unregister_self_def unregister_self_def)
  show "root_array_default = gc_root_default" "root_array_from_ptr = gc_root_from_ptr" "root_array_copy = gc_root_copy"
    "root_array_move = gc_root_move" "root_array_destroy = gc_root_destroy"
    by (simp_all add: fun_eq_iff self array_ptr_object root_array_default_def gc_root_default_def null_ptr_def
        gc_ptr_get_def root_array_from_ptr_def gc_root_from_ptr_def root_array_copy_def gc_root_copy_def
        root_array_move_def gc_root_move_def root_array_destroy_def gc_root_destroy_def)
qed (simp_all add: fun_eq_iff array_ptr_object gc_ptr_get_def gc_ptr_bool_def gc_ptr_reset_def
    root_array_copy_assign_def gc_root_copy_assign_def root_array_move_assign_def gc_root_move_assign_def
    root_array_assign_ptr_def gc_root_assign_ptr_def root_array_assign_null_def gc_root_assign_null_def
    root_array_get_def gc_root_get_def root_array_bool_def gc_root_bool_def root_array_reset_def
    gc_root_reset_def root_array_as_gc_ptr_def as_gc_ptr_def)

lemmas array_handles = array_ptr_object weak_array_object root_array_object

section \<open>Programs on weak arrays\<close>

fun weak_array_exec :: "gc_env \<Rightarrow> tid \<Rightarrow> weak_op \<Rightarrow> unit gc" where
  "weak_array_exec env c (New_Null this) = weak_array_default this"
| "weak_array_exec env c (New_From this p) = weak_array_from_ptr env c this p"
| "weak_array_exec env c (New_Copy this other) = weak_array_copy env c this other"
| "weak_array_exec env c (New_Move this other) = weak_array_move env c this other"
| "weak_array_exec env c (Destroy this) = weak_array_destroy env c this"
| "weak_array_exec env c (Reset this) = weak_array_reset env c this"
| "weak_array_exec env c (Copy_Assign replacement this other) = weak_array_copy_assign env c replacement this other"
| "weak_array_exec env c (Move_Assign this other) = weak_array_move_assign env c this other"
| "weak_array_exec env c (Assign_Ptr replacement this p) = weak_array_assign_ptr env c replacement this p"

lemma weak_array_exec_object: "weak_array_exec = weak_exec"
proof (intro ext)
  show "weak_array_exec env c x s = weak_exec env c x s" for env c x s by (cases x) (simp_all add: array_handles)
qed

text \<open>
  Each operation on weak handles of arrays takes the abstract table to its next value, and \<open>lock\<close> reads it.
\<close>

lemma weak_array_refines:
  assumes "handles_sim a s" "spec_op (managed_addr s) x a = Some (H, m)" "may_proceed c s" "\<not> out_of_memory env"
  shows "\<exists>t. run (weak_array_exec env c x s) = (Done (), t) \<and> handles_sim (H, m) t \<and>
    run (weak_array_lock env c h t) = (Done (case m h of None \<Rightarrow> array_ptr_default | Some tg \<Rightarrow> Gc_Ptr tg), t)"
proof -
  from assms(2) have "spec_ops (managed_addr s) [x] a = Some (H, m)" by simp
  from weak_execs_refine [OF assms(1) this assms(3,4)] obtain t where t: "run (weak_execs env c [x] s) = (Done (), t)"
    "handle_frame s t" "handles_sim (H, m) t" by blast
  moreover have "bind_outcome w (\<lambda>_ t. (Done (), t)) = (Done (), u) \<Longrightarrow> w = (Done (), u)" for w :: "unit outcome \<times> gc_state" and u
    by (cases "(w, \<lambda>(_ :: unit) (t :: gc_state). (Done () :: unit outcome, t))" rule: bind_outcome.cases) auto
  ultimately have "run (weak_array_exec env c x s) = (Done (), t)" by (simp add: weak_array_exec_object prog_simps)
  moreover have "may_proceed c t" using handle_frame_keeps [OF t(2)] assms(3) by simp
  ultimately show ?thesis using t(3) weak_ptr_lock_result [OF t(3)]
    by (auto simp: array_handles split: option.split)
qed

end
