(* ===== verification/Scoped.thy ===== *)
theory Scoped
  imports Root_Handles
begin

text \<open>
  The scoped registration helpers of \<open>GCManager.hpp\<close>: a helper object is a value, its constructor
  and destructor are operations on the manager. A move gives the moved-to and the moved-from
  object; \<open>aliased\<close> says that both sides of an assignment are the same object.
\<close>

section \<open>Threads\<close>

record ScopedThreadRegistration =
  owns_registration :: bool

definition ScopedThreadRegistration_ctor :: "gc_env \<Rightarrow> tid \<Rightarrow> ScopedThreadRegistration gc" where
  "ScopedThreadRegistration_ctor env current s =
     bindp (is_current_thread_registered env current s) (\<lambda>registered s.
       if \<not> registered
       then bindp (register_current_thread env current s) (\<lambda>_ s. (Return \<lparr>owns_registration = True\<rparr>, s))
       else (Return \<lparr>owns_registration = False\<rparr>, s))"

definition ScopedThreadRegistration_at :: "gc_env \<Rightarrow> tid \<Rightarrow> addr \<Rightarrow> ScopedThreadRegistration gc" where
  "ScopedThreadRegistration_at env current stack_bottom s =
     bindp (is_current_thread_registered env current s) (\<lambda>registered s.
       if \<not> registered
       then bindp (register_stack_bottom env current stack_bottom s)
              (\<lambda>_ s. (Return \<lparr>owns_registration = True\<rparr>, s))
       else (Return \<lparr>owns_registration = False\<rparr>, s))"

definition ScopedThreadRegistration_dtor :: "gc_env \<Rightarrow> tid \<Rightarrow> ScopedThreadRegistration \<Rightarrow> unit gc" where
  "ScopedThreadRegistration_dtor env current r s =
     (if owns_registration r then noexceptp (unregister_current_thread env current s)
      else (Return (), s))"

section \<open>Root ranges\<close>

record ScopedRootRange =
  sr_begin :: addr
  sr_end :: addr
  sr_registered :: bool

definition new_ScopedRootRange :: ScopedRootRange where
  "new_ScopedRootRange = \<lparr>sr_begin = 0, sr_end = 0, sr_registered = False\<rparr>"

definition ScopedRootRange_reset ::
    "gc_env \<Rightarrow> tid \<Rightarrow> ScopedRootRange \<Rightarrow> addr \<Rightarrow> addr \<Rightarrow> ScopedRootRange gc" where
  "ScopedRootRange_reset env current r b e s =
     (let register_new = (b \<noteq> 0 \<and> e \<noteq> 0 \<and> b \<noteq> e) in
      bindp (if register_new then register_root_range env current b e s else (Return (), s)) (\<lambda>_ s.
      bindp (if sr_registered r then unregister_root_range env current (sr_begin r) (sr_end r) s
             else (Return (), s)) (\<lambda>_ s.
        (Return (r\<lparr>sr_begin := b, sr_end := e, sr_registered := register_new\<rparr>), s))))"

definition ScopedRootRange_ctor :: "gc_env \<Rightarrow> tid \<Rightarrow> addr \<Rightarrow> addr \<Rightarrow> ScopedRootRange gc" where
  "ScopedRootRange_ctor env current b e s = ScopedRootRange_reset env current new_ScopedRootRange b e s"

definition ScopedRootRange_dtor :: "gc_env \<Rightarrow> tid \<Rightarrow> ScopedRootRange \<Rightarrow> unit gc" where
  "ScopedRootRange_dtor env current r s =
     bindp (noexceptp (ScopedRootRange_reset env current r 0 0 s)) (\<lambda>_ s. (Return (), s))"

definition ScopedRootRange_release :: "ScopedRootRange \<Rightarrow> ScopedRootRange" where
  "ScopedRootRange_release other = other\<lparr>sr_begin := 0, sr_end := 0, sr_registered := False\<rparr>"

definition ScopedRootRange_move :: "ScopedRootRange \<Rightarrow> ScopedRootRange \<times> ScopedRootRange" where
  "ScopedRootRange_move other =
     (\<lparr>sr_begin = sr_begin other, sr_end = sr_end other, sr_registered = sr_registered other\<rparr>,
      ScopedRootRange_release other)"

definition ScopedRootRange_move_assign ::
    "gc_env \<Rightarrow> tid \<Rightarrow> bool \<Rightarrow> ScopedRootRange \<Rightarrow> ScopedRootRange \<Rightarrow> (ScopedRootRange \<times> ScopedRootRange) gc" where
  "ScopedRootRange_move_assign env current aliased r other s =
     (if aliased then (Return (r, other), s)
      else bindp (noexceptp (ScopedRootRange_reset env current r 0 0 s)) (\<lambda>r s.
        (Return (r\<lparr>sr_begin := sr_begin other, sr_end := sr_end other, sr_registered := sr_registered other\<rparr>,
                 ScopedRootRange_release other), s)))"

definition ScopedRootRange_begin :: "ScopedRootRange \<Rightarrow> addr" where
  "ScopedRootRange_begin r = sr_begin r"

definition ScopedRootRange_end :: "ScopedRootRange \<Rightarrow> addr" where
  "ScopedRootRange_end r = sr_end r"

definition ScopedRootRange_bool :: "ScopedRootRange \<Rightarrow> bool" where
  "ScopedRootRange_bool r \<longleftrightarrow> sr_registered r"

section \<open>Root objects\<close>

record ScopedRootObject =
  so_object :: addr

definition ScopedRootObject_reset ::
    "gc_env \<Rightarrow> tid \<Rightarrow> size_t \<Rightarrow> ScopedRootObject \<Rightarrow> addr \<Rightarrow> ScopedRootObject gc" where
  "ScopedRootObject_reset env current sizeof_T r object s =
     bindp (if object \<noteq> 0 then register_root_object env current sizeof_T object s else (Return (), s)) (\<lambda>_ s.
     bindp (if so_object r \<noteq> 0 then unregister_root_object env current sizeof_T (so_object r) s
            else (Return (), s)) (\<lambda>_ s.
       (Return (r\<lparr>so_object := object\<rparr>), s)))"

definition ScopedRootObject_ctor :: "gc_env \<Rightarrow> tid \<Rightarrow> size_t \<Rightarrow> addr \<Rightarrow> ScopedRootObject gc" where
  "ScopedRootObject_ctor env current sizeof_T object s =
     ScopedRootObject_reset env current sizeof_T \<lparr>so_object = 0\<rparr> object s"

definition ScopedRootObject_dtor :: "gc_env \<Rightarrow> tid \<Rightarrow> size_t \<Rightarrow> ScopedRootObject \<Rightarrow> unit gc" where
  "ScopedRootObject_dtor env current sizeof_T r s =
     bindp (noexceptp (ScopedRootObject_reset env current sizeof_T r 0 s)) (\<lambda>_ s. (Return (), s))"

definition ScopedRootObject_move :: "ScopedRootObject \<Rightarrow> ScopedRootObject \<times> ScopedRootObject" where
  "ScopedRootObject_move other = (\<lparr>so_object = so_object other\<rparr>, other\<lparr>so_object := 0\<rparr>)"

definition ScopedRootObject_move_assign ::
    "gc_env \<Rightarrow> tid \<Rightarrow> size_t \<Rightarrow> bool \<Rightarrow> ScopedRootObject \<Rightarrow> ScopedRootObject \<Rightarrow>
     (ScopedRootObject \<times> ScopedRootObject) gc" where
  "ScopedRootObject_move_assign env current sizeof_T aliased r other s =
     (if aliased then (Return (r, other), s)
      else bindp (noexceptp (ScopedRootObject_reset env current sizeof_T r 0 s)) (\<lambda>r s.
        (Return (r\<lparr>so_object := so_object other\<rparr>, other\<lparr>so_object := 0\<rparr>), s)))"

definition ScopedRootObject_get :: "ScopedRootObject \<Rightarrow> addr" where
  "ScopedRootObject_get r = so_object r"

definition ScopedRootObject_bool :: "ScopedRootObject \<Rightarrow> bool" where
  "ScopedRootObject_bool r \<longleftrightarrow> so_object r \<noteq> 0"

section \<open>What a helper owns\<close>

definition range_of :: "addr \<Rightarrow> addr \<Rightarrow> RootRange multiset" where
  "range_of b e = (if b \<noteq> 0 \<and> e \<noteq> 0 \<and> b \<noteq> e then {#normal_range b e#} else {#})"

text \<open>
  The contract of an owner of root ranges, which the two helpers share: what it owns is what it
  put into the table. \<open>owned\<close> gives the ranges of an owner in good order (\<open>ok\<close>), \<open>set_to x\<close> is its
  \<open>reset\<close> to a new target, \<open>ranges x\<close> the ranges of that target, \<open>nothing\<close> the empty target.
\<close>

locale range_owner =
  fixes ok :: "'o \<Rightarrow> bool"
    and owned :: "'o \<Rightarrow> RootRange multiset"
    and ranges :: "'x \<Rightarrow> RootRange multiset"
    and nothing :: 'x
    and set_to :: "gc_env \<Rightarrow> tid \<Rightarrow> 'o \<Rightarrow> 'x \<Rightarrow> 'o gc"
  assumes ranges_nothing: "ranges nothing = {#}"
    and set_to: "ok r \<Longrightarrow> may_proceed c s \<Longrightarrow> mset (gc_root_ranges s) = base + owned r \<Longrightarrow>
      (ranges x = {#} \<or> \<not> e_alloc_fails env Root_Ranges_Push) \<Longrightarrow>
      \<exists>r' rs. run (set_to env c r x s) = (Done r', s\<lparr>gc_root_ranges := rs\<rparr>) \<and> ok r' \<and>
        owned r' = ranges x \<and> mset rs = base + ranges x"
    and set_to_fails: "ok r \<Longrightarrow> may_proceed c s \<Longrightarrow> ranges x \<noteq> {#} \<Longrightarrow> e_alloc_fails env Root_Ranges_Push \<Longrightarrow>
      run (set_to env c r x s) = (Threw Bad_Alloc, s)"
begin

lemma dtor:
  assumes "ok r" "may_proceed c s" "mset (gc_root_ranges s) = base + owned r"
  shows "\<exists>rs. run (bindp (noexceptp (set_to env c r nothing s)) (\<lambda>_ s. (Return (), s))) =
      (Done (), s\<lparr>gc_root_ranges := rs\<rparr>) \<and> mset rs = base"
proof -
  from set_to [OF assms, of nothing env] ranges_nothing obtain r' rs where
    "run (set_to env c r nothing s) = (Done r', s\<lparr>gc_root_ranges := rs\<rparr>)" "mset rs = base" by auto
  then show ?thesis by (auto simp: noexceptp_def prog_simps)
qed

lemma round_trip:
  assumes "ok r" "owned r = {#}" "may_proceed c s" "\<not> e_alloc_fails env Root_Ranges_Push"
  shows "\<exists>r' rs rs'. run (set_to env c r x s) = (Done r', s\<lparr>gc_root_ranges := rs\<rparr>) \<and> ok r' \<and>
    mset rs = mset (gc_root_ranges s) + ranges x \<and>
    run (bindp (noexceptp (set_to env c r' nothing (s\<lparr>gc_root_ranges := rs\<rparr>))) (\<lambda>_ s. (Return (), s))) =
      (Done (), s\<lparr>gc_root_ranges := rs'\<rparr>) \<and> mset rs' = mset (gc_root_ranges s)"
proof -
  from set_to [OF assms(1,3), of "mset (gc_root_ranges s)" x env] assms(2,4) obtain r' rs where r:
    "run (set_to env c r x s) = (Done r', s\<lparr>gc_root_ranges := rs\<rparr>)" "ok r'" "owned r' = ranges x"
    "mset rs = mset (gc_root_ranges s) + ranges x" by auto
  have "may_proceed c (s\<lparr>gc_root_ranges := rs\<rparr>)" using assms(3) by (simp add: may_proceed_def)
  from dtor [OF r(2) this, of "mset (gc_root_ranges s)" env] r(3,4) obtain rs' where
    "run (bindp (noexceptp (set_to env c r' nothing (s\<lparr>gc_root_ranges := rs\<rparr>))) (\<lambda>_ s. (Return (), s))) =
      (Done (), s\<lparr>gc_root_ranges := rs'\<rparr>)" "mset rs' = mset (gc_root_ranges s)" by auto
  with r show ?thesis by blast
qed

end

definition ScopedRootRange_ok :: "ScopedRootRange \<Rightarrow> bool" where
  "ScopedRootRange_ok r \<longleftrightarrow>
     sr_registered r = (sr_begin r \<noteq> 0 \<and> sr_end r \<noteq> 0 \<and> sr_begin r \<noteq> sr_end r)"

definition ScopedRootRange_owned :: "ScopedRootRange \<Rightarrow> RootRange multiset" where
  "ScopedRootRange_owned r = range_of (sr_begin r) (sr_end r)"

definition object_ranges :: "size_t \<Rightarrow> addr \<Rightarrow> RootRange multiset" where
  "object_ranges sizeof_T object = range_of object (object + sizeof_T)"

lemma run_register_root_range:
  assumes "may_proceed c s"
  shows "run (register_root_range env c b e s) =
    (if range_of b e \<noteq> {#} \<and> e_alloc_fails env Root_Ranges_Push then (Threw Bad_Alloc, s)
     else (Done (), s\<lparr>gc_root_ranges := gc_root_ranges s @ (if range_of b e = {#} then [] else [normal_range b e])\<rparr>))"
proof -
  have "may_proceed c (s\<lparr>gc_root_ranges := r\<rparr>)" for r using assms by (simp add: may_proceed_def)
  then show ?thesis by (auto simp: register_root_range_def range_of_def prog_simps)
qed

lemma run_unregister_root_range:
  assumes "may_proceed c s"
  shows "run (unregister_root_range env c b e s) =
    (Done (), s\<lparr>gc_root_ranges := if range_of b e = {#} then gc_root_ranges s else remove1 (normal_range b e) (gc_root_ranges s)\<rparr>)"
  using assms by (auto simp: unregister_root_range_def range_of_def prog_simps)

text \<open>Registering the new ranges before the old ones go.\<close>

lemma add_then_remove:
  "mset rs = base + range_of b e \<Longrightarrow>
   mset (if range_of b e = {#} then rs @ xs else remove1 (normal_range b e) (rs @ xs)) = base + mset xs"
  by (auto simp: range_of_def)

interpretation scoped_range: range_owner ScopedRootRange_ok ScopedRootRange_owned "\<lambda>(b, e). range_of b e" "(0, 0)"
  "\<lambda>env c r (b, e). ScopedRootRange_reset env c r b e"
proof (unfold_locales, goal_cases)
  case 1
  then show ?case by (simp add: range_of_def)
next
  case (2 r c s base x env)
  obtain b e where x: "x = (b, e)" by (cases x)
  let ?xs = "if range_of b e = {#} then [] else [normal_range b e]"
  have mp: "may_proceed c (s\<lparr>gc_root_ranges := rs\<rparr>)" for rs using 2(2) by (simp add: may_proceed_def)
  let ?rs = "if range_of (sr_begin r) (sr_end r) = {#} then gc_root_ranges s @ ?xs
    else remove1 (normal_range (sr_begin r) (sr_end r)) (gc_root_ranges s @ ?xs)"
  let ?r = "r\<lparr>sr_begin := b, sr_end := e, sr_registered := (b \<noteq> 0 \<and> e \<noteq> 0 \<and> b \<noteq> e)\<rparr>"
  have reg: "sr_registered r \<longleftrightarrow> range_of (sr_begin r) (sr_end r) \<noteq> {#}" "(b \<noteq> 0 \<and> e \<noteq> 0 \<and> b \<noteq> e) \<longleftrightarrow> range_of b e \<noteq> {#}"
    using 2(1) by (simp_all add: ScopedRootRange_ok_def range_of_def)
  have "run (ScopedRootRange_reset env c r b e s) = (Done ?r, s\<lparr>gc_root_ranges := ?rs\<rparr>)"
    using 2(4) x run_register_root_range [OF 2(2), of env b e] run_unregister_root_range [OF mp, of env]
      run_unregister_root_range [OF 2(2), of env]
    by (auto simp: ScopedRootRange_reset_def Let_def run_bindp reg if_distrib [of run] run_leaf)
  moreover have "mset ?xs = range_of b e" by (simp add: range_of_def)
  ultimately show ?case
    using add_then_remove [OF 2(3) [unfolded ScopedRootRange_owned_def], of ?xs]
    by (intro exI [of _ ?r] exI [of _ ?rs]) (simp add: x ScopedRootRange_ok_def ScopedRootRange_owned_def)
next
  case (3 r c s x env)
  then show ?case
    using run_register_root_range [OF 3(2), of env "fst x" "snd x"]
    by (cases x) (auto simp: ScopedRootRange_reset_def run_bindp Let_def range_of_def split: if_splits)
qed

interpretation scoped_object: range_owner "\<lambda>_. True" "object_ranges sizeof_T \<circ> so_object" "object_ranges sizeof_T" 0
  "\<lambda>env c. ScopedRootObject_reset env c sizeof_T" for sizeof_T
proof (unfold_locales, goal_cases)
  case 1
  then show ?case by (simp add: object_ranges_def range_of_def)
next
  case (2 r c s base x env)
  let ?e = "x + sizeof_T" and ?b' = "so_object r" and ?e' = "so_object r + sizeof_T"
  let ?xs = "if range_of x ?e = {#} then [] else [normal_range x ?e]"
  let ?rs = "if range_of ?b' ?e' = {#} then gc_root_ranges s @ ?xs
    else remove1 (normal_range ?b' ?e') (gc_root_ranges s @ ?xs)"
  have mp: "may_proceed c (s\<lparr>gc_root_ranges := rs\<rparr>)" for rs using 2(2) by (simp add: may_proceed_def)
  have z: "range_of 0 e = {#}" for e by (simp add: range_of_def)
  have "run (ScopedRootObject_reset env c sizeof_T r x s) = (Done (r\<lparr>so_object := x\<rparr>), s\<lparr>gc_root_ranges := ?rs\<rparr>)"
    using 2(4) run_register_root_range [OF 2(2), of env x ?e] run_unregister_root_range [OF mp, of env]
      run_unregister_root_range [OF 2(2), of env] z
    by (auto simp: ScopedRootObject_reset_def register_root_object_def unregister_root_object_def run_bindp
        if_distrib [of run] run_leaf object_ranges_def)
  moreover have "mset ?xs = range_of x ?e" by (simp add: range_of_def)
  ultimately show ?case
    using add_then_remove [of "gc_root_ranges s" base ?b' ?e' ?xs] 2(3)
    by (intro exI [of _ "r\<lparr>so_object := x\<rparr>"] exI [of _ ?rs]) (simp add: object_ranges_def)
next
  case (3 r c s x env)
  then show ?case
    using run_register_root_range [OF 3(2), of env x "x + sizeof_T"]
    by (auto simp: ScopedRootObject_reset_def register_root_object_def run_bindp object_ranges_def range_of_def
        split: if_splits)
qed

lemma scoped_range_move_assign:
  assumes "ScopedRootRange_ok r" "ScopedRootRange_ok q" "may_proceed c s"
    "mset (gc_root_ranges s) = base + ScopedRootRange_owned r + ScopedRootRange_owned q"
  shows "\<exists>r' q' rs. run (ScopedRootRange_move_assign env c False r q s) = (Done (r', q'), s\<lparr>gc_root_ranges := rs\<rparr>) \<and>
    ScopedRootRange_ok r' \<and> ScopedRootRange_ok q' \<and> ScopedRootRange_owned r' = ScopedRootRange_owned q \<and>
    ScopedRootRange_owned q' = {#} \<and> mset rs = base + ScopedRootRange_owned q"
proof -
  have "mset (gc_root_ranges s) = (base + ScopedRootRange_owned q) + ScopedRootRange_owned r"
    using assms(4) by simp
  from scoped_range.set_to [OF assms(1,3) this, of "(0, 0)" env]
  obtain r' rs where "run (ScopedRootRange_reset env c r 0 0 s) = (Done r', s\<lparr>gc_root_ranges := rs\<rparr>)"
    "mset rs = base + ScopedRootRange_owned q" by (auto simp: range_of_def)
  with assms(2) show ?thesis
    by (auto simp: ScopedRootRange_move_assign_def noexceptp_def prog_simps ScopedRootRange_ok_def
        ScopedRootRange_owned_def ScopedRootRange_release_def range_of_def)
qed

section \<open>Nested thread scopes\<close>

lemma scoped_thread_nested:
  assumes "may_proceed c s" "thread_registered c s"
  shows "run (ScopedThreadRegistration_ctor env c s) = (Done \<lparr>owns_registration = False\<rparr>, s)"
    "run (ScopedThreadRegistration_at env c b s) = (Done \<lparr>owns_registration = False\<rparr>, s)"
    "run (ScopedThreadRegistration_dtor env c \<lparr>owns_registration = False\<rparr> s) = (Done (), s)"
  using assms
  by (simp_all add: ScopedThreadRegistration_ctor_def ScopedThreadRegistration_at_def
      ScopedThreadRegistration_dtor_def is_current_thread_registered_def prog_simps)

end
