(* ===== verification/Platform_Scan.thy ===== *)
theory Platform_Scan
  imports Root_Scanner
begin

text \<open>
  The branches of \<open>src/RootScanner.cpp\<close> and \<open>src/GCManager.cpp\<close> for macOS and Windows: the scan of
  the globals and the detection of the stack bounds. What the system reports is a parameter:
  the loaded Mach-O images with the result of \<open>getsectiondata\<close>, and \<open>VirtualQuery\<close>. The Windows
  scan is a loop whose end depends on what the system reports.
\<close>

section \<open>macOS\<close>

record mach_image =
  mh_header :: "u32 option"
  mh_section :: "string \<Rightarrow> string \<Rightarrow> (addr \<times> u64) option"

definition MH_MAGIC_64 :: u32 where
  "MH_MAGIC_64 = 0xfeedfacf"

definition kSections :: "(string \<times> string) list" where
  "kSections =
     [(''__DATA'', ''__data''), (''__DATA'', ''__bss''), (''__DATA'', ''__common''),
      (''__DATA_CONST'', ''__const'')]"

definition scan_mach_section ::
    "memory \<Rightarrow> (u64 \<Rightarrow> 's \<Rightarrow> 's) \<Rightarrow> mach_image \<Rightarrow> string \<times> string \<Rightarrow> 's \<Rightarrow> 's" where
  "scan_mach_section m visitor img s st =
     (case mh_section img (fst s) (snd s) of
        None \<Rightarrow> st
      | Some (ptr, sz) \<Rightarrow> if ptr \<noteq> 0 \<and> 0 < sz then scan_words m ptr (ptr + sz) visitor st else st)"

definition scan_mach_image :: "memory \<Rightarrow> (u64 \<Rightarrow> 's \<Rightarrow> 's) \<Rightarrow> mach_image \<Rightarrow> 's \<Rightarrow> 's" where
  "scan_mach_image m visitor img st =
     (case mh_header img of
        None \<Rightarrow> st
      | Some magic \<Rightarrow>
          if magic \<noteq> MH_MAGIC_64 then st else fold (scan_mach_section m visitor img) kSections st)"

definition scan_globals_macos :: "mach_image list \<Rightarrow> memory \<Rightarrow> (u64 \<Rightarrow> 's \<Rightarrow> 's) \<Rightarrow> 's \<Rightarrow> 's" where
  "scan_globals_macos images m visitor st = fold (scan_mach_image m visitor) images st"

text \<open>The words it visits.\<close>

definition mach_section_words :: "memory \<Rightarrow> mach_image \<Rightarrow> string \<times> string \<Rightarrow> u64 list" where
  "mach_section_words m img s =
     (case mh_section img (fst s) (snd s) of
        None \<Rightarrow> []
      | Some (ptr, sz) \<Rightarrow> if ptr \<noteq> 0 \<and> 0 < sz then map (load_word m) (word_addrs ptr (ptr + sz)) else [])"

definition mach_image_words :: "memory \<Rightarrow> mach_image \<Rightarrow> u64 list" where
  "mach_image_words m img =
     (if mh_header img = Some MH_MAGIC_64 then concat (map (mach_section_words m img) kSections) else [])"

lemma scan_mach_section_fold: "scan_mach_section m v img = (\<lambda>s. fold v (mach_section_words m img s))"
  by (auto simp: fun_eq_iff scan_mach_section_def mach_section_words_def scan_words_fold split: option.split)

lemma scan_mach_image_fold: "scan_mach_image m v = (\<lambda>img. fold v (mach_image_words m img))"
  by (auto simp: fun_eq_iff scan_mach_image_def mach_image_words_def scan_mach_section_fold fold_concat_map split: option.split)

lemma scan_globals_macos_fold:
  "scan_globals_macos images m v st = fold v (concat (map (mach_image_words m) images)) st"
  by (simp add: scan_globals_macos_def scan_mach_image_fold fold_concat_map)

section \<open>Windows\<close>

record memory_basic_information =
  BaseAddress :: addr
  RegionSize :: u64
  State :: u32
  Protect :: u32
  Type :: u32

text \<open>
  \<open>PAGE_READWRITE\<close>, \<open>PAGE_WRITECOPY\<close>, \<open>PAGE_EXECUTE_READWRITE\<close>, \<open>PAGE_EXECUTE_WRITECOPY\<close>,
  \<open>PAGE_GUARD\<close>, \<open>MEM_COMMIT\<close> and \<open>MEM_IMAGE\<close> of the Windows headers.
\<close>

definition scannable :: "memory_basic_information \<Rightarrow> bool" where
  "scannable mbi \<longleftrightarrow>
     (let readable_writable =
        Protect mbi AND 0x04 \<noteq> 0 \<or> Protect mbi AND 0x08 \<noteq> 0 \<or> Protect mbi AND 0x40 \<noteq> 0 \<or>
        Protect mbi AND 0x80 \<noteq> 0
      in State mbi = 0x1000 \<and> readable_writable \<and> Protect mbi AND 0x100 = 0 \<and> Type mbi = 0x1000000)"

partial_function (option) scan_globals_windows_from ::
    "(addr \<Rightarrow> memory_basic_information option) \<Rightarrow> memory \<Rightarrow> (u64 \<Rightarrow> 's \<Rightarrow> 's) \<Rightarrow> addr \<Rightarrow> 's \<Rightarrow> 's option" where
  "scan_globals_windows_from VirtualQuery m visitor address st =
     (case VirtualQuery address of
        None \<Rightarrow> Some st
      | Some mbi \<Rightarrow>
          let st = (if scannable mbi
                    then scan_words m (BaseAddress mbi) (BaseAddress mbi + RegionSize mbi) visitor st else st);
              next_address = BaseAddress mbi + RegionSize mbi
          in if next_address \<le> BaseAddress mbi then Some st
             else scan_globals_windows_from VirtualQuery m visitor next_address st)"

definition scan_globals_windows ::
    "(addr \<Rightarrow> memory_basic_information option) \<Rightarrow> memory \<Rightarrow> (u64 \<Rightarrow> 's \<Rightarrow> 's) \<Rightarrow> 's \<Rightarrow> 's option" where
  "scan_globals_windows VirtualQuery m visitor st = scan_globals_windows_from VirtualQuery m visitor 0 st"

text \<open>What the Windows documentation promises: the region that is reported holds the address asked for.\<close>

definition reports_regions :: "(addr \<Rightarrow> memory_basic_information option) \<Rightarrow> bool" where
  "reports_regions VirtualQuery \<longleftrightarrow> (\<forall>a mbi. VirtualQuery a = Some mbi \<longrightarrow>
     BaseAddress mbi \<le> a \<and> unat a < unat (BaseAddress mbi) + unat (RegionSize mbi))"

definition region_words :: "memory \<Rightarrow> memory_basic_information \<Rightarrow> u64 list" where
  "region_words m r =
     (if scannable r then map (load_word m) (word_addrs (BaseAddress r) (BaseAddress r + RegionSize r)) else [])"

lemma windows_next:
  assumes "BaseAddress r \<le> a" "unat a < unat (BaseAddress r) + unat (RegionSize r)"
    "\<not> BaseAddress r + RegionSize r \<le> BaseAddress r"
  shows "unat (BaseAddress r + RegionSize r) = unat (BaseAddress r) + unat (RegionSize r)"
    "unat a < unat (BaseAddress r + RegionSize r)"
proof -
  have "BaseAddress r \<le> BaseAddress r + RegionSize r" using assms(3) by simp
  then show u: "unat (BaseAddress r + RegionSize r) = unat (BaseAddress r) + unat (RegionSize r)"
    by (simp add: unat_plus_simple)
  then show "unat a < unat (BaseAddress r + RegionSize r)" using assms(2) by simp
qed

lemma windows_scan_from:
  assumes ok: "reports_regions vq"
  shows "\<exists>rs. (\<forall>(v :: u64 \<Rightarrow> 's \<Rightarrow> 's) st. scan_globals_windows_from vq m v a st = Some (fold v (concat (map (region_words m) rs)) st)) \<and>
    (\<forall>r\<in>set rs. \<exists>b. vq b = Some r) \<and>
    (\<forall>x. a \<le> x \<and> (\<forall>y. a \<le> y \<and> y \<le> x \<longrightarrow> vq y \<noteq> None) \<longrightarrow>
      (\<exists>r\<in>set rs. BaseAddress r \<le> x \<and> unat x < unat (BaseAddress r) + unat (RegionSize r)))"
proof (induction "2 ^ 64 - unat a" arbitrary: a rule: less_induct)
  case less
  show ?case
  proof (cases "vq a")
    case None
    then show ?thesis
      by (intro exI [of _ "[]"]) (subst scan_globals_windows_from.simps, auto)
  next
    case (Some r)
    let ?e = "BaseAddress r + RegionSize r"
    have b: "BaseAddress r \<le> a" "unat a < unat (BaseAddress r) + unat (RegionSize r)"
      using ok Some by (auto simp: reports_regions_def)
    show ?thesis
    proof (cases "?e \<le> BaseAddress r")
      case True
      have top: "unat x < unat (BaseAddress r) + unat (RegionSize r)" for x :: addr
      proof (rule ccontr)
        assume "\<not> ?thesis"
        then have "unat (BaseAddress r) + unat (RegionSize r) < 2 ^ 64" using unat_less_64 [of x] by simp
        then have "unat ?e = unat (BaseAddress r) + unat (RegionSize r)" by (simp add: unat_word_ariths)
        moreover have "unat ?e \<le> unat (BaseAddress r)" using True by (simp add: word_le_nat_alt)
        ultimately show False using b by (simp add: word_le_nat_alt)
      qed
      show ?thesis
        using Some True b(1) top
        by (intro exI [of _ "[r]"]) (subst scan_globals_windows_from.simps, auto simp: Let_def region_words_def scan_words_fold)
    next
      case False
      note n = windows_next [OF b False]
      have "2 ^ 64 - unat ?e < 2 ^ 64 - unat a" using n(2) unat_less_64 [of a] by simp
      from less [OF this] obtain rs where rs:
        "\<forall>(v :: u64 \<Rightarrow> 's \<Rightarrow> 's) st. scan_globals_windows_from vq m v ?e st = Some (fold v (concat (map (region_words m) rs)) st)"
        "\<forall>r\<in>set rs. \<exists>b. vq b = Some r"
        "\<forall>x. ?e \<le> x \<and> (\<forall>y. ?e \<le> y \<and> y \<le> x \<longrightarrow> vq y \<noteq> None) \<longrightarrow>
          (\<exists>r\<in>set rs. BaseAddress r \<le> x \<and> unat x < unat (BaseAddress r) + unat (RegionSize r))" by blast
      have "\<exists>q\<in>set (r # rs). BaseAddress q \<le> x \<and> unat x < unat (BaseAddress q) + unat (RegionSize q)"
        if x: "a \<le> x" "\<forall>y. a \<le> y \<and> y \<le> x \<longrightarrow> vq y \<noteq> None" for x
      proof (cases "?e \<le> x")
        case True
        have "\<forall>y. ?e \<le> y \<and> y \<le> x \<longrightarrow> vq y \<noteq> None"
          using x(2) n(2) by (metis order.trans order_less_imp_le word_less_nat_alt)
        from rs(3) [rule_format, OF conjI [OF True this]] show ?thesis by auto
      next
        case False
        then have "unat x < unat ?e" by (metis not_le word_le_nat_alt)
        then show ?thesis using n(1) x(1) b(1) by auto
      qed
      then show ?thesis
        using Some False rs(1,2)
        by (intro exI [of _ "r # rs"]) (subst scan_globals_windows_from.simps, auto simp: Let_def region_words_def scan_words_fold)
    qed
  qed
qed

section \<open>Stack bounds\<close>

text \<open>The address the system reports, null when it cannot.\<close>

definition detect_stack_bottom_macos :: "addr \<Rightarrow> ('s, addr) comp" where
  "detect_stack_bottom_macos stack_high s =
     (if stack_high = 0 then (Throw (Logic_Error No_Stack_Bounds), s) else (Return stack_high, s))"

definition detect_stack_bottom_windows :: "addr \<times> addr \<Rightarrow> ('s, addr) comp" where
  "detect_stack_bottom_windows limits s =
     (if snd limits = 0 then (Throw (Logic_Error No_Stack_Bounds), s) else (Return (snd limits), s))"

section \<open>Any other platform\<close>

text \<open>Globals are not scanned, and a thread has to name its stack bottom itself.\<close>

definition scan_globals_other :: "(u64 \<Rightarrow> 's \<Rightarrow> 's) \<Rightarrow> 's \<Rightarrow> 's" where
  "scan_globals_other visitor st = st"

definition detect_stack_bottom_other :: "('s, addr) comp" where
  "detect_stack_bottom_other s = (Throw (Logic_Error No_Stack_Bounds), s)"

end
