(* ===== verification/Sanitized_Scan.thy ===== *)
theory Sanitized_Scan
  imports Root_Scanner
begin

text \<open>
  \<open>src/RootScanner.cpp\<close> in a build with AddressSanitizer: words in poisoned memory are skipped, and
  a stack whose top lies in a fake frame is scanned in two parts. The runtime of the sanitizer
  is a parameter. The lemmas relate the scans to those of the plain build.
\<close>

section \<open>The scans\<close>

text \<open>
  The functions of \<open>sanitizer/asan_interface.h\<close> that the source calls. For an address in a
  fake frame, \<open>addr_is_in_fake_stack\<close> gives the real stack address and the frame's two ends.
\<close>

record asan_runtime =
  region_is_poisoned :: "addr \<Rightarrow> size_t \<Rightarrow> bool"
  addr_is_in_fake_stack :: "addr \<Rightarrow> addr \<Rightarrow> (addr \<times> addr \<times> addr) option"
  get_current_fake_stack :: addr

function asan_scan_loop ::
    "asan_runtime \<Rightarrow> memory \<Rightarrow> addr \<Rightarrow> addr \<Rightarrow> (u64 \<Rightarrow> 's \<Rightarrow> 's) \<Rightarrow> 's \<Rightarrow> 's" where
  "asan_scan_loop rt m cur finish visitor st =
     (if word_size \<le> finish - cur
      then asan_scan_loop rt m (cur + word_size) finish visitor
             (if region_is_poisoned rt cur word_size then st else visitor (load_word m cur) st)
      else st)"
  by pat_completeness auto
termination
proof (relation "measure (\<lambda>(rt, m, cur, finish, visitor, st). unat (finish - cur))")
  fix rt m and cur finish :: addr and visitor :: "u64 \<Rightarrow> 's \<Rightarrow> 's" and st
  assume le: "8 \<le> finish - cur"
  show "((rt, m, cur + 8, finish, visitor, if region_is_poisoned rt cur 8 then st else visitor (load_word m cur) st),
      rt, m, cur, finish, visitor, st) \<in> measure (\<lambda>(rt, m, cur, finish, visitor, st). unat (finish - cur))"
    using le unat_minus_step [OF le] by (simp add: word_le_nat_alt)
qed simp

declare asan_scan_loop.simps [simp del]

definition asan_scan_words ::
    "asan_runtime \<Rightarrow> memory \<Rightarrow> addr \<Rightarrow> addr \<Rightarrow> (u64 \<Rightarrow> 's \<Rightarrow> 's) \<Rightarrow> 's \<Rightarrow> 's" where
  "asan_scan_words rt m begin_ptr end_ptr visitor st =
     (if begin_ptr = 0 \<or> end_ptr = 0 then st
      else let start = (if end_ptr < begin_ptr then end_ptr else begin_ptr);
               finish = (if end_ptr < begin_ptr then begin_ptr else end_ptr);
               padding = (word_size - start mod word_size) mod word_size
           in if finish - start < padding then st
              else asan_scan_loop rt m (start + padding) finish visitor st)"

definition asan_current_fake_stack_handle :: "asan_runtime \<Rightarrow> addr" where
  "asan_current_fake_stack_handle rt = get_current_fake_stack rt"

definition asan_scan_stack_range ::
    "asan_runtime \<Rightarrow> memory \<Rightarrow> addr \<Rightarrow> addr \<Rightarrow> addr \<Rightarrow> (u64 \<Rightarrow> 's \<Rightarrow> 's) \<Rightarrow> 's \<Rightarrow> 's" where
  "asan_scan_stack_range rt m stack_top stack_bottom fake_stack_handle visitor st =
     (if stack_top = 0 \<or> stack_bottom = 0 then st
      else if fake_stack_handle \<noteq> 0 then
        (case addr_is_in_fake_stack rt fake_stack_handle stack_top of
           None \<Rightarrow> asan_scan_words rt m stack_top stack_bottom visitor st
         | Some (real_stack_top, fake_frame_begin, fake_frame_end) \<Rightarrow>
             asan_scan_words rt m real_stack_top stack_bottom visitor
               (asan_scan_words rt m fake_frame_begin fake_frame_end visitor st))
      else asan_scan_words rt m stack_top stack_bottom visitor st)"

definition asan_scan_range ::
    "asan_runtime \<Rightarrow> memory \<Rightarrow> addr \<Rightarrow> addr \<Rightarrow> (u64 \<Rightarrow> 's \<Rightarrow> 's) \<Rightarrow> 's \<Rightarrow> 's" where
  "asan_scan_range rt m begin_ptr end_ptr visitor st = asan_scan_words rt m begin_ptr end_ptr visitor st"

definition asan_scan_thread_stack ::
    "asan_runtime \<Rightarrow> memory \<Rightarrow> addr \<Rightarrow> addr \<Rightarrow> addr \<Rightarrow> (u64 \<Rightarrow> 's \<Rightarrow> 's) \<Rightarrow> 's \<Rightarrow> 's" where
  "asan_scan_thread_stack rt m stack_top stack_bottom fake_stack_handle visitor st =
     asan_scan_stack_range rt m stack_top stack_bottom fake_stack_handle visitor st"

section \<open>What they visit\<close>

lemma asan_scan_loop_fold:
  "asan_scan_loop rt m cur finish v st =
   fold v (map (load_word m) (filter (\<lambda>a. \<not> region_is_poisoned rt a 8) (cursor_list cur finish))) st"
proof (induction rt m cur finish v st rule: asan_scan_loop.induct)
  case (1 rt m cur finish v st)
  show ?case
  proof (cases "8 \<le> finish - cur")
    case True
    have "cursor_list cur finish = cur # cursor_list (cur + 8) finish" by (rule cursor_list_step [OF True])
    with True "1.IH" [OF True] show ?thesis by (simp add: asan_scan_loop.simps [of rt m cur])
  next
    case False
    then have "unat (finish - cur) div 8 = 0" by (simp add: word_le_nat_alt)
    with False show ?thesis by (simp add: asan_scan_loop.simps [of rt m cur] cursor_list_def)
  qed
qed

text \<open>A range scan visits the aligned words of the range that are not poisoned, in order.\<close>

lemma asan_scan_words_fold:
  "asan_scan_words rt m b e v st =
   fold v (map (load_word m) (filter (\<lambda>a. \<not> region_is_poisoned rt a 8) (word_addrs b e))) st"
  by (auto simp: asan_scan_words_def word_addrs_def Let_def asan_scan_loop_fold min_def max_def)

text \<open>Where nothing is poisoned, the scans are those of the plain build.\<close>

lemma asan_scan_words_plain:
  assumes "\<forall>a\<in>set (word_addrs b e). \<not> region_is_poisoned rt a 8"
  shows "asan_scan_words rt m b e v st = scan_words m b e v st"
  using assms by (simp add: asan_scan_words_fold scan_words_fold filter_True)

lemma asan_scan_stack_plain:
  assumes "\<forall>a\<in>set (word_addrs sp bottom). \<not> region_is_poisoned rt a 8"
    "h \<noteq> 0 \<Longrightarrow> addr_is_in_fake_stack rt h sp = None"
  shows "asan_scan_stack_range rt m sp bottom h v st = scan_stack_range m sp bottom h' v st"
  unfolding asan_scan_stack_range_def scan_stack_range_def
  using assms by (simp add: asan_scan_words_plain)

text \<open>With a fake frame, the frame comes first, then the real stack from the real sp on.\<close>

lemma asan_scan_stack_fake:
  assumes "sp \<noteq> 0" "bottom \<noteq> 0" "h \<noteq> 0" "addr_is_in_fake_stack rt h sp = Some (r, b, e)"
  shows "asan_scan_stack_range rt m sp bottom h v st =
    fold v (map (load_word m) (filter (\<lambda>a. \<not> region_is_poisoned rt a 8) (word_addrs b e @ word_addrs r bottom))) st"
  using assms by (simp add: asan_scan_stack_range_def asan_scan_words_fold)

end
