(* ===== verification/Example_Heap.thy ===== *)
theory Example_Heap
  imports Manager_Instance Vector_As_List Array_Handles Scoped Platform_Scan Sanitized_Scan
begin

text \<open>
  A small concrete heap and environment on which the hypotheses of the properties are shown to
  hold: three blocks of which the first is referred to by a root range, the second by the
  first, and the third, which has a finalizer and a weak reference, by nothing.
\<close>

definition example_env :: gc_env where
  "example_env =
     \<lparr>e_alloc_fails = (\<lambda>_. False),
      e_op_new = (\<lambda>s n al.
        if al \<noteq> 0 \<and> unat al dvd unat (0x100000 :: addr) \<and>
           unat (0x100000 :: addr) + unat n \<le> 2 ^ 63 \<and> region_free (gc_regions s) 0x100000 n
        then Some 0x100000 else None),
      e_finalize = (\<lambda>d p s. (Return (), s)),
      e_registers = [0, 7], e_stack_marker = 0x7FF0, e_images = [],
      e_pthread_stack = Some (0x7000, 0x1000), e_clock_start = 100, e_clock_now = 350\<rparr>"

text \<open>The same, with no memory for the graph of the finalization order.\<close>

definition starved_env :: gc_env where
  "starved_env = example_env\<lparr>e_alloc_fails := (\<lambda>site. site = Ordering_Graph)\<rparr>"

definition example_header :: "DestructorFn option \<Rightarrow> ChunkHeader" where
  "example_header d =
     new_ChunkHeader\<lparr>ch_size := 16, ch_destructor := d, ch_payload_offset := 32,
       ch_alignment_shift := 4\<rparr>"

definition example_block :: "addr \<Rightarrow> BlockRecord" where
  "example_block h =
     \<lparr>br_header = h, br_payload_begin = h + 32, br_payload_end = h + 48, br_constructing = False\<rparr>"

definition example_state :: gc_state where
  "example_state =
     (new_gc_state (store_word (store_word (\<lambda>_. 0) 0x500 0x1020) 0x1028 0x2024))
     \<lparr>gc_headers := (\<lambda>_. new_ChunkHeader)(0x1000 := example_header None,
        0x2000 := example_header None, 0x3000 := example_header (Some 9)),
      gc_regions := [(0x1000, 48), (0x2000, 48), (0x3000, 48)],
      gc_allocations := [(0x1020, example_block 0x1000), (0x2020, example_block 0x2000),
        (0x3020, example_block 0x3000)],
      gc_threads := [(1, new_ThreadState\<lparr>ts_stack_bottom := 0x8000\<rparr>)],
      gc_root_ranges := [\<lparr>rr_begin = 0x500, rr_end = 0x508\<rparr>],
      gc_weak_refs := [\<lparr>wr_target = 0x3020, wr_storage = 0x600\<rparr>],
      gc_managed_bytes := 48, gc_reserved_bytes := 144\<rparr>"

lemmas example_defs = example_state_def example_block_def example_header_def new_gc_state_def

lemma example_env_fields [simp]:
  "e_alloc_fails example_env = (\<lambda>_. False)" "e_finalize example_env = (\<lambda>d p s. (Return (), s))"
  "e_finalize starved_env = (\<lambda>d p s. (Return (), s))"
  by (simp_all add: example_env_def starved_env_def)

lemma example_not_starved: "\<not> out_of_memory example_env"
  by (simp add: out_of_memory_def)

lemma example_finalizers: "finalizers_return example_env" "finalizers_return starved_env"
  by (simp_all add: finalizers_return_def prog_simps)

lemma example_op_new: "op_new_ok example_env"
  by (simp add: op_new_ok_def example_env_def)

lemma example_index_inv: "index_inv example_state"
  by (simp add: example_defs index_inv_def block_ok_def blocks_apart_def new_ChunkHeader_def Let_def)

lemma example_heap_inv: "heap_inv example_state"
  using example_index_inv
  by (simp add: heap_inv_def accounting_def regions_ok_def header_of_def block_allocation_size_def
      example_defs new_ChunkHeader_def)

lemma example_can_collect: "can_collect 1 example_state"
  by (simp add: can_collect_def may_proceed_def thread_registered_def find_thread_state_locked_def
      om_find_def others_paused_def example_defs)

lemma example_find:
  "find_block_locked 0x1020 example_state = Some (example_block 0x1000)"
  "find_block_locked 0x2024 example_state = Some (example_block 0x2000)"
  by (simp_all add: find_block_locked_def om_floor_def om_upper_bound_def example_defs)

lemma example_words:
  "load_word (gc_mem example_state) 0x500 = 0x1020" "load_word (gc_mem example_state) 0x1028 = 0x2024"
  by (simp_all add: example_state_def new_gc_state_def load_store_apart)

lemma example_reachable:
  "example_block 0x1000 \<in> reachable env c example_state"
  "example_block 0x2000 \<in> reachable env c example_state"
proof -
  have "load_word (gc_mem example_state) 0x500 \<in> set (range_candidates (gc_mem example_state) 0x500 0x508)"
    by (rule range_candidate) simp_all
  then have "0x1020 \<in> set (root_candidates env c example_state)"
    by (simp add: example_words root_candidates_def) (simp add: example_state_def)
  from candidate_reachable [OF this example_find(1)]
  show 1: "example_block 0x1000 \<in> reachable env c example_state" .
  have "payload_words (gc_mem example_state) (example_block 0x1000) =
      map (load_word (gc_mem example_state)) [0x1020, 0x1028]"
    by (simp add: payload_words_def example_block_def upt_conv_Cons)
  then have "0x2024 \<in> set (payload_words (gc_mem example_state) (example_block 0x1000))"
    by (simp add: example_words)
  from reachable_step [OF 1 this example_find(2)]
  show "example_block 0x2000 \<in> reachable env c example_state" .
qed

section \<open>A state without roots and weak references\<close>

definition bare_state :: gc_state where
  "bare_state = example_state\<lparr>gc_weak_refs := [], gc_root_ranges := []\<rparr>"

lemma bare_state_run: "may_proceed c bare_state"
  by (simp add: bare_state_def may_proceed_def example_defs)

lemma bare_find: "find_block_locked x bare_state = find_block_locked x example_state"
  by (simp add: bare_state_def find_block_locked_def)

lemma bare_heap_inv: "heap_inv bare_state"
  using heap_inv_tables [of bare_state example_state] example_heap_inv by (simp add: bare_state_def)

lemma bare_can_collect: "can_collect 1 bare_state"
  using example_can_collect
  by (simp add: bare_state_def can_collect_def may_proceed_def thread_registered_def find_thread_state_locked_def others_paused_def)

lemma bare_roots: "roots_sim {#} Map.empty bare_state"
  by (simp add: roots_sim_def bare_state_def)

lemma bare_handles: "handles_sim ({}, Map.empty) bare_state"
  by (simp add: handles_sim_def handles_apart_def bare_state_def weak_inv_def)

text \<open>The handle of the weak reference at 0x600 holds the encoded address of the third block.\<close>

definition handle_state :: gc_state where
  "handle_state = put_word 0x600 (encode_weak_ptr 0x3020) example_state"

lemma handle_state_heap_inv: "heap_inv handle_state"
  using heap_inv_tables [of handle_state example_state] example_heap_inv
  by (simp add: handle_state_def put_word_def)

lemma handle_state_sim: "handles_sim ({0x600}, [0x600 \<mapsto> 0x3020]) handle_state"
  by (auto simp: handles_sim_def handles_apart_def handle_state_def example_state_def weak_inv_def
      weak_lookup_Cons get_put_word split: if_splits)

lemma handle_state_find: "find_block_locked 0x3020 handle_state = Some (example_block 0x3000)"
  by (simp add: handle_state_def find_block_locked_def om_floor_def om_upper_bound_def example_defs put_word_def)

text \<open>An allocator of buffers that has one buffer, given out while no root lies in it.\<close>

definition one_buffer :: new_buffer where
  "one_buffer n s =
     (if n \<le> 4 \<and> list_all (\<lambda>r. list_all (\<lambda>i. word_apart (rr_begin r) (slot 0x9000 i)) [0..<n]) (gc_root_ranges s)
      then Some 0x9000 else None)"

lemma one_buffer_apart: "buffers_apart one_buffer"
  unfolding buffers_apart_def
proof (intro allI impI conjI ballI)
  fix n s buf assume "one_buffer n s = Some buf"
  then have b: "n \<le> 4" "buf = 0x9000" "list_all (\<lambda>r. list_all (\<lambda>i. word_apart (rr_begin r) (slot 0x9000 i)) [0..<n]) (gc_root_ranges s)"
    by (auto simp: one_buffer_def split: if_splits)
  then show "buffer_ok buf n" by (simp add: buffer_ok_def)
  show "word_apart (rr_begin r) (slot buf i)" if "r \<in> set (gc_root_ranges s)" "i < n" for r i
    using b that by (simp add: list_all_iff)
qed

end
