(* ===== verification/Example_Threads.thy ===== *)
theory Example_Threads
  imports Interleaving Example_Heap
begin

text \<open>
  Concrete interleavings: a thread that is stopped in the middle of an allocation, and a thread that
  holds the world while another one, which is not registered, registers a root range.
\<close>

text \<open>The three kinds of step of a call, from wait to wait.\<close>

lemma call_waits:
  "interleaved E m (P, s) \<Longrightarrow> P u = None \<Longrightarrow> env \<in> E \<Longrightarrow> call env u c s = (Wait p k, s') \<Longrightarrow>
   interleaved E m (P(u := Some (Wait p k)), s')"
  by (erule interleaved.then_step [where u = u]) (rule thread_step.start, assumption+, simp)

lemma resume_waits:
  "interleaved E m (P, s) \<Longrightarrow> P u = Some (Wait p k) \<Longrightarrow> p s \<Longrightarrow> k s = (Wait p' k', s') \<Longrightarrow>
   interleaved E m (P(u := Some (Wait p' k')), s')"
  by (erule interleaved.then_step [where u = u]) (rule thread_step.resume, assumption+, simp)

lemma resume_ends:
  "interleaved E m (P, s) \<Longrightarrow> P u = Some (Wait p k) \<Longrightarrow> p s \<Longrightarrow> k s = (Return (), s') \<Longrightarrow>
   interleaved E m (P(u := None), s')"
  by (erule interleaved.then_step [where u = u]) (rule thread_step.resume, assumption+, simp)

lemma bindp_wait: "bindp (Wait p k, s) f = (Wait p (\<lambda>t. bindp (k t) f), s)"
  by (simp add: bindp_def bind_prog_Wait)

lemma catchp_wait: "catchp (Wait p k, s) h = (Wait p (\<lambda>t. catchp (k t) h), s)"
  by (simp add: catchp_def catch_prog_Wait)

lemma catchp_return: "catchp (Return x, s) h = (Return x, s)"
  by (simp add: catchp_def)

lemmas waits = bindp_wait catchp_wait catchp_return lock_mutex_def leave_def enter_def cv_wait_def
  cooperate_with_stop_the_world_locked_def may_proceed_def

lemma example_cooperates: "finalizers_cooperate example_env t"
  by (simp add: finalizers_cooperate_def kept_def ends_def)

lemma example_tidy: "finalizers_tidy example_env"
  by (simp add: finalizers_tidy_def)

lemma example_envs: "cooperative {example_env}" "well_behaved {example_env}"
  by (simp_all add: cooperative_def well_behaved_def example_cooperates example_tidy example_op_new)

definition one_thread :: gc_state where
  "one_thread = (new_gc_state (\<lambda>_. 0))\<lparr>gc_threads := [(1, new_ThreadState\<lparr>ts_stack_bottom := 0x8000\<rparr>)]\<rparr>"

lemma one_thread_registered: "interleaved {example_env} (\<lambda>_. 0) (\<lambda>_. None, one_thread)"
proof -
  let ?s = "new_gc_state (\<lambda>_. 0)"
  obtain p k where c: "call example_env 1 (Register_Stack_Bottom 0x8000) ?s = (Wait p k, ?s)"
    "p ?s" "k ?s = (Return (), one_thread)"
    by (simp add: register_stack_bottom_def waits)
      (simp add: new_gc_state_def one_thread_def find_thread_state_locked_def om_find_def om_adjust_def)
  have "interleaved {example_env} (\<lambda>_. 0) ((\<lambda>_. None)(1 := Some (Wait p k)), ?s)"
    by (rule call_waits [OF interleaved.begin_all _ _ c(1)]) simp_all
  then have "interleaved {example_env} (\<lambda>_. 0) ((\<lambda>_. None)(1 := Some (Wait p k), 1 := None), one_thread)"
    by (rule resume_ends [where p = p and k = k]) (simp_all add: c)
  moreover have "(\<lambda>_. None)(1 := Some (Wait p k), 1 := None) = (\<lambda>_. None)" by auto
  ultimately show ?thesis by simp
qed

definition holding :: gc_state where
  "holding = request_stop 1 one_thread"

lemma one_thread_holds:
  obtains P where "interleaved {example_env} (\<lambda>_. 0) (P, holding)" "P 2 = None"
proof -
  obtain p k p' k' where c: "call example_env 1 Live_Objects one_thread = (Wait p k, one_thread)"
    "p one_thread" "k one_thread = (Wait p' k', holding)"
    by (simp add: void_call_def live_objects_def with_stopped_world_def waits)
      (simp add: one_thread_def holding_def new_gc_state_def request_stop_def waits others_paused_def
        wait_for_other_threads_to_pause_locked_def release_stop_the_world_def)
  have "interleaved {example_env} (\<lambda>_. 0) ((\<lambda>_. None)(1 := Some (Wait p k)), one_thread)"
    by (rule call_waits [OF one_thread_registered _ _ c(1)]) simp_all
  then have "interleaved {example_env} (\<lambda>_. 0) ((\<lambda>_. None)(1 := Some (Wait p k), 1 := Some (Wait p' k')), holding)"
    by (rule resume_waits [where p = p and k = k]) (simp_all add: c)
  then show ?thesis by (rule that) simp
qed


lemma holding_stops: "holds 1 holding" "others_paused 1 holding"
  by (simp_all add: holding_def holds_def request_stop_def others_paused_def one_thread_def new_gc_state_def)

text \<open>Then thread 2, which is not registered, registers a root range, and waits for the stop to end.\<close>

definition ranged :: gc_state where
  "ranged = holding\<lparr>gc_root_ranges := [normal_range 64 128]\<rparr>"

lemma holding_refuses: "\<not> may_proceed 2 holding" "\<not> may_proceed 2 ranged" "\<not> thread_registered 2 holding"
    "\<not> thread_registered 2 ranged" "gc_root_ranges holding = []"
  by (simp_all add: ranged_def holding_def request_stop_def may_proceed_def one_thread_def new_gc_state_def
      thread_registered_def find_thread_state_locked_def om_find_def)

lemma unregistered_thread_steps:
  obtains P P' where "interleaved {example_env} (\<lambda>_. 0) (P, holding)"
    "thread_step {example_env} 2 (P, holding) (P', ranged)"
proof -
  obtain P where P: "interleaved {example_env} (\<lambda>_. 0) (P, holding)" "P 2 = None" by (rule one_thread_holds)
  let ?m = "call example_env 2 (Register_Root_Range 64 128) holding"
  let ?k = "\<lambda>s. cooperate_with_stop_the_world_locked example_env 2
      (s\<lparr>gc_root_ranges := gc_root_ranges s @ [normal_range 64 128]\<rparr>)"
  have c: "?m = (Wait (\<lambda>_. True) ?k, holding)"
    by (simp add: register_root_range_def lock_mutex_def bindp_wait)
  have r: "?k holding = (Wait (may_proceed 2) (\<lambda>t. (Return (), t)), ranged)"
    using holding_refuses by (simp add: cooperate_with_stop_the_world_locked_def cv_wait_def ranged_def)
  have "thread_step {example_env} 2 (P(2 := Some (Wait (\<lambda>_. True) ?k)), holding)
      (P(2 := Some (Wait (\<lambda>_. True) ?k), 2 := Some (Wait (may_proceed 2) (\<lambda>t. (Return (), t)))), ranged)"
    by (rule thread_step.resume [where p = "\<lambda>_. True" and k = ?k], simp, simp, rule r, rule next_prog.simps)
  then show ?thesis by (rule that [rotated]) (rule call_waits [OF P _ c], simp)
qed

text \<open>The same thread at a safepoint: it waits for the stop to end.\<close>

lemma thread_waits_for_stop:
  obtains P p k where "interleaved {example_env} (\<lambda>_. 0) (P, holding)" "P 2 = Some (Wait p k)" "\<not> p holding"
proof -
  obtain P where P: "interleaved {example_env} (\<lambda>_. 0) (P, holding)" "P 2 = None" by (rule one_thread_holds)
  let ?k = "cooperate_with_stop_the_world_locked example_env 2"
  have c: "call example_env 2 Safepoint holding = (Wait (\<lambda>_. True) ?k, holding)"
    by (simp add: safepoint_def enter_def lock_mutex_def bindp_wait)
  have r: "?k holding = (Wait (may_proceed 2) (\<lambda>t. (Return (), t)), holding)"
    using holding_refuses by (simp add: cooperate_with_stop_the_world_locked_def cv_wait_def)
  have "interleaved {example_env} (\<lambda>_. 0) (P(2 := Some (Wait (\<lambda>_. True) ?k)), holding)"
    by (rule call_waits [OF P _ c]) simp
  moreover have "thread_step {example_env} 2 (P(2 := Some (Wait (\<lambda>_. True) ?k)), holding)
      (P(2 := Some (Wait (\<lambda>_. True) ?k), 2 := Some (Wait (may_proceed 2) (\<lambda>t. (Return (), t)))), holding)"
    by (rule thread_step.resume [where p = "\<lambda>_. True" and k = ?k], simp, simp, rule r, rule next_prog.simps)
  ultimately have "interleaved {example_env} (\<lambda>_. 0)
      (P(2 := Some (Wait (\<lambda>_. True) ?k), 2 := Some (Wait (may_proceed 2) (\<lambda>t. (Return (), t)))), holding)"
    by (rule interleaved.then_step)
  then show ?thesis
  proof (rule that)
    show "(P(2 := Some (Wait (\<lambda>_. True) ?k), 2 := Some (Wait (may_proceed 2) (\<lambda>t. (Return (), t))))) 2 =
      Some (Wait (may_proceed 2) (\<lambda>t. (Return (), t)))" by simp
    show "\<not> may_proceed 2 holding" by (rule holding_refuses)
  qed
qed

text \<open>A thread between the two critical sections of \<open>malloc_internal\<close>, with memory that is its own.\<close>

definition allocating :: gc_state where
  "allocating = init_header 0x100000 24 None 32 16 (one_thread\<lparr>gc_regions := (0x100000, 56) # gc_regions one_thread\<rparr>)"

lemma example_request:
  "has_single_bit 8" "normalize_alignment 8 = 16" "round_up_to_alignment 32 16 = Some 32"
  "\<not> add_would_overflow 32 24" "e_op_new example_env one_thread 56 16 = Some 0x100000"
  "thread_registered 1 one_thread" "may_proceed 1 one_thread"
  by (simp_all add: has_single_bit_def upt_conv_Cons bit_simps normalize_alignment_def round_up_to_alignment_def add_would_overflow_def
      example_env_def one_thread_def new_gc_state_def region_free_def thread_registered_def may_proceed_def
      find_thread_state_locked_def om_find_def)

lemma one_thread_allocates:
  obtains P where "interleaved {example_env} (\<lambda>_. 0) (P, allocating)" "P 2 = None"
proof -
  let ?c = "call example_env 1 (Malloc 24 8 None False)"
  obtain p k p2 k2 p3 k3 where c: "?c one_thread = (Wait p k, one_thread)" "p one_thread"
    "k one_thread = (Wait p2 k2, one_thread)" "p2 one_thread" "k2 one_thread = (Wait p3 k3, allocating)"
    using example_request
    by (simp add: void_call_def malloc_internal_def waits require_registered_thread_locked_def)
      (simp add: allocate_raw_def operator_new_def publish_block_def waits allocating_def)
  have "interleaved {example_env} (\<lambda>_. 0) ((\<lambda>_. None)(1 := Some (Wait p k)), one_thread)"
    by (rule call_waits [OF one_thread_registered _ _ c(1)]) simp_all
  then have "interleaved {example_env} (\<lambda>_. 0) ((\<lambda>_. None)(1 := Some (Wait p k), 1 := Some (Wait p2 k2)), one_thread)"
    by (rule resume_waits [where p = p and k = k]) (simp_all add: c)
  then have "interleaved {example_env} (\<lambda>_. 0)
      ((\<lambda>_. None)(1 := Some (Wait p k), 1 := Some (Wait p2 k2), 1 := Some (Wait p3 k3)), allocating)"
    by (rule resume_waits [where p = p2 and k = k2]) (simp_all add: c)
  then show ?thesis by (rule that) simp
qed

end
