(* ===== verification/Demo_Program.thy ===== *)
theory Demo_Program
  imports Manager_Instance Root_Handles Construction
begin

text \<open>
  The demonstration program \<open>src/main.cpp\<close>: a rooted list of two nodes, an unreachable cycle of two
  more, and collections between them. Its named locals are words of the stack at the addresses of
  a \<open>demo_frame\<close>; the compiler's temporaries are not modelled. The example
  \<open>examples/quick_start.cpp\<close> builds the same list, of messages that have the layout of the nodes.
\<close>

section \<open>Nodes\<close>

text \<open>
  \<open>Node\<close> is a \<open>gc_ptr\<close>, \<open>next\<close>, and a \<open>std::string\<close>, \<open>label\<close>. The string of libstdc++ is a pointer, a
  length and a buffer of 16 bytes; a label of at most 15 characters lies in the buffer and the
  pointer points to it.
\<close>

definition sizeof_Node :: size_t where
  "sizeof_Node = 40"

definition alignof_Node :: size_t where
  "alignof_Node = 8"

text \<open>The destructor the instance \<open>gc_new<Node>\<close> stores.\<close>

definition node_destructor :: DestructorFn where
  "node_destructor = 1"

definition pack_chars :: "string \<Rightarrow> u64" where
  "pack_chars cs = foldr (\<lambda>ch w. push_bit 8 w OR of_char ch) cs 0"

definition put_string :: "addr \<Rightarrow> string \<Rightarrow> gc_state \<Rightarrow> gc_state" where
  "put_string this cs s =
     put_word (this + 24) (pack_chars (drop 8 cs))
       (put_word (this + 16) (pack_chars (take 8 cs))
         (put_word (this + 8) (of_nat (length cs))
           (put_word this (this + 16) s)))"

definition get_string :: "addr \<Rightarrow> gc_state \<Rightarrow> string" where
  "get_string this s =
     (let data = get_word this s in
      map (\<lambda>i. char_of (unat (gc_mem s (data + of_nat i)))) [0..<unat (get_word (this + 8) s)])"

definition Node_construct :: "string \<Rightarrow> addr \<Rightarrow> unit gc" where
  "Node_construct label_value this s = (Return (), put_string (this + 8) label_value (put_word this 0 s))"

text \<open>\<open>~Node\<close> prints its label and destroys its members, for which there is nothing to do.\<close>

definition Node_destroy :: "addr \<Rightarrow> unit gc" where
  "Node_destroy this s = (Return (), s)"

definition gc_new_Node :: "gc_env \<Rightarrow> tid \<Rightarrow> string \<Rightarrow> gc_ptr gc" where
  "gc_new_Node env current label_value s =
     gc_new env current sizeof_Node alignof_Node node_destructor (Node_construct label_value) s"

section \<open>The output\<close>

text \<open>
  The lines of \<open>std::cout\<close>. What destructors print in a call is read off the finalizers the call ran,
  with the labels their nodes had before it.
\<close>

datatype demo_line =
    Blocks_Line string size_t
  | Destroying_Line string
  | Snapshot_Line dump_line
  | Unreachable_Line

fun destroying :: "gc_state \<Rightarrow> event \<Rightarrow> demo_line list" where
  "destroying s (Finalized d this) = [Destroying_Line (get_string (this + 8) s)]"
| "destroying s e = []"

definition printing :: "'a gc \<Rightarrow> ('a \<times> demo_line list) gc" where
  "printing m s =
     bindp (m s) (\<lambda>x t. (Return (x, concat (map (destroying s) (drop (length (gc_events s)) (gc_events t)))), t))"

text \<open>Sequencing of calls that print.\<close>

definition then_print ::
    "(gc_state, 'a \<times> demo_line list) prog \<times> gc_state \<Rightarrow> ('a \<Rightarrow> ('b \<times> demo_line list) gc) \<Rightarrow>
     (gc_state, 'b \<times> demo_line list) prog \<times> gc_state" where
  "then_print m f =
     bindp m (\<lambda>(x, ls) s. bindp (f x s) (\<lambda>(y, ls') s. (Return (y, ls @ ls'), s)))"

section \<open>The program\<close>

record demo_frame =
  df_root :: addr
  df_alpha :: addr
  df_beta :: addr
  df_noise :: addr

definition noise_at :: "demo_frame \<Rightarrow> nat \<Rightarrow> addr" where
  "noise_at fr i = df_noise fr + 8 * of_nat i"

definition scrub_stack :: "demo_frame \<Rightarrow> (unit \<times> demo_line list) gc" where
  "scrub_stack fr s =
     (let s = s\<lparr>gc_mem := memset_zero (gc_mem s) (df_noise fr) 2048\<rparr>;
          s = fold (\<lambda>index. put_word (noise_at fr index) (of_nat index)) [0..<256] s;
          sink = fold (\<lambda>index sink. sink XOR get_word (noise_at fr index) s) [0..<256] 0
      in (Return ((), if sink = size_max then [Unreachable_Line] else []), s))"

definition build_unreachable_cycle :: "gc_env \<Rightarrow> tid \<Rightarrow> demo_frame \<Rightarrow> unit gc" where
  "build_unreachable_cycle env current fr s =
     bindp (gc_new_Node env current ''alpha'' s) (\<lambda>alpha s.
       let s = put_word (df_alpha fr) (gc_ptr_get alpha) s in
     bindp (gc_new_Node env current ''beta'' s) (\<lambda>beta s.
       let s = put_word (df_beta fr) (gc_ptr_get beta) s;
           s = put_word (gc_ptr_arrow alpha) (gc_ptr_get beta) s;
           s = put_word (gc_ptr_arrow beta) (gc_ptr_get alpha) s
       in (Return (), s)))"

definition print_block_count :: "gc_env \<Rightarrow> tid \<Rightarrow> string \<Rightarrow> (unit \<times> demo_line list) gc" where
  "print_block_count env current txt s =
     bindp (managed_block_count env current s) (\<lambda>n s. (Return ((), [Blocks_Line txt n]), s))"

definition main_root :: "gc_env \<Rightarrow> tid \<Rightarrow> demo_frame \<Rightarrow> unit gc" where
  "main_root env current fr s =
     bindp (gc_new_Node env current ''root'' s) (\<lambda>p s.
     bindp (gc_root_from_ptr env current (df_root fr) p s) (\<lambda>_ s.
     bindp (gc_new_Node env current ''child'' s) (\<lambda>child s.
     bindp (gc_root_arrow (df_root fr) s) (\<lambda>this s.
       (Return (), put_word this (gc_ptr_get child) s)))))"

definition demo_body :: "gc_env \<Rightarrow> tid \<Rightarrow> demo_frame \<Rightarrow> (unit \<times> demo_line list) gc" where
  "demo_body env current fr s =
     then_print (printing (main_root env current fr) s) (\<lambda>_ s.
     then_print (print_block_count env current ''Managed blocks before collection: '' s) (\<lambda>_ s.
     then_print (printing (collect env current) s) (\<lambda>_ s.
     then_print (print_block_count env current ''Managed blocks with a root on the stack: '' s) (\<lambda>_ s.
     then_print (printing (build_unreachable_cycle env current fr) s) (\<lambda>_ s.
     then_print (scrub_stack fr s) (\<lambda>_ s.
     then_print (printing (collect env current) s) (\<lambda>_ s.
     then_print (print_block_count env current ''Managed blocks after reclaiming an unreachable cycle: '' s) (\<lambda>_ s.
     then_print (bindp (dump_heap env current s) (\<lambda>snapshot s. (Return ((), map Snapshot_Line snapshot), s))) (\<lambda>_ s.
     then_print (printing (gc_root_reset (df_root fr) 0) s) (\<lambda>_ s.
     then_print (scrub_stack fr s) (\<lambda>_ s.
     then_print (printing (collect env current) s) (\<lambda>_ s.
     then_print (print_block_count env current ''Managed blocks after dropping every root: '' s) (\<lambda>_ s.
     then_print (printing (shutdown env current) s) (\<lambda>_ s.
       printing (gc_root_destroy env current (df_root fr)) s))))))))))))))"

text \<open>An exception that leaves \<open>main\<close> ends the process.\<close>

definition demo_main :: "gc_env \<Rightarrow> tid \<Rightarrow> demo_frame \<Rightarrow> process \<Rightarrow> (gc_state, unit \<times> demo_line list) prog \<times> gc_state" where
  "demo_main env current fr p =
     noexceptp (then_print (printing (\<lambda>_. gc_register_current_thread env current p) (manager_instance p))
       (\<lambda>_. demo_body env current fr))"

section \<open>The quick start\<close>

text \<open>
  The locals are a root and nothing else; the texts it prints are those of the first two messages.
  The destructor of a message prints nothing.
\<close>

definition quick_start :: "gc_env \<Rightarrow> tid \<Rightarrow> demo_frame \<Rightarrow> process \<Rightarrow> (gc_state, string list) prog \<times> gc_state" where
  "quick_start env current fr p =
     noexceptp
       (bindp (gc_register_current_thread env current p) (\<lambda>_ s.
        bindp (main_root env current fr s) (\<lambda>_ s.
        bindp (collect env current s) (\<lambda>_ s.
        bindp (gc_root_arrow (df_root fr) s) (\<lambda>head s.
          let texts = [get_string (head + 8) s, get_string (get_word head s + 8) s] in
        bindp (gc_root_reset (df_root fr) 0 s) (\<lambda>_ s.
        bindp (collect env current s) (\<lambda>_ s.
        bindp (shutdown env current s) (\<lambda>_ s.
        bindp (gc_root_destroy env current (df_root fr) s) (\<lambda>_ s. (Return texts, s))))))))))"

end
