(* ===== verification/Demo_Heap.thy ===== *)
theory Demo_Heap
  imports Demo_Program
begin

text \<open>
  The memory of the demonstration program, as two maps: the words outside the heap that hold heap
  addresses, and the nodes of the heap with their \<open>next\<close> and label. The lemmas follow them
  through stores, the construction of a node, the scrubbing of the stack, and a collection.
\<close>

section \<open>Words at aligned addresses\<close>

definition aligned :: "addr \<Rightarrow> bool" where
  "aligned a \<longleftrightarrow> unat a mod 8 = 0"

lemma aligned_diff: "aligned a \<Longrightarrow> aligned b \<Longrightarrow> aligned (a - b)"
proof -
  assume "aligned a" "aligned b"
  then have d: "8 dvd unat a" "8 dvd unat b" by (simp_all add: aligned_def mod_eq_0_iff_dvd)
  then have "8 dvd unat a + 2 ^ 64 - unat b" "8 dvd unat a - unat b"
    by (simp_all add: dvd_diff_nat)
  then show ?thesis by (simp add: aligned_def unat_sub_if' mod_eq_0_iff_dvd)
qed

lemma aligned_add: "aligned a \<Longrightarrow> aligned b \<Longrightarrow> aligned (a + b)"
  using aligned_diff [of a "0 - b"] aligned_diff [of 0 b] by (simp add: aligned_def)

lemma aligned_step: "aligned a \<Longrightarrow> aligned (a + 8)" "aligned a \<Longrightarrow> aligned (a + 16)"
  "aligned a \<Longrightarrow> aligned (a + 24)" "aligned a \<Longrightarrow> aligned (a + 32)"
  by (rule aligned_add; simp add: aligned_def)+

lemma aligned_apart:
  assumes "aligned a" "aligned b" "a \<noteq> b"
  shows "word_apart a b"
proof -
  have "8 \<le> x - y" if "aligned x" "aligned y" "x \<noteq> y" for x y :: addr
  proof -
    have "unat (x - y) mod 8 = 0" using aligned_diff [OF that(1,2)] by (simp add: aligned_def)
    moreover have "unat (x - y) \<noteq> 0" using that(3) by (simp add: unat_eq_0)
    ultimately show ?thesis by (simp add: word_le_nat_alt) presburger
  qed
  with assms show ?thesis by (simp add: word_apart_def)
qed

lemma get_put_aligned:
  "aligned a \<Longrightarrow> aligned b \<Longrightarrow> get_word a (put_word b v s) = (if a = b then v else get_word a s)"
  using aligned_apart by (intro get_put_word) blast

lemma load_memset_outside:
  assumes "aligned (a - p)" "aligned n" "\<not> a - p < n"
  shows "load_word (memset_zero m p n) a = load_word m a"
proof (rule bit_word_eqI)
  fix k assume "k < LENGTH(64)"
  then have i: "k div 8 < 8" by simp
  have d: "unat (a - p) mod 8 = 0" using assms(1) by (simp add: aligned_def)
  then obtain q where q: "unat (a - p) = 8 * q" by (auto simp: mod_eq_0_iff_dvd elim: dvdE)
  then have "q < 2305843009213693952" using unat_less_64 [of "a - p"] by simp
  then have le: "unat (a - p) + k div 8 < 2 ^ 64" using i q by simp
  have "unat (a - p + of_nat (k div 8)) = unat (a - p) + k div 8"
    using le i of_nat_small_less [of "k div 8"] by (simp add: unat_word_ariths)
  then have "\<not> (a - p) + of_nat (k div 8) < n" using assms(3) by (simp add: word_less_nat_alt)
  then have "\<not> a + of_nat (k div 8) - p < n" by (simp add: algebra_simps)
  then show "bit (load_word (memset_zero m p n) a) k \<longleftrightarrow> bit (load_word m a) k"
    by (simp add: bit_load_word memset_zero_def)
qed

lemma get_memset:
  assumes "aligned a" "aligned p" "aligned n" "gc_mem t = memset_zero (gc_mem s) p n"
  shows "get_word a t = (if a - p < n then 0 else get_word a s)"
proof (cases "a - p < n")
  case True
  have d: "aligned (a - p)" using assms by (simp add: aligned_diff)
  have u: "unat (n - (a - p)) = unat n - unat (a - p)" using True by (simp add: unat_sub less_imp_le)
  have "unat (a - p) mod 8 = 0" "unat n mod 8 = 0" "unat (a - p) < unat n"
    using d assms(3) True by (simp_all add: aligned_def word_less_nat_alt)
  then have "8 \<le> unat n - unat (a - p)" by presburger
  then have "8 \<le> n - (a - p)" using u by (simp add: word_le_nat_alt)
  with True show ?thesis by (simp add: get_word_def assms(4) load_memset_inside)
next
  case False
  with assms show ?thesis by (simp add: get_word_def load_memset_outside aligned_diff)
qed

lemma load_word_byte:
  assumes "i < 8"
  shows "m (a + of_nat i) = ucast (drop_bit (8 * i) (load_word m a))"
proof (rule bit_word_eqI)
  fix n assume "n < LENGTH(8)"
  then have "8 * i + n < 64" "(8 * i + n) div 8 = i" "(8 * i + n) mod 8 = n" using assms by simp_all
  with \<open>n < LENGTH(8)\<close> show "bit (m (a + of_nat i)) n = bit (ucast (drop_bit (8 * i) (load_word m a)) :: byte) n"
    by (simp add: bit_simps bit_load_word)
qed

text \<open>A label of at most eight characters, read back from the words of its string.\<close>

definition unpack_chars :: "nat \<Rightarrow> u64 \<Rightarrow> string" where
  "unpack_chars n w = map (\<lambda>i. char_of (unat (ucast (drop_bit (8 * i) w) :: byte))) [0..<n]"

lemma get_string_words:
  assumes "get_word a s = d" "get_word (a + 8) s = of_nat n" "n \<le> 8" "get_word d s = w"
  shows "get_string a s = unpack_chars n w"
proof -
  have "unat (of_nat n :: u64) = n" using assms(3) by (simp add: unat_of_nat)
  moreover have "gc_mem s (d + of_nat i) = ucast (drop_bit (8 * i) w)" if "i < n" for i
    using load_word_byte [of i "gc_mem s" d] that assms(3,4) by (simp add: get_word_def)
  ultimately show ?thesis using assms by (simp add: get_string_def unpack_chars_def)
qed

section \<open>The heap of nodes\<close>

text \<open>
  What the program relies on of its surroundings. \<open>H\<close> is the set of heap addresses: the allocator
  stays inside it, has memory for four nodes and nothing else, and the registers, the small numbers and the
  scanned part of the stack and of the images lie outside. The locals of the cycle lie in the part
  of the stack that \<open>scrub_stack\<close> overwrites.
\<close>

definition global_addrs :: "gc_env \<Rightarrow> addr list" where
  "global_addrs env =
     concat (map (\<lambda>img. concat (map (\<lambda>sg. word_addrs (dlpi_addr img + p_vaddr sg)
         (dlpi_addr img + p_vaddr sg + p_memsz sg))
       (filter (segment_scanned (dlpi_addr img)) (dlpi_phdr img)))) (e_images env))"

definition demo_stack_bottom :: "gc_env \<Rightarrow> addr" where
  "demo_stack_bottom env = (case e_pthread_stack env of None \<Rightarrow> 0 | Some (stack_base, stack_size) \<Rightarrow> stack_base + stack_size)"

definition small_word :: "u64 \<Rightarrow> bool" where
  "small_word w \<longleftrightarrow> w < 2 ^ 40"

text \<open>All memory in use is that of nodes: a header of 32 bytes and a payload of 40.\<close>

definition node_regions :: "gc_env \<Rightarrow> gc_state \<Rightarrow> bool" where
  "node_regions env s \<longleftrightarrow>
     (\<forall>r\<in>set (gc_regions s). snd r = 72 \<and> (\<exists>u. e_op_new env u 72 16 = Some (fst r)))"

definition demo_world :: "gc_env \<Rightarrow> addr set \<Rightarrow> bool" where
  "demo_world env H \<longleftrightarrow>
     \<not> out_of_memory env \<and> op_new_ok env \<and> e_finalize env = (\<lambda>d. Node_destroy) \<and>
     (\<forall>s n al a x. e_op_new env s n al = Some a \<longrightarrow> x - a < n \<longrightarrow> x \<in> H) \<and>
     (\<forall>s. length (gc_regions s) < 4 \<longrightarrow> node_regions env s \<longrightarrow> e_op_new env s 72 16 \<noteq> None) \<and>
     set (e_registers env) \<inter> H = {} \<and> (\<forall>w\<in>H. \<not> small_word w) \<and>
     (\<exists>base n. e_pthread_stack env = Some (base, n) \<and> base \<noteq> 0 \<and> n \<noteq> 0) \<and>
     demo_stack_bottom env \<noteq> 0 \<and>
     set (word_addrs (e_stack_marker env) (demo_stack_bottom env)) \<inter> H = {} \<and>
     set (global_addrs env) \<inter> H = {}"

definition frame_ok :: "demo_frame \<Rightarrow> addr set \<Rightarrow> bool" where
  "frame_ok fr H \<longleftrightarrow>
     root_slot (df_root fr) \<and> df_root fr \<notin> H \<and> aligned (df_noise fr) \<and>
     (\<forall>i<256. noise_at fr i \<notin> H \<and> noise_at fr i \<noteq> df_root fr) \<and>
     (\<exists>i<256. df_alpha fr = noise_at fr i) \<and> (\<exists>i<256. df_beta fr = noise_at fr i)"

text \<open>The block of a node at \<open>p\<close>, and the words of the node.\<close>

definition node_block :: "addr \<Rightarrow> BlockRecord" where
  "node_block p = block_at (p - 32) 32 40 False"

lemma node_block_sel [simp]:
  "br_header (node_block p) = p - 32" "br_payload_begin (node_block p) = p"
  "br_payload_end (node_block p) = p + 40" "\<not> br_constructing (node_block p)"
  by (simp_all add: node_block_def block_at_def)

lemma node_block_inj [simp]: "node_block p = node_block q \<longleftrightarrow> p = q"
  using node_block_sel(2) by metis

definition label_ok :: "string \<Rightarrow> bool" where
  "label_ok l \<longleftrightarrow> length l \<le> 8 \<and> small_word (pack_chars l) \<and> unpack_chars (length l) (pack_chars l) = l"

lemma label_ok_labels [simp]:
  "label_ok ''root''" "label_ok ''child''" "label_ok ''alpha''" "label_ok ''beta''"
proof -
  have "unpack_chars (length ''root'') (pack_chars ''root'') = ''root''" "unpack_chars (length ''child'') (pack_chars ''child'') = ''child''"
    "unpack_chars (length ''alpha'') (pack_chars ''alpha'') = ''alpha''" "unpack_chars (length ''beta'') (pack_chars ''beta'') = ''beta''"
    by code_simp+
  moreover have "small_word (pack_chars ''root'')" "small_word (pack_chars ''child'')"
    "small_word (pack_chars ''alpha'')" "small_word (pack_chars ''beta'')"
    by code_simp+
  ultimately show "label_ok ''root''" "label_ok ''child''" "label_ok ''alpha''" "label_ok ''beta''"
    by (simp_all add: label_ok_def)
qed

definition node_at :: "gc_state \<Rightarrow> addr \<Rightarrow> addr \<Rightarrow> string \<Rightarrow> bool" where
  "node_at s p next_p l \<longleftrightarrow>
     aligned p \<and> label_ok l \<and> get_word p s = next_p \<and> get_word (p + 8) s = p + 24 \<and>
     get_word (p + 16) s = of_nat (length l) \<and> get_word (p + 24) s = pack_chars l \<and>
     get_word (p + 32) s = 0"

text \<open>
  \<open>L\<close> holds the words outside the heap that hold heap addresses, and \<open>N\<close> the nodes, by
  address, with \<open>next\<close> and label.
\<close>

definition locals_ok :: "addr set \<Rightarrow> (addr \<rightharpoonup> addr) \<Rightarrow> gc_state \<Rightarrow> bool" where
  "locals_ok H L s \<longleftrightarrow>
     (\<forall>a. aligned a \<longrightarrow> a \<notin> H \<longrightarrow> get_word a s \<in> H \<longrightarrow> L a = Some (get_word a s)) \<and>
     (\<forall>a v. L a = Some v \<longrightarrow> aligned a \<and> a \<notin> H \<and> get_word a s = v)"

definition nodes_ok :: "addr set \<Rightarrow> (addr \<rightharpoonup> addr \<times> string) \<Rightarrow> gc_state \<Rightarrow> bool" where
  "nodes_ok H N s \<longleftrightarrow>
     finite (dom N) \<and> blocks s = node_block ` dom N \<and>
     distinct (map fst (gc_regions s)) \<and> fst ` set (gc_regions s) = (\<lambda>p. p - 32) ` dom N \<and>
     (\<forall>p next_p l. N p = Some (next_p, l) \<longrightarrow> node_at s p next_p l \<and>
        ch_destructor (gc_headers s (p - 32)) = Some node_destructor \<and> p \<noteq> 32 \<and>
        (next_p \<in> H \<longrightarrow> next_p \<in> dom N) \<and> (\<forall>x. x - p < 40 \<longrightarrow> x \<in> H))"

definition idle :: "gc_env \<Rightarrow> tid \<Rightarrow> gc_state \<Rightarrow> bool" where
  "idle env c s \<longleftrightarrow>
     gc_threads s = [(c, new_ThreadState\<lparr>ts_stack_bottom := demo_stack_bottom env\<rparr>)] \<and>
     \<not> gc_stop_the_world_requested s \<and> \<not> gc_collecting s \<and> gc_collector_thread s = no_thread \<and>
     gc_weak_refs s = [] \<and> gc_collection_threshold_bytes s = 10 * 1024 * 1024 \<and> node_regions env s"

definition demo_state ::
    "gc_env \<Rightarrow> addr set \<Rightarrow> tid \<Rightarrow> RootRange list \<Rightarrow> (addr \<rightharpoonup> addr) \<Rightarrow> (addr \<rightharpoonup> addr \<times> string) \<Rightarrow> gc_state \<Rightarrow> bool" where
  "demo_state env H c rs L N s \<longleftrightarrow>
     heap_inv s \<and> idle env c s \<and> gc_root_ranges s = rs \<and> locals_ok H L s \<and> nodes_ok H N s"

lemma idle_ready:
  assumes "idle env c s" "demo_world env H"
  shows "may_proceed c s" "thread_registered c s" "can_collect c s" "others_paused c s"
  using assms
  by (simp_all add: idle_def demo_world_def may_proceed_def thread_registered_def find_thread_state_locked_def
      om_find_def can_collect_def others_paused_def new_ThreadState_def)

lemma small_not_heap: "demo_world env H \<Longrightarrow> small_word w \<Longrightarrow> w \<notin> H"
  by (auto simp: demo_world_def)

lemma nodes_okD:
  assumes "nodes_ok H N s" "N p = Some (nx, l)"
  shows "node_at s p nx l" "ch_destructor (gc_headers s (p - 32)) = Some node_destructor" "p \<noteq> 32"
    "nx \<in> H \<Longrightarrow> nx \<in> dom N" "x - p < 40 \<Longrightarrow> x \<in> H" "node_block p \<in> blocks s"
  using assms unfolding nodes_ok_def by blast+

lemma interval_iff:
  assumes "unat (p + 40 :: u64) = unat p + 40"
  shows "x - p < 40 \<longleftrightarrow> p \<le> x \<and> x < p + 40"
proof -
  have "unat p + 40 < 18446744073709551616" using unat_less_64 [of "p + 40"] assms by simp
  then show ?thesis
    using assms by (auto simp: word_less_nat_alt word_le_nat_alt unat_sub_if' split: if_splits)
qed

lemma node_bounds:
  assumes "nodes_ok H N s" "index_inv s" "p \<in> dom N"
  shows "unat (p + 40) = unat p + 40" "x - p < 40 \<longleftrightarrow> p \<le> x \<and> x < p + 40" "p \<in> H"
proof -
  obtain nx l where N: "N p = Some (nx, l)" using assms(3) by auto
  note n = nodes_okD [OF assms(1) N]
  have "block_ok (gc_headers s) (br_payload_begin (node_block p), node_block p)"
    using n(6) assms(2) blocks_iff index_inv_block_ok by blast
  then have "p < p + 40" using block_ok_bounds(2) by fastforce
  then show u: "unat (p + 40) = unat p + 40"
    using unat_less_64 [of p] by (simp add: word_less_nat_alt unat_word_ariths mod_if split: if_splits)
  show "x - p < 40 \<longleftrightarrow> p \<le> x \<and> x < p + 40" by (rule interval_iff [OF u])
  show "p \<in> H" using n(5) [of p] by simp
qed

lemma node_find:
  assumes "nodes_ok H N s" "index_inv s"
  shows "x \<notin> H \<Longrightarrow> find_block_locked x s = None"
    and "p \<in> dom N \<Longrightarrow> x - p < 40 \<Longrightarrow> find_block_locked x s = Some (node_block p)"
    and "p \<in> dom N \<Longrightarrow> find_block_locked p s = Some (node_block p)"
proof -
  have b: "blocks s = node_block ` dom N" using assms(1) by (simp add: nodes_ok_def)
  show *: "find_block_locked x s = Some (node_block p)" if "p \<in> dom N" "x - p < 40" for p x
    using that node_bounds(2) [OF assms that(1), of x] find_block_iff [OF assms(2)] by (simp add: b)
  show "find_block_locked p s = Some (node_block p)" if "p \<in> dom N" for p using * [OF that, of p] by simp
  show "find_block_locked x s = None" if "x \<notin> H"
  proof (cases "find_block_locked x s")
    case (Some y)
    then obtain q where q: "q \<in> dom N" "y = node_block q" "q \<le> x" "x < q + 40"
      using find_block_iff [OF assms(2), of x y] by (simp add: b) (metis (no_types, lifting) imageE node_block_sel(2,3))
    then have "x - q < 40" using node_bounds(2) [OF assms q(1)] by simp
    moreover obtain nx l where "N q = Some (nx, l)" using q(1) by auto
    ultimately show ?thesis using nodes_okD(5) [OF assms(1)] that by blast
  qed simp
qed

lemma node_payload_words:
  assumes "nodes_ok H N s" "index_inv s" "N p = Some (nx, l)"
  shows "payload_words (gc_mem s) (node_block p) = [nx, p + 24, of_nat (length l), pack_chars l, 0]"
proof -
  have u: "unat (p + 40) = unat p + 40" using node_bounds(1) [OF assms(1,2)] assms(3) by blast
  have "[0..<5] = [0, 1, 2, 3, 4 :: nat]" by (simp add: upt_conv_Cons)
  then show ?thesis
    using nodes_okD(1) [OF assms(1,3)] u by (simp add: payload_words_def node_at_def get_word_def)
qed

lemma node_refs:
  assumes "demo_world env H" "nodes_ok H N s" "index_inv s" "N p = Some (nx, l)"
  shows "refs s (node_block p) = node_block ` ({p} \<union> ({nx} \<inter> dom N))"
proof -
  have l: "label_ok l" using nodes_okD(1) [OF assms(2,4)] by (simp add: node_at_def)
  have p: "p \<in> dom N" using assms(4) by blast
  have out: "find_block_locked w s = None" if "small_word w" for w
    using small_not_heap [OF assms(1) that] node_find(1) [OF assms(2,3)] by blast
  have none: "find_block_locked (pack_chars l) s = None" "find_block_locked 0 s = None"
    "find_block_locked (of_nat (length l)) s = None"
    using l by (auto intro!: out simp: label_ok_def small_word_def word_less_nat_alt unat_of_nat)
  have self: "find_block_locked (p + 24) s = Some (node_block p)"
    using node_find(2) [OF assms(2,3) p, of "p + 24"] by simp
  have "find_block_locked nx s = (if nx \<in> dom N then Some (node_block nx) else None)"
    using node_find(1,3) [OF assms(2,3), of nx] nodes_okD(4) [OF assms(2,4)] by (cases "nx \<in> H") auto
  then show ?thesis
    using none self by (auto simp: refs_def targets_def node_payload_words [OF assms(2-4)] split: if_splits)
qed

lemma global_candidates_addrs: "global_candidates env m = map (load_word m) (global_addrs env)"
  by (simp add: global_candidates_def global_addrs_def image_candidates_def [abs_def] range_candidates_def map_concat comp_def)

text \<open>Only the locals make roots.\<close>

lemma aligned_word_addrs: "a \<in> set (word_addrs b e) \<Longrightarrow> aligned a"
  using set_word_addrs [of b e a] by (cases "b = 0 \<or> e = 0") (auto simp: aligned_def, auto simp: word_addrs_def)

section \<open>Collections\<close>

lemma demo_stateD:
  assumes "demo_state env H c rs L N s"
  shows "heap_inv s" "index_inv s" "idle env c s" "gc_root_ranges s = rs" "locals_ok H L s" "nodes_ok H N s"
    "blocks s = node_block ` dom N"
proof -
  show "heap_inv s" "idle env c s" "gc_root_ranges s = rs" "locals_ok H L s" and n: "nodes_ok H N s"
    using assms by (simp_all add: demo_state_def)
  then show "index_inv s" by (simp add: heap_inv_def)
  from n show "blocks s = node_block ` dom N" by (simp only: nodes_ok_def)
qed

definition ranges_outside :: "addr set \<Rightarrow> RootRange list \<Rightarrow> bool" where
  "ranges_outside H rs \<longleftrightarrow> (\<forall>r\<in>set rs. set (word_addrs (rr_begin r) (rr_end r)) \<inter> H = {})"

lemma demo_root_candidates:
  assumes w: "demo_world env H" and s: "demo_state env H c rs L N s" and r: "ranges_outside H rs"
    and x: "x \<in> set (root_candidates env c s)"
  shows "x \<notin> H \<or> x \<in> ran L"
proof -
  have loc: "get_word a s \<notin> H \<or> get_word a s \<in> ran L" if "aligned a" "a \<notin> H" for a
    using demo_stateD(5) [OF s] that unfolding locals_ok_def by (blast intro: ranI)
  have range: "y \<notin> H \<or> y \<in> ran L"
    if out: "set (word_addrs b e) \<inter> H = {}" and y: "y \<in> set (range_candidates (gc_mem s) b e)" for b e y
  proof -
    obtain a where a: "a \<in> set (word_addrs b e)" "y = get_word a s"
      using y by (auto simp: range_candidates_def get_word_def)
    then have "aligned a" "a \<notin> H" using out by (auto intro: aligned_word_addrs)
    then show ?thesis using loc a(2) by simp
  qed
  have glob: "y \<notin> H \<or> y \<in> ran L" if "y \<in> set (global_candidates env (gc_mem s))" for y
  proof -
    from that obtain a where a: "a \<in> set (global_addrs env)" "y = get_word a s"
      by (auto simp: global_candidates_addrs get_word_def)
    then have "aligned a" by (auto simp: global_addrs_def dest: aligned_word_addrs)
    moreover have "a \<notin> H" using w a(1) by (auto simp: demo_world_def)
    ultimately show ?thesis using loc a(2) by simp
  qed
  have "\<not> br_constructing (snd p)" if "p \<in> set (gc_allocations s)" for p
  proof -
    have "snd p \<in> node_block ` dom N" using demo_stateD(7) [OF s] that by (auto simp: blocks_def)
    then show ?thesis by auto
  qed
  then have "filter (\<lambda>p. br_constructing (snd p)) (gc_allocations s) = []" by (simp add: filter_empty_conv)
  moreover have "gc_threads s = [(c, new_ThreadState\<lparr>ts_stack_bottom := demo_stack_bottom env\<rparr>)]"
    "gc_root_ranges s = rs" using demo_stateD(3,4) [OF s] by (simp_all add: idle_def)
  ultimately have "x \<in> set (e_registers env) \<or>
      x \<in> set (range_candidates (gc_mem s) (e_stack_marker env) (demo_stack_bottom env)) \<or>
      x \<in> set (global_candidates env (gc_mem s)) \<or>
      (\<exists>r\<in>set rs. x \<in> set (range_candidates (gc_mem s) (rr_begin r) (rr_end r)))"
    using x by (auto simp: root_candidates_def thread_candidates_def Let_def split: if_splits)
  then show ?thesis
  proof (elim disjE bexE)
    assume "x \<in> set (e_registers env)"
    then show ?thesis using w by (auto simp: demo_world_def)
  next
    assume "x \<in> set (range_candidates (gc_mem s) (e_stack_marker env) (demo_stack_bottom env))"
    then show ?thesis using w by (intro range) (simp_all add: demo_world_def)
  next
    fix q assume "q \<in> set rs" "x \<in> set (range_candidates (gc_mem s) (rr_begin q) (rr_end q))"
    then show ?thesis using r by (intro range) (simp_all add: ranges_outside_def)
  qed (rule glob)
qed

text \<open>A set of nodes that holds the targets of the locals and is closed under \<open>next\<close> bounds what is reachable.\<close>

lemma demo_reachable_sub:
  assumes w: "demo_world env H" and s: "demo_state env H c rs L N s" and r: "ranges_outside H rs"
    and roots: "ran L \<inter> H \<subseteq> K" and K: "K \<subseteq> dom N"
    and closed: "\<And>p nx l. p \<in> K \<Longrightarrow> N p = Some (nx, l) \<Longrightarrow> nx \<in> dom N \<Longrightarrow> nx \<in> K"
  shows "reachable env c s \<subseteq> node_block ` K"
proof -
  note i = demo_stateD(2) [OF s] and n = demo_stateD(6) [OF s]
  have "targets s (set (root_candidates env c s)) \<subseteq> node_block ` K"
  proof
    fix b assume "b \<in> targets s (set (root_candidates env c s))"
    then obtain x where x: "x \<in> set (root_candidates env c s)" "find_block_locked x s = Some b"
      by (auto simp: targets_def)
    then have "x \<in> H" using node_find(1) [OF n i, of x] by auto
    then have "x \<in> K" using demo_root_candidates [OF w s r x(1)] roots by auto
    then show "b \<in> node_block ` K" using x(2) node_find(3) [OF n i, of x] K by auto
  qed
  moreover have "y \<in> node_block ` K" if "(b, y) \<in> (ref_rel s)\<^sup>*" "b \<in> node_block ` K" for b y
    using that
  proof (induction rule: rtrancl_induct)
    case (step y z)
    then obtain p where p: "p \<in> K" "y = node_block p" by auto
    then obtain nx l where N: "N p = Some (nx, l)" using K by auto
    from step(2) p have "z \<in> refs s (node_block p)" by (simp add: ref_rel_def)
    then show ?case using p(1) closed [OF p(1) N] by (auto simp: node_refs [OF w n i N])
  qed
  ultimately show ?thesis unfolding reachable_def by blast
qed

lemma demo_next_reachable:
  assumes w: "demo_world env H" and s: "demo_state env H c rs L N s"
    and p: "node_block p \<in> reachable env c s" "N p = Some (nx, l)" "nx \<in> dom N"
  shows "node_block nx \<in> reachable env c s"
proof -
  note i = demo_stateD(2) [OF s] and n = demo_stateD(6) [OF s]
  have "node_block p \<in> blocks s" using reachable_blocks p(1) by blast
  then have "(node_block p, node_block nx) \<in> ref_rel s"
    using node_refs [OF w n i p(2)] p(3) by (simp add: ref_rel_def)
  with p(1) show ?thesis unfolding reachable_def by (blast intro: rtrancl_into_rtrancl)
qed

lemma run_finalizers_pure:
  assumes "e_finalize env = (\<lambda>d. Node_destroy)"
  shows "run (run_finalizers env hs s) = (Done (), s\<lparr>gc_events := gc_events s @ finalizations s hs\<rparr>)"
proof (induction hs arbitrary: s)
  case Nil
  show ?case by (simp add: prog_simps finalizations_def)
next
  case (Cons h hs)
  have "finalizations (s\<lparr>gc_events := es\<rparr>) hs = finalizations s hs" for es by (rule finalizations_cong) simp
  then show ?case
    using Cons.IH by (simp add: prog_simps Let_def assms Node_destroy_def finalizations_def finalization_of_def split: option.split)
qed

lemma collect_frame:
  assumes pure: "e_finalize env = (\<lambda>d. Node_destroy)" and inv: "heap_inv s" and can: "can_collect c s"
    and weak: "gc_weak_refs s = []" and run: "run (collect env c s) = (Done (), t)"
  shows "gc_mem t = gc_mem s" "gc_root_ranges t = gc_root_ranges s" "gc_weak_refs t = []"
    "gc_collection_threshold_bytes t = gc_collection_threshold_bytes s"
    "ch_destructor (gc_headers t a) = ch_destructor (gc_headers s a)"
proof -
  let ?s = "request_stop c s"
  have "heap_inv ?s" using inv heap_inv_tables [of ?s s] by simp
  then have "gc_mem t = gc_mem s \<and> gc_root_ranges t = gc_root_ranges s \<and> gc_weak_refs t = [] \<and>
    gc_collection_threshold_bytes t = gc_collection_threshold_bytes s \<and>
    ch_destructor (gc_headers t a) = ch_destructor (gc_headers s a)"
  proof (cases rule: collect_locked_cases [where env = env and c = c])
    case (throws u)
    then show ?thesis using run by (simp add: run_collect_unfold [OF can] prog_simps release_and_rethrow_def)
  next
    case m: (returns hs m)
    let ?u = "record_collection env hs (swept m)"
    have u: "gc_mem ?u = gc_mem s" "gc_root_ranges ?u = gc_root_ranges s" "gc_weak_refs ?u = []"
      "gc_collection_threshold_bytes ?u = gc_collection_threshold_bytes s"
      using marks_only_sel [OF m(2)] weak
      by (simp_all add: swept_weak_refs zero_storages_def) (simp_all add: record_collection_def Let_def)
    have "ch_destructor (gc_headers ?u a) = ch_destructor (gc_headers s a)"
      using marks_only_shape [OF m(2), of a] swept_shape [of m a] by (simp add: same_shape_def)
    moreover have "run (destroy_blocks env hs ?u) = (Done (), fold free_block_memory hs (?u\<lparr>gc_events := gc_events ?u @ finalizations ?u hs\<rparr>))"
      by (simp add: destroy_blocks_def prog_simps run_finalizers_pure [OF pure])
    ultimately show ?thesis
      using run m(1) u by (auto simp: run_collect_unfold [OF can] prog_simps fold_free)
  qed
  then show "gc_mem t = gc_mem s" "gc_root_ranges t = gc_root_ranges s" "gc_weak_refs t = []"
    "gc_collection_threshold_bytes t = gc_collection_threshold_bytes s"
    "ch_destructor (gc_headers t a) = ch_destructor (gc_headers s a)" by simp_all
qed

lemma node_at_mem: "gc_mem t = gc_mem s \<Longrightarrow> node_at t = node_at s"
  by (intro ext) (simp add: node_at_def get_word_def)

lemma locals_ok_mem: "gc_mem t = gc_mem s \<Longrightarrow> locals_ok H L t = locals_ok H L s"
  by (simp add: locals_ok_def get_word_def)

lemma nodes_ok_collected:
  assumes w: "demo_world env H" and s: "demo_state env H c rs L N s"
    and K: "K \<subseteq> dom N" "reachable env c s = node_block ` K" and c: "collected env c s hs t"
    and t: "gc_mem t = gc_mem s" "\<And>a. ch_destructor (gc_headers t a) = ch_destructor (gc_headers s a)"
    and hs: "set hs = (\<lambda>p. p - 32) ` (dom N - K)"
  shows "nodes_ok H (N |` K) t"
proof -
  note s' = demo_stateD [OF s]
  have domK: "dom (N |` K) = K" using K(1) by auto
  have "fst ` set (gc_regions t) = fst ` set (gc_regions s) - set hs" using c by (auto simp: collected_def)
  also have "\<dots> = (\<lambda>p. p - 32) ` dom N - (\<lambda>p. p - 32) ` (dom N - K)"
    using s'(6) by (simp add: nodes_ok_def hs)
  also have "\<dots> = (\<lambda>p. p - 32) ` K" using K(1) by auto
  finally have fst_regions: "fst ` set (gc_regions t) = (\<lambda>p. p - 32) ` K" .
  show ?thesis
    unfolding nodes_ok_def domK
  proof (intro conjI allI impI)
    show "finite K" using s'(6) K(1) by (auto simp: nodes_ok_def intro: finite_subset)
    show "blocks t = node_block ` K" using collected_blocks [OF c] K(2) by simp
    show "distinct (map fst (gc_regions t))"
      using s'(6) c by (simp add: nodes_ok_def collected_def distinct_map_filter)
    show "fst ` set (gc_regions t) = (\<lambda>p. p - 32) ` K" by (rule fst_regions)
  next
    fix p nx l assume "(N |` K) p = Some (nx, l)"
    then have p: "p \<in> K" "N p = Some (nx, l)" by (auto simp: restrict_map_def split: if_splits)
    note n = nodes_okD [OF s'(6) p(2)]
    show "node_at t p nx l" using n(1) by (simp add: node_at_mem [OF t(1)])
    show "ch_destructor (gc_headers t (p - 32)) = Some node_destructor" using n(2) t(2) by simp
    show "p \<noteq> 32" by (rule n(3))
    show "x - p < 40 \<Longrightarrow> x \<in> H" for x by (rule n(5))
    assume "nx \<in> H"
    then have "node_block nx \<in> reachable env c s"
      using demo_next_reachable [OF w s _ p(2) n(4)] p(1) K(2) by simp
    then show "nx \<in> K" using K(2) by auto
  qed
qed

lemma demo_collect:
  assumes w: "demo_world env H" and s: "demo_state env H c rs L N s"
    and K: "K \<subseteq> dom N" "reachable env c s = node_block ` K"
  obtains hs t where "run (collect env c s) = (Done (), t)" "demo_state env H c rs L (N |` K) t"
    "gc_events t = gc_events s @ finalizations s hs @ frees s hs" "distinct hs"
    "set hs = (\<lambda>p. p - 32) ` (dom N - K)" "referrers_first s (node_block ` (dom N - K)) hs"
    "gc_mem t = gc_mem s"
proof -
  note s' = demo_stateD [OF s]
  note can = idle_ready(3) [OF s'(3) w]
  have fin: "finalizers_return env" and pure: "e_finalize env = (\<lambda>d. Node_destroy)" and mem: "\<not> out_of_memory env"
    using w by (simp_all add: demo_world_def finalizers_return_def Node_destroy_def prog_simps)
  have dead: "blocks s - reachable env c s = node_block ` (dom N - K)"
    using K by (auto simp: s'(7))
  from s'(1) can fin show ?thesis
  proof (cases rule: collect_cases)
    case (throws t)
    with mem show ?thesis by simp
  next
    case (returns hs t)
    have weak: "gc_weak_refs s = []" using s'(3) by (simp add: idle_def)
    note f = collect_frame [OF pure s'(1) can weak returns(1)]
    note c = returns(2) [unfolded collected_def]
    have hs: "distinct hs" "set hs = br_header ` (blocks s - reachable env c s)"
      using unreachable_headers_distinct [OF s'(2), of hs env c] c by blast+
    have hs': "set hs = (\<lambda>p. p - 32) ` (dom N - K)" by (simp add: hs(2) dead image_image)
    have "nodes_ok H (N |` K) t" by (rule nodes_ok_collected [OF w s K returns(2) f(1) f(5) hs'])
    moreover have "idle env c t" using s'(3) c f(3,4) by (simp add: idle_def node_regions_def)
    moreover have "locals_ok H L t" using s'(5) by (simp add: locals_ok_mem [OF f(1)])
    ultimately have "demo_state env H c rs L (N |` K) t"
      using c f(2) s'(4) by (simp add: demo_state_def)
    with that [OF returns(1) _ _ hs(1) hs' _ f(1)] c show ?thesis by (simp add: dead)
  qed
qed

section \<open>Writes\<close>

text \<open>A state that differs in memory only.\<close>

definition mem_only :: "gc_state \<Rightarrow> gc_state \<Rightarrow> bool" where
  "mem_only s t \<longleftrightarrow> (\<exists>m. t = s\<lparr>gc_mem := m\<rparr>)"

lemma mem_only_put [simp]: "mem_only s (put_word a v s)"
  by (auto simp: mem_only_def put_word_def)

lemma mem_only_trans: "mem_only s t \<Longrightarrow> mem_only t u \<Longrightarrow> mem_only s u"
  by (auto simp: mem_only_def)

lemma mem_only_sel:
  assumes "mem_only s t"
  shows "gc_headers t = gc_headers s" "gc_regions t = gc_regions s" "gc_events t = gc_events s"
    "gc_allocations t = gc_allocations s" "gc_threads t = gc_threads s" "gc_root_ranges t = gc_root_ranges s"
    "gc_weak_refs t = gc_weak_refs s" "blocks t = blocks s" "heap_inv t = heap_inv s" "idle env c t = idle env c s"
proof -
  obtain m where t: "t = s\<lparr>gc_mem := m\<rparr>" using assms by (auto simp: mem_only_def)
  show "gc_headers t = gc_headers s" "gc_regions t = gc_regions s" "gc_events t = gc_events s"
    "gc_allocations t = gc_allocations s" "gc_threads t = gc_threads s" "gc_root_ranges t = gc_root_ranges s"
    "gc_weak_refs t = gc_weak_refs s" "blocks t = blocks s" "idle env c t = idle env c s"
    by (simp_all add: t blocks_def idle_def node_regions_def)
  show "heap_inv t = heap_inv s" by (rule heap_inv_tables) (simp_all add: t)
qed

lemma demo_state_mem:
  assumes s: "demo_state env H c rs L N s" and m: "mem_only s t" and loc: "locals_ok H L' t"
    and nodes: "\<And>p nx l. N p = Some (nx, l) \<Longrightarrow> node_at t p nx l"
  shows "demo_state env H c rs L' N t"
  using demo_stateD [OF s] nodes loc
  by (simp add: demo_state_def nodes_ok_def mem_only_sel [OF m])

text \<open>The words of a node.\<close>

definition node_words :: "addr \<Rightarrow> addr list" where
  "node_words p = [p, p + 8, p + 16, p + 24, p + 32]"

lemma node_words_heap:
  assumes "nodes_ok H N s" "p \<in> dom N" "a \<in> set (node_words p)"
  shows "a \<in> H" "a - p < 40"
proof -
  show "a - p < 40" using assms(3) by (auto simp: node_words_def)
  then show "a \<in> H" using nodes_okD(5) [OF assms(1), of p] assms(2) by auto
qed

lemma node_at_words:
  assumes "node_at s p nx l" "\<And>a. a \<in> set (node_words p) \<Longrightarrow> get_word a t = get_word a s"
  shows "node_at t p nx l"
  using assms by (simp add: node_at_def node_words_def)

lemma node_words_aligned: "aligned p \<Longrightarrow> a \<in> set (node_words p) \<Longrightarrow> aligned a"
  by (auto simp: node_words_def aligned_step)

lemma node_at_aligned: "node_at s p nx l \<Longrightarrow> aligned p"
  by (simp add: node_at_def)

lemma locals_okD:
  assumes "locals_ok H L s"
  shows "aligned a \<Longrightarrow> a \<notin> H \<Longrightarrow> get_word a s \<in> H \<Longrightarrow> L a = Some (get_word a s)"
    "L a = Some v \<Longrightarrow> aligned a" "L a = Some v \<Longrightarrow> a \<notin> H" "L a = Some v \<Longrightarrow> get_word a s = v"
  using assms unfolding locals_ok_def by blast+

lemma locals_ok_put_outside:
  assumes "locals_ok H L s" "aligned a" "a \<notin> H"
  shows "locals_ok H (L(a \<mapsto> v)) (put_word a v s)"
  unfolding locals_ok_def
proof (intro conjI allI impI)
  note d = locals_okD [OF assms(1)]
  fix b
  show "(L(a \<mapsto> v)) b = Some (get_word b (put_word a v s))"
    if "aligned b" "b \<notin> H" "get_word b (put_word a v s) \<in> H"
    using that d(1) [of b] assms(2) by (simp add: get_put_aligned split: if_splits)
  fix w assume "(L(a \<mapsto> v)) b = Some w"
  then consider "b = a" "w = v" | "b \<noteq> a" "L b = Some w" by (auto split: if_splits)
  then have "aligned b \<and> b \<notin> H \<and> get_word b (put_word a v s) = w"
  proof cases
    case 1
    with assms show ?thesis by (simp add: get_put_aligned)
  next
    case 2
    with d(2-4) [OF 2(2)] assms(2) show ?thesis by (simp add: get_put_aligned)
  qed
  then show "aligned b" "b \<notin> H" "get_word b (put_word a v s) = w" by simp_all
qed

lemma locals_ok_cong:
  assumes "locals_ok H L s" "\<And>a. aligned a \<Longrightarrow> a \<notin> H \<Longrightarrow> get_word a t = get_word a s"
  shows "locals_ok H L t"
  using assms(2) locals_okD [OF assms(1)] unfolding locals_ok_def by metis

lemma locals_ok_put_inside:
  assumes "locals_ok H L s" "aligned a" "a \<in> H"
  shows "locals_ok H L (put_word a v s)"
  using assms(1) by (rule locals_ok_cong) (use assms(2,3) in \<open>auto simp: get_put_aligned\<close>)

text \<open>A local variable, written.\<close>

lemma demo_put_local:
  assumes s: "demo_state env H c rs L N s" and a: "aligned a" "a \<notin> H"
  shows "demo_state env H c rs (L(a \<mapsto> v)) N (put_word a v s)"
proof (rule demo_state_mem [OF s mem_only_put])
  note s' = demo_stateD [OF s]
  show "locals_ok H (L(a \<mapsto> v)) (put_word a v s)"
    by (rule locals_ok_put_outside [OF s'(5) a])
  fix p nx l assume N: "N p = Some (nx, l)"
  note n = nodes_okD(1) [OF s'(6) N]
  have "get_word b (put_word a v s) = get_word b s" if "b \<in> set (node_words p)" for b
  proof -
    have "aligned b" using n that by (blast intro: node_words_aligned node_at_aligned)
    moreover have "b \<in> H" using node_words_heap(1) [OF s'(6) _ that] N by blast
    ultimately show ?thesis using a get_put_aligned [of b a v s] by (cases "b = a") simp_all
  qed
  with n show "node_at (put_word a v s) p nx l" by (rule node_at_words)
qed

text \<open>The \<open>next\<close> of a node, written.\<close>

lemma demo_put_next:
  assumes s: "demo_state env H c rs L N s" and p: "N p = Some (nx, l)" and v: "v \<in> dom N"
  shows "demo_state env H c rs L (N(p \<mapsto> (v, l))) (put_word p v s)"
proof -
  note s' = demo_stateD [OF s]
  have pd: "p \<in> dom N" using p by blast
  have ap: "aligned p" using nodes_okD(1) [OF s'(6) p] by (simp add: node_at_def)
  have pH: "p \<in> H" using node_bounds(3) [OF s'(6,2) pd] .
  have dom: "dom (N(p \<mapsto> (v, l))) = dom N" using pd by auto
  have loc: "locals_ok H L (put_word p v s)"
    by (rule locals_ok_put_inside [OF s'(5) ap pH])
  have other: "node_at (put_word p v s) q nx' l'" if q: "N q = Some (nx', l')" "q \<noteq> p" for q nx' l'
  proof (rule node_at_words [OF nodes_okD(1) [OF s'(6) q(1)]])
    fix b assume b: "b \<in> set (node_words q)"
    have "aligned b" using nodes_okD(1) [OF s'(6) q(1)] b by (blast intro: node_words_aligned node_at_aligned)
    moreover have "b \<noteq> p"
    proof
      assume "b = p"
      then have "find_block_locked p s = Some (node_block q)"
        using node_find(2) [OF s'(6,2), of q b] node_words_heap(2) [OF s'(6) _ b] q(1) by blast
      then show False using node_find(3) [OF s'(6,2) pd] q(2) by simp
    qed
    ultimately show "get_word b (put_word p v s) = get_word b s" using ap by (simp add: get_put_aligned)
  qed
  have self: "node_at (put_word p v s) p v l"
    using nodes_okD(1) [OF s'(6) p] by (simp add: node_at_def get_put_aligned aligned_step)
  have "nodes_ok H (N(p \<mapsto> (v, l))) (put_word p v s)"
    unfolding nodes_ok_def dom mem_only_sel [OF mem_only_put]
  proof (intro conjI allI impI)
    fix q nx' l' assume "(N(p \<mapsto> (v, l))) q = Some (nx', l')"
    then consider "q = p" "nx' = v" "l' = l" | "q \<noteq> p" "N q = Some (nx', l')" by (auto split: if_splits)
    then have "node_at (put_word p v s) q nx' l' \<and> (nx' \<in> H \<longrightarrow> nx' \<in> dom N) \<and>
        ch_destructor (gc_headers s (q - 32)) = Some node_destructor \<and> q \<noteq> 32 \<and> (\<forall>x. x - q < 40 \<longrightarrow> x \<in> H)"
    proof cases
      case 1
      with self v nodes_okD [OF s'(6) p] show ?thesis by blast
    next
      case 2
      with other nodes_okD [OF s'(6) 2(2)] show ?thesis by blast
    qed
    then show "node_at (put_word p v s) q nx' l'" "nx' \<in> H \<Longrightarrow> nx' \<in> dom N" "q \<noteq> 32"
      "ch_destructor (gc_headers s (q - 32)) = Some node_destructor" "x - q < 40 \<Longrightarrow> x \<in> H" for x by blast+
  qed (use s'(6) in \<open>simp_all add: nodes_ok_def\<close>)
  with s' loc show ?thesis by (simp add: demo_state_def mem_only_sel [OF mem_only_put])
qed

section \<open>A new node\<close>

lemma demo_sizes:
  assumes "demo_state env H c rs L N s"
  shows "length (gc_allocations s) = card (dom N)" "length (gc_regions s) = card (dom N)"
    "unat (gc_managed_bytes s) = 40 * card (dom N)" "unat (gc_reserved_bytes s) = 72 * card (dom N)"
proof -
  note s' = demo_stateD [OF assms]
  have "distinct (map snd (gc_allocations s))"
    using blocks_listed_distinct [OF blocks_listed_entries [OF s'(2), of "\<lambda>_. True"]] by simp
  then have "length (gc_allocations s) = card (blocks s)"
    by (metis blocks_def distinct_card length_map set_map)
  then show len: "length (gc_allocations s) = card (dom N)"
    using card_image [of node_block "dom N"] by (simp add: s'(7) inj_on_def)
  have r: "distinct (map fst (gc_regions s))" "fst ` set (gc_regions s) = (\<lambda>p. p - 32) ` dom N"
    using s'(6) by (simp_all add: nodes_ok_def)
  have "card ((\<lambda>p. p - 32) ` dom N) = card (dom N)" by (intro card_image) (simp add: inj_on_def)
  then show "length (gc_regions s) = card (dom N)"
    using distinct_card [OF r(1)] r(2) by simp
  have sizes: "unat (ch_size (header_of s (snd q))) = 40" "unat (block_allocation_size (header_of s (snd q))) = 72"
    if q: "q \<in> set (gc_allocations s)" for q
  proof -
    have "snd q \<in> node_block ` dom N" using q s'(7) by (auto simp: blocks_def)
    then obtain p where p: "p \<in> dom N" "snd q = node_block p" by blast
    have ok: "block_ok (gc_headers s) q" by (rule index_inv_block_ok [OF s'(2) q])
    have u: "unat (p + 40) = unat p + 40" by (rule node_bounds(1) [OF s'(6,2) p(1)])
    have e: "unat (p + 40) = unat p + unat (ch_size (gc_headers s (p - 32)))"
      using ok unfolding block_ok_def Let_def p(2) node_block_sel by blast
    then show "unat (ch_size (header_of s (snd q))) = 40" using u by (simp add: header_of_def p(2))
    have "unat p = unat (p - 32) + unat (ch_payload_offset (gc_headers s (p - 32)))"
      "32 \<le> unat (ch_payload_offset (gc_headers s (p - 32)))"
      using ok unfolding block_ok_def Let_def p(2) node_block_sel by blast+
    then have "unat p = unat (p - 32) + 32" by (simp add: unat_sub_if' split: if_splits)
    then show "unat (block_allocation_size (header_of s (snd q))) = 72"
      using block_region [OF ok] u by (simp add: p(2))
  qed
  have acc: "unat (gc_managed_bytes s) = (\<Sum>p\<leftarrow>gc_allocations s. unat (ch_size (header_of s (snd p))))"
    "unat (gc_reserved_bytes s) = (\<Sum>p\<leftarrow>gc_allocations s. unat (block_allocation_size (header_of s (snd p))))"
    using s'(1) by (simp_all add: heap_inv_def accounting_def)
  have "(\<Sum>p\<leftarrow>gc_allocations s. unat (ch_size (header_of s (snd p)))) = (\<Sum>p\<leftarrow>gc_allocations s. 40)"
    "(\<Sum>p\<leftarrow>gc_allocations s. unat (block_allocation_size (header_of s (snd p)))) = (\<Sum>p\<leftarrow>gc_allocations s. 72)"
    by (rule sum_list_cong, simp add: sizes)+
  then show "unat (gc_managed_bytes s) = 40 * card (dom N)" "unat (gc_reserved_bytes s) = 72 * card (dom N)"
    unfolding acc by (simp_all add: sum_list_triv len mult.commute)
qed

lemma node_malloc:
  assumes w: "demo_world env H" and s: "demo_state env H c rs L N s" and few: "card (dom N) < 4"
  obtains raw t where "run (malloc_internal env c 40 8 d True s) = (Done (raw + 32), t)"
    "allocated s raw 32 40 d 16 True t" "unat raw mod 16 = 0" "e_op_new env s 72 16 = Some raw"
proof -
  note s' = demo_stateD [OF s]
  note sz = demo_sizes [OF s]
  note rdy = idle_ready [OF s'(3) w]
  have arith: "normalize_alignment 8 = 16" "round_up_to_alignment sizeof_ChunkHeader 16 = Some 32" "has_single_bit (8 :: size_t)"
    by code_simp+
  have fin: "finalizers_return env" and new: "op_new_ok env" and mem: "\<not> out_of_memory env"
    using w by (simp_all add: demo_world_def finalizers_return_def Node_destroy_def prog_simps)
  obtain raw where raw: "e_op_new env s 72 16 = Some raw"
    using w few sz(2) s'(3) unfolding demo_world_def idle_def by fastforce
  have "\<exists>t. run (malloc_internal env c 40 8 d True s) = (Done (raw + 32), t)"
    using raw sz(3,4) few
    by (intro malloc_succeeds [OF rdy(1,2) mem _ arith(3)]) (simp_all add: arith add_would_overflow_iff)
  then obtain t where t: "run (malloc_internal env c 40 8 d True s) = (Done (raw + 32), t)" by blast
  from s'(1) rdy(3) fin new show ?thesis
  proof (cases rule: malloc_cases [where n = 40 and al = 8 and d = d and constructing = True])
    case (throws u)
    with t show ?thesis by simp
  next
    case (returns raw' off u t')
    then have off: "off = 32" and "raw' = raw" "t' = t" "u = s"
      using t raw by (simp_all add: arith)
    have "16 dvd unat raw" using returns(4) by (simp add: arith \<open>raw' = raw\<close>)
    with that [OF t _ _ raw] returns(3) show ?thesis
      by (simp add: arith \<open>raw' = raw\<close> \<open>t' = t\<close> \<open>u = s\<close> off)
  qed
qed

text \<open>The words after the constructor of a node.\<close>

lemma node_constructed:
  assumes p: "aligned p" and l: "label_ok l" and zero: "\<And>a. aligned a \<Longrightarrow> a - p < 40 \<Longrightarrow> get_word a s = 0"
  defines "t \<equiv> put_string (p + 8) l (put_word p 0 s)"
  shows "node_at t p 0 l" "\<And>a. aligned a \<Longrightarrow> \<not> a - p < 40 \<Longrightarrow> get_word a t = get_word a s" "mem_only s t"
proof -
  have len: "take 8 l = l" "drop 8 l = []" "pack_chars [] = 0" using l by (simp_all add: label_ok_def pack_chars_def)
  have t: "t = put_word (p + 32) 0 (put_word (p + 24) (pack_chars l) (put_word (p + 16) (of_nat (length l))
      (put_word (p + 8) (p + 24) (put_word p 0 s))))"
    by (simp add: t_def put_string_def len add.assoc)
  note al = p aligned_step [OF p]
  show "node_at t p 0 l" using l al by (simp add: node_at_def t get_put_aligned)
  show "mem_only s t" unfolding t by (intro mem_only_trans [OF _ mem_only_put] mem_only_put)
  fix a assume a: "aligned a" "\<not> a - p < 40"
  then have "a \<noteq> p" "a \<noteq> p + 8" "a \<noteq> p + 16" "a \<noteq> p + 24" "a \<noteq> p + 32" by auto
  then show "get_word a t = get_word a s" using a(1) al by (simp add: t get_put_aligned)
qed

text \<open>A registered block that is a node joins the nodes.\<close>

lemma nodes_ok_insert:
  assumes n: "nodes_ok H N s" and i: "index_inv s" and p: "p \<notin> dom N"
    and blk: "blocks t = insert (node_block p) (blocks s)"
    and reg: "gc_regions t = (p - 32, m) # gc_regions s"
    and new: "node_at t p 0 l" "0 \<notin> H" "p \<noteq> 32" "\<And>x. x - p < 40 \<Longrightarrow> x \<in> H"
      "ch_destructor (gc_headers t (p - 32)) = Some node_destructor"
    and old: "\<And>q a. q \<in> dom N \<Longrightarrow> a \<in> set (node_words q) \<Longrightarrow> get_word a t = get_word a s"
      "\<And>q. q \<in> dom N \<Longrightarrow> ch_destructor (gc_headers t (q - 32)) = ch_destructor (gc_headers s (q - 32))"
  shows "nodes_ok H (N(p \<mapsto> (0, l))) t"
proof -
  have f: "finite (dom N)" "blocks s = node_block ` dom N" "distinct (map fst (gc_regions s))"
    "fst ` set (gc_regions s) = (\<lambda>p. p - 32) ` dom N"
    using n by (simp_all add: nodes_ok_def)
  have "p - 32 \<notin> fst ` set (gc_regions s)" using p by (auto simp: f(4))
  moreover have "node_at t q nx' l' \<and> ch_destructor (gc_headers t (q - 32)) = Some node_destructor \<and> q \<noteq> 32 \<and>
      (nx' \<in> H \<longrightarrow> nx' \<in> insert p (dom N)) \<and> (\<forall>x. x - q < 40 \<longrightarrow> x \<in> H)"
    if "(N(p \<mapsto> (0, l))) q = Some (nx', l')" for q nx' l'
  proof (cases "q = p")
    case True
    with that new show ?thesis by auto
  next
    case False
    then have q: "N q = Some (nx', l')" using that by simp
    then have qd: "q \<in> dom N" by blast
    note d = nodes_okD [OF n q]
    have "node_at t q nx' l'" using d(1) by (rule node_at_words) (rule old(1) [OF qd])
    with d old(2) [OF qd] show ?thesis by auto
  qed
  ultimately show ?thesis
    using f by (simp add: nodes_ok_def blk reg)
qed

text \<open>Where the memory of a new node lies.\<close>

lemma node_allocated:
  assumes w: "demo_world env H" and s: "demo_state env H c rs L N s"
    and t: "allocated s raw 32 40 d 16 True t" "unat raw mod 16 = 0" "e_op_new env s 72 16 = Some raw"
  shows "aligned (raw + 32)" "raw + 32 \<notin> fst ` set (gc_allocations s)" "raw + 32 \<notin> dom N"
    "x - (raw + 32) < 40 \<Longrightarrow> x \<in> H" "q \<in> dom N \<Longrightarrow> a \<in> set (node_words q) \<Longrightarrow> \<not> a - (raw + 32) < 40"
    "aligned e \<Longrightarrow> get_word e t = (if e - (raw + 32) < 40 then 0 else get_word e s)"
proof -
  let ?p = "raw + 32"
  note s' = demo_stateD [OF s]
  note al = t(1) [unfolded allocated_def]
  have f: "fits s raw 32 40" using al by blast
  note bl = allocated_blocks [OF s'(1) t(1)]
  have u: "unat ?p = unat raw + 32" "unat (?p + 40) = unat ?p + 40" using bl(4,5) by (simp_all add: block_at_def)
  show ap: "aligned ?p" using t(2) u(1) by (simp add: aligned_def) presburger
  have "gc_mem t = memset_zero (gc_mem s) ?p 40" using al by blast
  then show "aligned e \<Longrightarrow> get_word e t = (if e - ?p < 40 then 0 else get_word e s)"
    by (intro get_memset ap) (simp_all add: aligned_def)
  show key: "?p \<notin> fst ` set (gc_allocations s)"
    using raw_block_key [OF _ header_written_raw [OF s'(1) f]] header_written_inv [OF s'(1) f]
    by (simp add: heap_inv_def)
  have entry: "(p, node_block p) \<in> set (gc_allocations s)" if "p \<in> dom N" for p
    using blocks_iff [OF s'(2), of "node_block p"] that by (simp add: s'(7))
  then show "?p \<notin> dom N" using key by force
  show "x \<in> H" if "x - ?p < 40"
  proof -
    have "unat (x - ?p) < 40" using that by (simp add: word_less_nat_alt)
    moreover have "x - raw = (x - ?p) + 32" by simp
    ultimately have "x - raw < 72" by (simp only: word_less_nat_alt unat_word_ariths) simp
    then show ?thesis using w t(3) unfolding demo_world_def by blast
  qed
  assume q: "q \<in> dom N" "a \<in> set (node_words q)"
  show "\<not> a - ?p < 40"
  proof
    assume "a - ?p < 40"
    then have a: "?p \<le> a" "a < ?p + 40" using interval_iff [OF u(2)] by simp_all
    have aq: "q \<le> a" "a < q + 40"
      using node_words_heap(2) [OF s'(6) q] node_bounds(2) [OF s'(6,2) q(1)] by simp_all
    have hq: "q - 32 < q" using block_ok_bounds(1) [OF index_inv_block_ok [OF s'(2) entry [OF q(1)]]] by simp
    have "node_block q \<in> blocks s" using q(1) by (simp add: s'(7))
    then have "q + 40 \<le> raw \<or> ?p + 40 \<le> q - 32" using bl(3) by (fastforce simp: block_at_def)
    moreover have "raw \<le> ?p" using u(1) by (simp add: word_le_nat_alt)
    ultimately show False using a aq hq by (meson leD less_le_trans order_trans less_imp_le)
  qed
qed

text \<open>The state once the constructor has run and the block is published.\<close>

definition node_made :: "addr \<Rightarrow> string \<Rightarrow> gc_state \<Rightarrow> gc_state" where
  "node_made p l t =
     (let v = put_string (p + 8) l (put_word p 0 t)
      in v\<lparr>gc_allocations := om_adjust p (\<lambda>b. b\<lparr>br_constructing := False\<rparr>) (gc_allocations v)\<rparr>)"

lemma node_made_sel:
  assumes w: "demo_world env H" and s: "demo_state env H c rs L N s" and l: "label_ok l"
    and t: "allocated s raw 32 40 d 16 True t" "unat raw mod 16 = 0" "e_op_new env s 72 16 = Some raw"
  defines "p \<equiv> raw + 32"
  shows "node_at (node_made p l t) p 0 l" "aligned a \<Longrightarrow> \<not> a - p < 40 \<Longrightarrow> get_word a (node_made p l t) = get_word a s"
    "mem_only t (put_string (p + 8) l (put_word p 0 t))" "blocks (node_made p l t) = insert (node_block p) (blocks s)"
proof -
  let ?v = "put_string (p + 8) l (put_word p 0 t)"
  note s' = demo_stateD [OF s]
  note na = node_allocated [OF w s t, folded p_def]
  have nc: "node_at ?v p 0 l" "\<And>a. aligned a \<Longrightarrow> \<not> a - p < 40 \<Longrightarrow> get_word a ?v = get_word a t" "mem_only t ?v"
    using node_constructed [OF na(1) l, of t] na(6) by simp_all
  have m: "gc_mem (node_made p l t) = gc_mem ?v" by (simp add: node_made_def Let_def)
  show "node_at (node_made p l t) p 0 l" using nc(1) by (simp add: node_at_mem [OF m])
  show "mem_only t ?v" by (rule nc(3))
  show "aligned a \<Longrightarrow> \<not> a - p < 40 \<Longrightarrow> get_word a (node_made p l t) = get_word a s"
    using nc(2) na(6) by (simp add: get_word_def m)
  have "gc_allocations t = om_emplace p (block_at raw 32 40 True) (gc_allocations s)"
    using t(1) unfolding allocated_def p_def by blast
  then have "gc_allocations (node_made p l t) = om_emplace p (node_block p) (gc_allocations s)"
    using na(2) mem_only_sel(4) [OF nc(3)]
    by (simp add: node_made_def Let_def om_adjust_emplace node_block_def block_at_def p_def)
  then show "blocks (node_made p l t) = insert (node_block p) (blocks s)"
    using set_om_emplace [OF index_inv_om_wf [OF s'(2)], of p "node_block p"] na(2) by (simp add: blocks_def)
qed

lemma node_made_state:
  assumes w: "demo_world env H" and s: "demo_state env H c rs L N s" and l: "label_ok l"
    and t: "allocated s raw 32 40 (Some node_destructor) 16 True t" "unat raw mod 16 = 0" "e_op_new env s 72 16 = Some raw"
  defines "p \<equiv> raw + 32"
  shows "demo_state env H c rs L (N(p \<mapsto> (0, l))) (node_made p l t)"
proof -
  let ?v = "put_string (p + 8) l (put_word p 0 t)" let ?t = "node_made p l t"
  note s' = demo_stateD [OF s]
  note al = t(1) [unfolded allocated_def]
  note na = node_allocated [OF w s t, folded p_def]
  note nm = node_made_sel [OF w s l t, folded p_def]
  note mo = mem_only_sel [OF nm(3)]
  have sel: "gc_regions ?t = gc_regions t" "gc_headers ?t = gc_headers t" "gc_root_ranges ?t = gc_root_ranges t"
    using mo by (simp_all add: node_made_def Let_def)
  have "raw \<noteq> 0" "0 \<notin> H" using w t(3) small_not_heap [OF w, of 0] by (auto simp: demo_world_def op_new_ok_def small_word_def)
  moreover have "gc_regions ?t = (p - 32, 72) # gc_regions s" using al sel(1) by (simp add: p_def)
  moreover have "ch_destructor (gc_headers ?t (p - 32)) = Some node_destructor"
    using allocated_header(1) [OF t(1)] unfolding sel
    by (simp add: p_def header_of_def block_at_def has_single_bit_iff exI [of _ 4])
  moreover have "ch_destructor (gc_headers ?t (q - 32)) = ch_destructor (gc_headers s (q - 32))" if "q \<in> dom N" for q
  proof -
    have "q - 32 \<noteq> raw" using that na(3) by (auto simp: p_def)
    then show ?thesis using al by (simp add: sel header_written_header)
  qed
  moreover have "get_word a ?t = get_word a s" if q: "q \<in> dom N" "a \<in> set (node_words q)" for q a
  proof -
    obtain nx' l' where "N q = Some (nx', l')" using q(1) by auto
    from node_words_aligned [OF node_at_aligned [OF nodes_okD(1) [OF s'(6) this]] q(2)] show ?thesis
      by (intro nm(2) na(5) [OF q])
  qed
  ultimately have "nodes_ok H (N(p \<mapsto> (0, l))) ?t"
    by (intro nodes_ok_insert [OF s'(6,2) na(3) nm(4) _ nm(1)]) (use na(4) in \<open>auto simp: p_def\<close>)
  moreover have "locals_ok H L ?t" using s'(5) by (rule locals_ok_cong) (use nm(2) na(4) in blast)
  moreover have "gc_root_ranges ?t = rs" using al s'(4) by (simp add: sel)
  moreover have "heap_inv ?t" using heap_inv_constructing [of ?v p False] mo(9) al by (simp add: node_made_def Let_def)
  moreover have "idle env c ?v" using s'(3) al mo(10) [of env c] t(3) by (auto simp: idle_def same_control_def node_regions_def)
  then have "idle env c ?t" by (simp add: node_made_def Let_def idle_def node_regions_def)
  ultimately show ?thesis by (simp add: demo_state_def)
qed

lemma demo_new_node:
  assumes w: "demo_world env H" and s: "demo_state env H c rs L N s" and few: "card (dom N) < 4" and l: "label_ok l"
  obtains p t where "run (gc_new_Node env c l s) = (Done (Gc_Ptr p), t)" "p \<notin> dom N"
    "demo_state env H c rs L (N(p \<mapsto> (0, l))) t" "gc_events t = gc_events s"
proof -
  note s' = demo_stateD [OF s]
  note rdy = idle_ready [OF s'(3) w]
  obtain raw t where t: "run (malloc_internal env c 40 8 (Some node_destructor) True s) = (Done (raw + 32), t)"
    "allocated s raw 32 40 (Some node_destructor) 16 True t" "unat raw mod 16 = 0" "e_op_new env s 72 16 = Some raw"
    by (rule node_malloc [OF w s few])
  let ?p = "raw + 32" let ?v = "put_string (?p + 8) l (put_word ?p 0 t)" let ?t = "node_made ?p l t"
  note made = node_made_state [OF w s l t(2,3,4)]
  note mo = mem_only_sel [OF node_made_sel(3) [OF w s l t(2,3,4)]]
  have small: "run (collect_if_needed env c 40 s) = (Done (), s)"
    using s'(3) demo_sizes(3) [OF s] few by (simp add: collect_if_needed_result [OF rdy(1,2)] idle_def)
  have found: "om_find ?p (gc_allocations ?v) = Some (block_at raw 32 40 True)"
    using allocated_find(1) [OF s'(1) t(2)] mo(4) by simp
  have free: "may_proceed c ?v" using idle_ready(1) [OF demo_stateD(3) [OF made] w]
    by (simp add: node_made_def Let_def may_proceed_def thread_registered_def find_thread_state_locked_def)
  have "run (gc_new_Node env c l s) = (Done (Gc_Ptr ?p), ?t)"
    using t(1) small found finish_construction_result [OF free, of env ?p]
    by (simp add: gc_new_Node_def gc_new_def prog_simps sizeof_Node_def alignof_Node_def construct_object_def
        Node_construct_def node_made_def Let_def)
  moreover have "gc_events ?t = gc_events s"
    using t(2) mo(3) by (simp add: allocated_def same_control_def node_made_def Let_def)
  ultimately show ?thesis using node_allocated(3) [OF w s t(2,3,4)] made by (intro that)
qed

section \<open>The scrubbed stack\<close>

definition noise_words :: "demo_frame \<Rightarrow> addr set" where
  "noise_words fr = noise_at fr ` {..<256}"

lemma frame_okD:
  assumes "frame_ok fr H"
  shows "aligned (noise_at fr i)" "i < 256 \<Longrightarrow> noise_at fr i \<notin> H" "root_slot (df_root fr)" "aligned (df_root fr)"
    "df_root fr \<notin> H" "df_root fr \<notin> noise_words fr" "df_alpha fr \<in> noise_words fr" "df_beta fr \<in> noise_words fr"
proof -
  have "aligned (8 * of_nat i)" by (simp add: aligned_def unat_word_ariths mod_mod_cancel)
  then show "aligned (noise_at fr i)" using assms by (simp add: frame_ok_def noise_at_def aligned_add)
  show "root_slot (df_root fr)" using assms by (simp add: frame_ok_def)
  then show "aligned (df_root fr)" by (simp add: root_slot_def aligned_def)
  show "i < 256 \<Longrightarrow> noise_at fr i \<notin> H" "df_root fr \<notin> H" using assms by (simp_all add: frame_ok_def)
  show "df_root fr \<notin> noise_words fr" using assms by (auto simp: frame_ok_def noise_words_def)
  show "df_alpha fr \<in> noise_words fr" "df_beta fr \<in> noise_words fr"
    using assms by (auto simp: frame_ok_def noise_words_def)
qed

lemma noise_at_inj: "i < 256 \<Longrightarrow> j < 256 \<Longrightarrow> noise_at fr i = noise_at fr j \<longleftrightarrow> i = j"
proof -
  assume ij: "i < 256" "j < 256"
  have "unat (8 * of_nat k :: u64) = 8 * k" if "k < 256" for k
    using that by (simp add: unat_word_ariths unat_of_nat)
  with ij show ?thesis unfolding noise_at_def
    by (metis add_left_cancel mult_left_cancel zero_neq_numeral)
qed

lemma aligned_noise: "aligned (df_noise fr) \<Longrightarrow> aligned a \<Longrightarrow> a - df_noise fr < 2048 \<Longrightarrow> a \<in> noise_words fr"
proof -
  assume a: "aligned (df_noise fr)" "aligned a" "a - df_noise fr < 2048"
  let ?k = "unat (a - df_noise fr) div 8"
  have "unat (a - df_noise fr) mod 8 = 0" using aligned_diff [OF a(2,1)] by (simp add: aligned_def)
  then have "unat (a - df_noise fr) = 8 * ?k" by presburger
  moreover have "a - df_noise fr = of_nat (unat (a - df_noise fr))" by simp
  ultimately have "a - df_noise fr = of_nat (8 * ?k)" by (rule subst)
  then have "a = noise_at fr ?k" by (simp add: noise_at_def algebra_simps)
  moreover have "?k < 256" using a(3) by (simp add: word_less_nat_alt)
  ultimately show ?thesis by (auto simp: noise_words_def)
qed

lemma fill_noise:
  assumes "aligned (df_noise fr)" "\<And>i. aligned (noise_at fr i)" "n \<le> 256"
    and "t = fold (\<lambda>i. put_word (noise_at fr i) (of_nat i)) [0..<n] s"
  shows "mem_only s t \<and> (\<forall>i<n. get_word (noise_at fr i) t = of_nat i) \<and>
    (\<forall>a. aligned a \<longrightarrow> a \<notin> noise_words fr \<longrightarrow> get_word a t = get_word a s)"
  using assms(3) unfolding assms(4)
proof (induction n)
  case 0
  show ?case by (auto simp: mem_only_def intro: exI [of _ "gc_mem s"])
next
  case (Suc n)
  let ?u = "fold (\<lambda>i. put_word (noise_at fr i) (of_nat i)) [0..<n] s"
  have IH: "mem_only s ?u" "\<And>i. i < n \<Longrightarrow> get_word (noise_at fr i) ?u = of_nat i"
    "\<And>a. aligned a \<Longrightarrow> a \<notin> noise_words fr \<Longrightarrow> get_word a ?u = get_word a s"
    using Suc by simp_all
  have e: "fold (\<lambda>i. put_word (noise_at fr i) (of_nat i)) [0..<Suc n] s = put_word (noise_at fr n) (of_nat n) ?u" by simp
  have "noise_at fr n \<in> noise_words fr" using Suc.prems by (simp add: noise_words_def)
  then show ?case
    unfolding e using IH Suc.prems assms(2)
    by (auto simp: get_put_aligned noise_at_inj less_Suc_eq intro: mem_only_trans [OF _ mem_only_put])
qed

lemma noise_xor: "fold (\<lambda>i sink. sink XOR of_nat i) [0..<256] (0 :: u64) = 0"
  by code_simp

lemma demo_scrub:
  assumes w: "demo_world env H" and fr: "frame_ok fr H" and s: "demo_state env H c rs L N s"
  obtains t where "run (scrub_stack fr s) = (Done ((), []), t)" "demo_state env H c rs (L |` (- noise_words fr)) N t"
    "gc_events t = gc_events s"
proof -
  note s' = demo_stateD [OF s]
  note f = frame_okD [OF fr]
  have base: "aligned (df_noise fr)" using fr by (simp add: frame_ok_def)
  let ?s = "s\<lparr>gc_mem := memset_zero (gc_mem s) (df_noise fr) 2048\<rparr>"
  let ?t = "fold (\<lambda>i. put_word (noise_at fr i) (of_nat i)) [0..<256] ?s"
  have "mem_only s ?s" by (auto simp: mem_only_def)
  moreover have cleared: "get_word a ?s = get_word a s" if "aligned a" "a \<notin> noise_words fr" for a
    using get_memset [OF that(1) base, of 2048 ?s s] aligned_noise [OF base that(1)] that(2) by (auto simp: aligned_def)
  moreover note fill = fill_noise [OF base f(1), of 256 ?t ?s]
  ultimately have mo: "mem_only s ?t" and noise: "\<And>i. i < 256 \<Longrightarrow> get_word (noise_at fr i) ?t = of_nat i"
    and same: "\<And>a. aligned a \<Longrightarrow> a \<notin> noise_words fr \<Longrightarrow> get_word a ?t = get_word a s"
    by (auto intro: mem_only_trans)
  have "fold (\<lambda>i sink. sink XOR get_word (noise_at fr i) ?t) [0..<256] 0 = fold (\<lambda>i sink. sink XOR of_nat i) [0..<256] (0 :: u64)"
    by (rule fold_cong) (simp_all add: noise)
  then have run: "run (scrub_stack fr s) = (Done ((), []), ?t)"
    by (simp add: scrub_stack_def Let_def run_leaf noise_xor)
  have small: "get_word a ?t \<notin> H" if a: "a \<in> noise_words fr" for a
  proof -
    obtain i where i: "i < 256" "a = noise_at fr i" using a by (auto simp: noise_words_def)
    then have "small_word (of_nat i)" by (simp add: small_word_def word_less_nat_alt unat_of_nat)
    then show ?thesis using small_not_heap [OF w] noise [OF i(1)] i(2) by simp
  qed
  note d = locals_okD [OF s'(5)]
  have "locals_ok H (L |` (- noise_words fr)) ?t"
    unfolding locals_ok_def
  proof (intro conjI allI impI)
    fix a assume a: "aligned a" "a \<notin> H" "get_word a ?t \<in> H"
    then have "a \<notin> noise_words fr" using small by blast
    then show "(L |` (- noise_words fr)) a = Some (get_word a ?t)" using d(1) [OF a(1,2)] same [OF a(1)] a(3) by simp
  next
    fix a v assume "(L |` (- noise_words fr)) a = Some v"
    then have a: "L a = Some v" "a \<notin> noise_words fr" by (auto simp: restrict_map_def split: if_splits)
    show "aligned a" "a \<notin> H" using d(2,3) [OF a(1)] by simp_all
    then show "get_word a ?t = v" using same a(2) d(4) [OF a(1)] by simp
  qed
  moreover have "node_at ?t p nx l" if N: "N p = Some (nx, l)" for p nx l
  proof (rule node_at_words [OF nodes_okD(1) [OF s'(6) N]])
    fix a assume a: "a \<in> set (node_words p)"
    have "a \<in> H" using node_words_heap(1) [OF s'(6) _ a] N by blast
    then have "a \<notin> noise_words fr" using f(2) by (auto simp: noise_words_def)
    moreover have "aligned a" using node_words_aligned [OF node_at_aligned [OF nodes_okD(1) [OF s'(6) N]] a] .
    ultimately show "get_word a ?t = get_word a s" using same by simp
  qed
  ultimately have "demo_state env H c rs (L |` (- noise_words fr)) N ?t" by (intro demo_state_mem [OF s mo])
  with that [OF run] mem_only_sel(3) [OF mo] show ?thesis by blast
qed

section \<open>Roots\<close>

lemma self_range_addrs: "root_slot r \<Longrightarrow> set (word_addrs r (r + 8)) = {r}"
proof -
  assume r: "root_slot r"
  then have u: "unat (r + 8) = unat r + 8" "r + 8 \<noteq> 0" "r \<noteq> 0" using self_range_normal(2,3) [OF r] by (simp_all add: root_slot_def)
  then have le: "r \<le> r + 8" by (simp add: word_le_nat_alt)
  have "a \<in> set (word_addrs r (r + 8)) \<longleftrightarrow> a = r" for a
    unfolding set_word_addrs [OF u(3,2)] using r u(1) le
    by (auto simp: min_absorb1 max_absorb2 root_slot_def word_unat_eq_iff)
  then show ?thesis by blast
qed

lemma root_ranges_outside: "root_slot r \<Longrightarrow> r \<notin> H \<Longrightarrow> ranges_outside H [self_range r]"
  using self_range_addrs [of r] by (simp add: ranges_outside_def self_range_def)

lemma demo_state_ranges:
  assumes "demo_state env H c rs L N s"
  shows "demo_state env H c rs' L N (s\<lparr>gc_root_ranges := rs'\<rparr>)"
proof -
  let ?t = "s\<lparr>gc_root_ranges := rs'\<rparr>"
  note s' = demo_stateD [OF assms]
  have m: "gc_mem ?t = gc_mem s" by simp
  have "nodes_ok H N ?t" using s'(6) unfolding nodes_ok_def node_at_mem [OF m] by (simp add: blocks_def)
  moreover have "heap_inv ?t" using s'(1) heap_inv_tables [of ?t s] by simp
  ultimately show ?thesis
    using s'(3,5) by (simp add: demo_state_def idle_def node_regions_def locals_ok_mem [OF m])
qed

lemma demo_root_reachable:
  assumes s: "demo_state env H c rs L N s" and r: "root_slot r" "self_range r \<in> set rs" and p: "L r = Some p" "p \<in> dom N"
  shows "node_block p \<in> reachable env c s"
proof (rule candidate_reachable)
  note s' = demo_stateD [OF s]
  show "find_block_locked p s = Some (node_block p)" by (rule node_find(3) [OF s'(6,2) p(2)])
  have "load_word (gc_mem s) r = p" using locals_okD(4) [OF s'(5) p(1)] by (simp add: get_word_def)
  then have "p \<in> set (range_candidates (gc_mem s) r (r + 8))"
    using self_range_addrs [OF r(1)] by (simp add: range_candidates_def)
  then show "p \<in> set (root_candidates env c s)"
    using r(2) s'(4) unfolding root_candidates_def by (force simp: self_range_def)
qed

section \<open>What a collection prints\<close>

definition label_of :: "(addr \<rightharpoonup> addr \<times> string) \<Rightarrow> addr \<Rightarrow> string" where
  "label_of N p = snd (the (N p))"

lemma node_label:
  assumes "node_at s p nx l"
  shows "get_string (p + 8) s = l"
  using assms get_string_words [of "p + 8" s "p + 24" "length l" "pack_chars l"]
  by (simp add: node_at_def label_ok_def add.assoc)

lemma run_printing:
  assumes "run (m s) = (Done x, t)" "gc_events t = gc_events s @ es"
  shows "run (printing m s) = (Done (x, concat (map (destroying s) es)), t)"
  using assms by (simp add: printing_def prog_simps)

lemma run_then_print:
  assumes "run m = (Done (x, ls), t)" "run (f x t) = (Done (y, ls'), u)"
  shows "run (then_print m f) = (Done (y, ls @ ls'), u)"
  using assms by (simp add: then_print_def prog_simps)

lemma frees_print_nothing: "concat (map (destroying s) (frees t hs)) = []"
  by (induction hs) (simp_all add: frees_def)

lemma finalizations_print:
  assumes "demo_state env H c rs L N s" "set ps \<subseteq> dom N"
  shows "concat (map (destroying s) (finalizations s (map (\<lambda>p. p - 32) ps))) = map (\<lambda>p. Destroying_Line (label_of N p)) ps"
  using assms(2)
proof (induction ps)
  case (Cons p ps)
  note s' = demo_stateD [OF assms(1)]
  obtain nx l where N: "N p = Some (nx, l)" using Cons.prems by auto
  note n = nodes_okD [OF s'(6) N]
  have "payload_pointer (p - 32) s = p" using payload_pointer_block [OF s'(2) n(6)] by simp
  then have "finalization_of s (p - 32) = [Finalized node_destructor p]"
    using n(2,3) by (simp add: finalization_of_def)
  with Cons node_label [OF n(1)] show ?case by (simp add: finalizations_def label_of_def N)
qed (simp add: finalizations_def)

lemma demo_collect_prints:
  assumes w: "demo_world env H" and s: "demo_state env H c rs L N s"
    and K: "K \<subseteq> dom N" "reachable env c s = node_block ` K"
  obtains ps t where
    "run (printing (collect env c) s) = (Done ((), map (\<lambda>p. Destroying_Line (label_of N p)) ps), t)"
    "demo_state env H c rs L (N |` K) t" "distinct ps" "set ps = dom N - K"
    "referrers_first s (node_block ` (dom N - K)) (map (\<lambda>p. p - 32) ps)"
proof (rule demo_collect [OF w s K])
  fix hs t assume a: "run (collect env c s) = (Done (), t)" "demo_state env H c rs L (N |` K) t"
    "gc_events t = gc_events s @ finalizations s hs @ frees s hs" "distinct hs"
    "set hs = (\<lambda>p. p - 32) ` (dom N - K)" "referrers_first s (node_block ` (dom N - K)) hs"
    "gc_mem t = gc_mem s"
  let ?ps = "map (\<lambda>h. h + 32) hs"
  have hs: "map (\<lambda>p. p - 32) ?ps = hs" by (simp add: comp_def)
  have ps: "distinct ?ps" "set ?ps = dom N - K"
    using a(4,5) by (simp_all add: distinct_map inj_on_def image_image)
  have "run (printing (collect env c) s) = (Done ((), map (\<lambda>p. Destroying_Line (label_of N p)) ?ps), t)"
    using run_printing [where m = "collect env c", OF a(1,3)] finalizations_print [OF s, of ?ps] ps(2)
    by (simp only: hs map_append concat_append frees_print_nothing append_Nil2) blast
  moreover have "referrers_first s (node_block ` (dom N - K)) (map (\<lambda>p. p - 32) ?ps)" using a(6) unfolding hs .
  ultimately show ?thesis using a(2) ps by (intro that)
qed

end
