(* ===== verification/Demo_Run.thy ===== *)
theory Demo_Run
  imports Demo_Heap
begin

text \<open>
  The runs of \<open>demo_main\<close> and \<open>quick_start\<close>, statement by statement: what they print, and that they
  give everything back.
\<close>

section \<open>The start of the program\<close>

lemma demo_register:
  assumes w: "demo_world env H" and m: "\<And>a. aligned a \<Longrightarrow> a \<notin> H \<Longrightarrow> load_word m a \<notin> H"
  obtains s where "run (gc_register_current_thread env c (Unused m)) = (Done (), s)"
    "demo_state env H c [] Map.empty Map.empty s" "gc_events s = []"
proof -
  let ?s = "(new_gc_state m)\<lparr>gc_threads := [(c, new_ThreadState\<lparr>ts_stack_bottom := demo_stack_bottom env\<rparr>)]\<rparr>"
  obtain base n where st: "e_pthread_stack env = Some (base, n)" "base \<noteq> 0" "n \<noteq> 0" "base + n = demo_stack_bottom env"
    using w by (auto simp: demo_world_def demo_stack_bottom_def)
  have mem: "\<not> e_alloc_fails env Threads_Node" and bot: "demo_stack_bottom env \<noteq> 0"
    using w by (simp_all add: demo_world_def out_of_memory_def)
  have "run (gc_register_current_thread env c (Unused m)) = (Done (), ?s)"
    using st mem bot
    by (simp add: gc_register_current_thread_def manager_instance_def register_current_thread_def prog_simps
        detect_current_thread_stack_bottom_def register_stack_bottom_def may_proceed_def new_gc_state_def
        find_thread_state_locked_def om_find_def om_adjust_def)
  moreover have "heap_inv ?s" using new_heap_inv [of m] heap_inv_tables [of ?s "new_gc_state m"] by simp
  moreover have "locals_ok H Map.empty ?s" using m by (simp add: locals_ok_def get_word_def new_gc_state_def)
  moreover have "idle env c ?s" by (simp add: idle_def node_regions_def new_gc_state_def)
  moreover have "nodes_ok H Map.empty ?s" by (simp add: nodes_ok_def new_gc_state_def blocks_def)
  moreover have "gc_root_ranges ?s = []" "gc_events ?s = []" by (simp_all add: new_gc_state_def)
  ultimately show ?thesis by (intro that [of ?s]) (simp_all add: demo_state_def)
qed

text \<open>The rooted list of two nodes.\<close>

lemma demo_main_root:
  assumes w: "demo_world env H" and fr: "frame_ok fr H" and s: "demo_state env H c [] Map.empty Map.empty s"
  obtains p q t where "run (main_root env c fr s) = (Done (), t)" "p \<noteq> q" "gc_events t = gc_events s"
    "demo_state env H c [self_range (df_root fr)] [df_root fr \<mapsto> p] [p \<mapsto> (q, ''root''), q \<mapsto> (0, ''child'')] t"
proof -
  note f = frame_okD [OF fr]
  let ?r = "df_root fr"
  obtain p s1 where 1: "run (gc_new_Node env c ''root'' s) = (Done (Gc_Ptr p), s1)"
    "demo_state env H c [] Map.empty [p \<mapsto> (0, ''root'')] s1" "gc_events s1 = gc_events s"
    by (rule demo_new_node [OF w s, where l = "''root''"]) simp_all
  let ?s2 = "put_word ?r p s1" let ?s3 = "?s2\<lparr>gc_root_ranges := [self_range ?r]\<rparr>"
  note 2 = demo_put_local [OF 1(2) f(4,5), of p]
  note 3 = demo_state_ranges [OF 2, of "[self_range ?r]"]
  have mem: "\<not> e_alloc_fails env Root_Ranges_Push" using w by (simp add: demo_world_def out_of_memory_def)
  have run3: "run (gc_root_from_ptr env c ?r (Gc_Ptr p) s1) = (Done (), ?s3)"
    using register_self_result [OF f(3) idle_ready(1) [OF demo_stateD(3) [OF 2] w], of env] mem demo_stateD(4) [OF 2]
    by (simp add: gc_root_from_ptr_def gc_ptr_get_def)
  have few: "card (dom [p \<mapsto> (0 :: addr, ''root'')]) < 4" by simp
  obtain q s4 where 4: "run (gc_new_Node env c ''child'' ?s3) = (Done (Gc_Ptr q), s4)" "q \<noteq> p"
    "demo_state env H c [self_range ?r] [?r \<mapsto> p] [p \<mapsto> (0, ''root''), q \<mapsto> (0, ''child'')] s4" "gc_events s4 = gc_events ?s3"
    by (rule demo_new_node [OF w 3 few, where l = "''child''"]) simp_all
  let ?t = "put_word p q s4"
  have "demo_state env H c [self_range ?r] [?r \<mapsto> p] ([p \<mapsto> (0, ''root''), q \<mapsto> (0, ''child'')](p \<mapsto> (q, ''root''))) ?t"
    using 4(2) by (intro demo_put_next [OF 4(3)]) auto
  moreover have "[p \<mapsto> (0, ''root''), q \<mapsto> (0, ''child'')](p \<mapsto> (q, ''root'')) = [p \<mapsto> (q, ''root''), q \<mapsto> (0, ''child'')]"
    using 4(2) by (auto simp: fun_eq_iff)
  moreover have "run (main_root env c fr s) = (Done (), ?t)"
    using locals_okD(4) [OF demo_stateD(5) [OF 4(3)], of ?r p]
    by (simp add: main_root_def prog_simps 1(1) run3 4(1) gc_root_arrow_def gc_ptr_arrow_def gc_ptr_get_def)
  moreover have "gc_events ?t = gc_events s" using 1(3) 4(4) by (simp add: put_word_def)
  ultimately show ?thesis using 4(2) that by metis
qed

text \<open>The cycle.\<close>

lemma demo_build_cycle:
  assumes w: "demo_world env H" and fr: "frame_ok fr H" and s: "demo_state env H c rs L N s" and two: "card (dom N) = 2"
  obtains a b t L' where "run (build_unreachable_cycle env c fr s) = (Done (), t)" "gc_events t = gc_events s"
    "a \<noteq> b" "a \<notin> dom N" "b \<notin> dom N" "L' |` (- noise_words fr) = L |` (- noise_words fr)"
    "demo_state env H c rs L' (N(a \<mapsto> (b, ''alpha''), b \<mapsto> (a, ''beta''))) t"
proof -
  note f = frame_okD [OF fr]
  obtain i j where ij: "i < 256" "j < 256" "df_alpha fr = noise_at fr i" "df_beta fr = noise_at fr j"
    using f(7,8) by (auto simp: noise_words_def)
  have loc: "aligned (df_alpha fr)" "df_alpha fr \<notin> H" "aligned (df_beta fr)" "df_beta fr \<notin> H"
    using f(1,2) ij by simp_all
  have fin: "finite (dom N)" using demo_stateD(6) [OF s] by (simp add: nodes_ok_def)
  have few: "card (dom N) < 4" using two by simp
  obtain a s1 where 1: "run (gc_new_Node env c ''alpha'' s) = (Done (Gc_Ptr a), s1)" "a \<notin> dom N"
    "demo_state env H c rs L (N(a \<mapsto> (0, ''alpha''))) s1" "gc_events s1 = gc_events s"
    by (rule demo_new_node [OF w s few, where l = "''alpha''"]) simp_all
  let ?s2 = "put_word (df_alpha fr) a s1"
  note 2 = demo_put_local [OF 1(3) loc(1,2), of a]
  have few': "card (dom (N(a \<mapsto> (0 :: addr, ''alpha'')))) < 4" using two fin 1(2) by simp
  obtain b s3 where 3: "run (gc_new_Node env c ''beta'' ?s2) = (Done (Gc_Ptr b), s3)"
    "b \<notin> dom (N(a \<mapsto> (0, ''alpha'')))"
    "demo_state env H c rs (L(df_alpha fr \<mapsto> a)) (N(a \<mapsto> (0, ''alpha''), b \<mapsto> (0, ''beta''))) s3" "gc_events s3 = gc_events ?s2"
    by (rule demo_new_node [OF w 2 few', where l = "''beta''"]) simp_all
  have ab: "a \<noteq> b" "b \<notin> dom N" using 3(2) by auto
  let ?L = "L(df_alpha fr \<mapsto> a, df_beta fr \<mapsto> b)"
  let ?s4 = "put_word (df_beta fr) b s3" let ?s5 = "put_word a b ?s4" let ?t = "put_word b a ?s5"
  note 4 = demo_put_local [OF 3(3) loc(3,4), of b]
  have 5: "demo_state env H c rs ?L (N(a \<mapsto> (0, ''alpha''), b \<mapsto> (0, ''beta''), a \<mapsto> (b, ''alpha''))) ?s5"
    using ab by (intro demo_put_next [OF 4]) auto
  have "demo_state env H c rs ?L (N(a \<mapsto> (0, ''alpha''), b \<mapsto> (0, ''beta''), a \<mapsto> (b, ''alpha''), b \<mapsto> (a, ''beta''))) ?t"
    using ab by (intro demo_put_next [OF 5]) auto
  moreover have "N(a \<mapsto> (0, ''alpha''), b \<mapsto> (0, ''beta''), a \<mapsto> (b, ''alpha''), b \<mapsto> (a, ''beta'')) =
      N(a \<mapsto> (b, ''alpha''), b \<mapsto> (a, ''beta''))" using ab by (auto simp: fun_eq_iff)
  moreover have "run (build_unreachable_cycle env c fr s) = (Done (), ?t)"
    by (simp add: build_unreachable_cycle_def prog_simps Let_def 1(1) 3(1) gc_ptr_get_def gc_ptr_arrow_def)
  moreover have "?L |` (- noise_words fr) = L |` (- noise_words fr)"
    using f(7,8) by (auto simp: restrict_map_def fun_eq_iff)
  moreover have "gc_events ?t = gc_events s" using 1(4) 3(4) by (simp add: put_word_def)
  ultimately show ?thesis using ab 1(2) that by metis
qed

lemma demo_count:
  assumes "demo_world env H" "demo_state env H c rs L N s"
  shows "run (print_block_count env c txt s) = (Done ((), [Blocks_Line txt (of_nat (card (dom N)))]), s)"
  using demo_sizes(1) [OF assms(2)] idle_ready(1) [OF demo_stateD(3) [OF assms(2)] assms(1)]
  by (simp add: print_block_count_def managed_block_count_def prog_simps)

section \<open>The collections of the program\<close>

definition rooted_list :: "addr \<Rightarrow> addr \<Rightarrow> addr \<rightharpoonup> addr \<times> string" where
  "rooted_list p q = [p \<mapsto> (q, ''root''), q \<mapsto> (0, ''child'')]"

lemma rooted_list_dom [simp]: "dom (rooted_list p q) = {p, q}"
  by (auto simp: rooted_list_def)

lemma null_not_heap: "demo_world env H \<Longrightarrow> 0 \<notin> H"
  by (erule small_not_heap) (simp add: small_word_def)

text \<open>With the root, both nodes of the list are reachable, and nothing else is.\<close>

lemma rooted_reachable_nodes:
  assumes w: "demo_world env H" and fr: "frame_ok fr H" and pq: "p \<noteq> q" "p \<notin> dom M" "q \<notin> dom M"
    and s: "demo_state env H c [self_range (df_root fr)] [df_root fr \<mapsto> p] (rooted_list p q ++ M) s"
  shows "reachable env c s = node_block ` {p, q}"
proof
  note f = frame_okD [OF fr]
  note s' = demo_stateD [OF s]
  have N: "(rooted_list p q ++ M) p = Some (q, ''root'')" "(rooted_list p q ++ M) q = Some (0, ''child'')"
    using pq by (auto simp: rooted_list_def map_add_def domIff split: option.splits)
  have "0 \<notin> dom (rooted_list p q ++ M)"
    by (rule contrapos_nn [OF null_not_heap [OF w] node_bounds(3) [OF s'(6,2)]])
  then show "reachable env c s \<subseteq> node_block ` {p, q}"
    using N by (intro demo_reachable_sub [OF w s root_ranges_outside [OF f(3,5)]]) auto
  have "node_block p \<in> reachable env c s" using N by (intro demo_root_reachable [OF s f(3)]) auto
  moreover from this have "node_block q \<in> reachable env c s"
    using N by (intro demo_next_reachable [OF w s _ N(1)]) auto
  ultimately show "node_block ` {p, q} \<subseteq> reachable env c s" by simp
qed

lemma collect_keeps_list:
  assumes w: "demo_world env H" and fr: "frame_ok fr H" and pq: "p \<noteq> q" "p \<notin> dom M" "q \<notin> dom M"
    and s: "demo_state env H c [self_range (df_root fr)] [df_root fr \<mapsto> p] (rooted_list p q ++ M) s"
  obtains ps t where
    "run (printing (collect env c) s) = (Done ((), map (\<lambda>x. Destroying_Line (label_of M x)) ps), t)"
    "demo_state env H c [self_range (df_root fr)] [df_root fr \<mapsto> p] (rooted_list p q) t"
    "distinct ps" "set ps = dom M"
proof (rule demo_collect_prints [OF w s _ rooted_reachable_nodes [OF w fr pq s]])
  show "{p, q} \<subseteq> dom (rooted_list p q ++ M)" by simp
  fix ps t assume t: "run (printing (collect env c) s) =
      (Done ((), map (\<lambda>x. Destroying_Line (label_of (rooted_list p q ++ M) x)) ps), t)"
    "demo_state env H c [self_range (df_root fr)] [df_root fr \<mapsto> p] ((rooted_list p q ++ M) |` {p, q}) t"
    "distinct ps" "set ps = dom (rooted_list p q ++ M) - {p, q}"
  have ps: "set ps = dom M" using t(4) pq by auto
  have "(rooted_list p q ++ M) |` {p, q} = rooted_list p q"
    using pq by (auto simp: rooted_list_def restrict_map_def map_add_def domIff fun_eq_iff split: option.splits)
  moreover have "label_of (rooted_list p q ++ M) x = label_of M x" if "x \<in> set ps" for x
    using that ps by (auto simp: label_of_def)
  then have m: "map (\<lambda>x. Destroying_Line (label_of (rooted_list p q ++ M) x)) ps = map (\<lambda>x. Destroying_Line (label_of M x)) ps"
    by simp
  ultimately show ?thesis using t(2,3) ps by (intro that [OF t(1) [unfolded m]]) simp_all
qed

text \<open>Without the root nothing is reachable, and the head of the list is finalized first.\<close>

lemma two_in_order:
  assumes "distinct ps" "set ps = {p, q}" "p \<noteq> q" "map h ps = xs @ h p # ys @ h q # zs" "inj h"
  shows "ps = [p, q]"
proof -
  have "length ps = card {p, q}" using distinct_card [OF assms(1)] assms(2) by simp
  then have "length ps = Suc (Suc 0)" using assms(3) by simp
  then obtain x y where ps: "ps = [x, y]" by (auto simp: length_Suc_conv)
  have "length (map h ps) = length (xs @ h p # ys @ h q # zs)" by (simp only: assms(4))
  then have "xs = []" using ps by simp
  with assms(4) have "h x = h p" unfolding ps by simp
  then have "x = p" by (rule injD [OF assms(5)])
  then show ?thesis using assms(2,3) unfolding ps by (simp add: doubleton_eq_iff)
qed

lemma collect_drops_list:
  assumes w: "demo_world env H" and fr: "frame_ok fr H" and pq: "p \<noteq> q"
    and s: "demo_state env H c [self_range (df_root fr)] [df_root fr \<mapsto> 0] (rooted_list p q) s"
  obtains t where
    "run (printing (collect env c) s) = (Done ((), [Destroying_Line ''root'', Destroying_Line ''child'']), t)"
    "demo_state env H c [self_range (df_root fr)] [df_root fr \<mapsto> 0] Map.empty t"
proof -
  note f = frame_okD [OF fr]
  note s' = demo_stateD [OF s]
  let ?N = "rooted_list p q"
  have N: "?N p = Some (q, ''root'')" "?N q = Some (0, ''child'')" using pq by (simp_all add: rooted_list_def)
  have zero: "0 \<notin> dom ?N" using node_bounds(3) [OF s'(6,2), of 0] null_not_heap [OF w] by blast
  have "reachable env c s \<subseteq> node_block ` {}"
    using null_not_heap [OF w] by (intro demo_reachable_sub [OF w s root_ranges_outside [OF f(3,5)]]) auto
  then have none: "reachable env c s = node_block ` {}" by simp
  show ?thesis
  proof (rule demo_collect_prints [OF w s _ none])
    fix ps t assume t: "run (printing (collect env c) s) = (Done ((), map (\<lambda>x. Destroying_Line (label_of ?N x)) ps), t)"
      "demo_state env H c [self_range (df_root fr)] [df_root fr \<mapsto> 0] (?N |` {}) t"
      "distinct ps" "set ps = dom ?N - {}" "referrers_first s (node_block ` (dom ?N - {})) (map (\<lambda>p. p - 32) ps)"
    let ?D = "dead_rel s (node_block ` (dom ?N - {}))"
    have "refs s (node_block p) = {node_block p, node_block q}" "refs s (node_block q) = {node_block q}"
      using node_refs [OF w s'(6,2) N(1)] node_refs [OF w s'(6,2) N(2)] zero by auto
    then have D: "?D = {(node_block p, node_block q)}" using pq by (auto simp: dead_rel_def)
    have "trans ?D" unfolding D by (auto simp: trans_def)
    then have tr: "?D\<^sup>+ = ?D" by (rule trancl_id)
    have "(x, x) \<notin> ?D\<^sup>+" for x unfolding tr unfolding D using pq by simp
    then have "\<exists>xs ys zs. map (\<lambda>p. p - 32) ps = xs @ br_header (node_block p) # ys @ br_header (node_block q) # zs"
      using t(5) D unfolding referrers_first_def by blast
    then have "ps = [p, q]" using t(3,4) pq by (auto intro!: two_in_order [where h = "\<lambda>p. p - 32"] injI)
    then show ?thesis using t(1,2) N by (intro that [of t]) (simp_all add: label_of_def)
  qed simp
qed

section \<open>The end of the program\<close>

lemma shutdown_of_empty_heap:
  assumes w: "demo_world env H" and s: "demo_state env H c rs L Map.empty s"
  obtains t where "run (shutdown env c s) = (Done (), t)" "gc_allocations t = []" "gc_regions t = []"
    "gc_root_ranges t = rs" "gc_events t = gc_events s" "gc_managed_bytes t = 0" "may_proceed c t"
proof -
  note s' = demo_stateD [OF s]
  note rdy = idle_ready [OF s'(3) w]
  have e: "gc_allocations s = []" "gc_regions s = []" using demo_sizes(1,2) [OF s] by simp_all
  have ord: "order_blocks_for_finalization_locked env [] u = (Return [], u)" for u
    by (simp add: order_blocks_for_finalization_locked_def finalization_indices_def)
  have ctl: "\<not> gc_collecting s" "gc_weak_refs s = []" "gc_root_ranges s = rs"
    using s'(3,4) by (simp_all add: idle_def)
  note run = run_shutdown_unfold [OF rdy(1) ctl(1) rdy(4), of env]
  show ?thesis
    using that e ctl
    by (simp add: run shutdown_locked_def detach_all_blocks_locked_def ord prog_simps destroy_blocks_def
        zero_storages_def may_proceed_def request_stop_def)
qed

section \<open>The snapshot\<close>

text \<open>The lines of the snapshot: both nodes, and one reference, of the first to the second.\<close>

definition list_snapshot :: "addr \<Rightarrow> addr \<Rightarrow> dump_line list \<Rightarrow> bool" where
  "list_snapshot p q ls \<longleftrightarrow>
     (\<exists>al al'. let head_p = [Object_Line p 40 72 al 1, Reference_Line q]; tail_q = [Object_Line q 40 72 al' 0] in
        ls = Heap_Line 2 80 144 (64, 144) # (if p < q then head_p @ tail_q else tail_q @ head_p))"

lemma two_blocks:
  assumes s: "demo_state env H c rs L N s" and N: "dom N = {p, q}" "p \<noteq> q"
  shows "map snd (gc_allocations s) = (if p < q then [node_block p, node_block q] else [node_block q, node_block p])"
proof -
  note s' = demo_stateD [OF s]
  have "length (gc_allocations s) = Suc (Suc 0)" using demo_sizes(1) [OF s] N by simp
  then obtain u v where uv: "gc_allocations s = [u, v]" by (auto simp: length_Suc_conv)
  have blocked_listed: "blocks_listed [snd u, snd v]"
    using blocks_listed_entries [OF s'(2), of "\<lambda>_. True"] uv by simp
  have lt: "br_payload_begin (snd u) < br_payload_begin (snd v)"
    using blocks_listed_nth(1) [OF blocked_listed, of 0 1] by simp
  have "{snd u, snd v} = {node_block p, node_block q}" using s'(7) uv N(1) by (simp add: blocks_def)
  then consider "snd u = node_block p" "snd v = node_block q" | "snd u = node_block q" "snd v = node_block p"
    unfolding doubleton_eq_iff by blast
  then show ?thesis by cases (use lt uv less_asym in auto)
qed

lemma described_object:
  assumes "describes s (node_block p) i" "refs s (node_block p) - {node_block p} = node_block ` set ps" "distinct ps" "length ps \<le> 1"
  shows "dump_object i = Object_Line p 40 72 (ho_allocation_alignment i) (of_nat (length ps)) # map Reference_Line ps"
proof -
  have d: "distinct (ho_outgoing_references i)" "set (ho_outgoing_references i) = set ps"
    using assms(1,2) by (simp_all add: describes_def image_image)
  then have "length (ho_outgoing_references i) = length ps" using assms(3) distinct_card by metis
  with d(2) assms(4) have "ho_outgoing_references i = ps"
    by (cases ps; cases "ho_outgoing_references i") simp_all
  with assms(1) show ?thesis by (simp add: dump_object_def describes_def)
qed

lemma demo_dump:
  assumes w: "demo_world env H" and pq: "p \<noteq> q" and s: "demo_state env H c rs L (rooted_list p q) s"
  obtains ls where "run (dump_heap env c s) = (Done ls, s)" "list_snapshot p q ls"
proof -
  note s' = demo_stateD [OF s]
  note rdy = idle_ready [OF s'(3) w]
  have mem: "\<not> e_alloc_fails env Snapshot_Vector" using w by (simp add: demo_world_def out_of_memory_def)
  have col: "\<not> gc_collecting s" and res: "resumed s = s" using s'(3) by (simp_all add: idle_def resumed_def)
  obtain infos where infos: "run (live_objects env c s) = (Done infos, s)"
    "list_all2 (describes s) (map snd (gc_allocations s)) infos"
    using live_objects_result [OF s'(2) rdy(1) col rdy(4) mem] res by auto
  let ?N = "rooted_list p q"
  have N: "?N p = Some (q, ''root'')" "?N q = Some (0, ''child'')" using pq by (simp_all add: rooted_list_def)
  have zero: "0 \<notin> dom ?N" by (rule contrapos_nn [OF null_not_heap [OF w] node_bounds(3) [OF s'(6,2)]])
  have refs: "refs s (node_block p) - {node_block p} = node_block ` set [q]"
    "refs s (node_block q) - {node_block q} = node_block ` set []"
    using node_refs [OF w s'(6,2) N(1)] node_refs [OF w s'(6,2) N(2)] zero pq by auto
  have sz: "length (gc_allocations s) = 2" "unat (gc_managed_bytes s) = unat (80 :: size_t)"
    "unat (gc_reserved_bytes s) = unat (144 :: size_t)"
    using demo_sizes [OF s] pq by simp_all
  then have bytes: "gc_managed_bytes s = 80" "gc_reserved_bytes s = 144" by (simp_all only: word_unat_eq_iff)
  note obj = described_object [OF _ refs(1), simplified] and obj' = described_object [OF _ refs(2), simplified]
  note two = two_blocks [OF s rooted_list_dom pq]
  have "length infos = Suc (Suc 0)" using list_all2_lengthD [OF infos(2)] sz(1) by simp
  then obtain i j where ij: "infos = [i, j]" by (auto simp: length_Suc_conv)
  let ?ls = "Heap_Line 2 80 144 (64, 144) # dump_object i @ dump_object j"
  have "run (dump_heap env c s) = (Done ?ls, s)"
    using infos(1) ij bytes sz(1) rdy(1)
    by (simp add: dump_heap_def stats_def stats_snapshot_def prog_simps)
  moreover have "list_snapshot p q ?ls"
  proof (cases "p < q")
    case True
    then have "describes s (node_block p) i" "describes s (node_block q) j" using infos(2) two ij by simp_all
    with True obj obj' show ?thesis unfolding list_snapshot_def Let_def by auto
  next
    case False
    then have "describes s (node_block q) i" "describes s (node_block p) j" using infos(2) two ij by simp_all
    with False obj obj' show ?thesis unfolding list_snapshot_def Let_def by auto
  qed
  ultimately show ?thesis by (rule that)
qed

section \<open>The program\<close>

text \<open>What the program prints: labels \<open>x\<close> and \<open>y\<close> of the cycle, and the lines of the snapshot.\<close>

definition demo_output :: "string \<Rightarrow> string \<Rightarrow> dump_line list \<Rightarrow> demo_line list" where
  "demo_output x y snapshot =
     [Blocks_Line ''Managed blocks before collection: '' 2,
      Blocks_Line ''Managed blocks with a root on the stack: '' 2,
      Destroying_Line x, Destroying_Line y,
      Blocks_Line ''Managed blocks after reclaiming an unreachable cycle: '' 2] @
     map Snapshot_Line snapshot @
     [Destroying_Line ''root'', Destroying_Line ''child'',
      Blocks_Line ''Managed blocks after dropping every root: '' 0]"

lemma run_printing_nothing:
  "run (m s) = (Done x, t) \<Longrightarrow> gc_events t = gc_events s \<Longrightarrow> run (printing m s) = (Done (x, []), t)"
  using run_printing [of m s x t "[]"] by simp

lemma count_line:
  assumes "demo_world env H" "demo_state env H c rs L N s" "card (dom N) = n"
  shows "run (print_block_count env c txt s) = (Done ((), [Blocks_Line txt (of_nat n)]), s)"
  using demo_count [OF assms(1,2)] assms(3) by simp

lemma pure_line: "run (m s) = (Done ls, s) \<Longrightarrow> run (bindp (m s) (\<lambda>ls s. (Return ((), map g ls), s))) = (Done ((), map g ls), s)"
  by (simp add: prog_simps)

text \<open>The cycle is built, its addresses are scrubbed from the stack, and the collection destroys it.\<close>

lemma demo_cycle_reclaimed:
  assumes w: "demo_world env H" and fr: "frame_ok fr H" and pq: "p \<noteq> q"
    and s: "demo_state env H c [self_range (df_root fr)] [df_root fr \<mapsto> p] (rooted_list p q) s"
  obtains t u v x y where "run (printing (build_unreachable_cycle env c fr) s) = (Done ((), []), t)"
    "run (scrub_stack fr t) = (Done ((), []), u)"
    "run (printing (collect env c) u) = (Done ((), [Destroying_Line x, Destroying_Line y]), v)"
    "{x, y} = {''alpha'', ''beta''}"
    "demo_state env H c [self_range (df_root fr)] [df_root fr \<mapsto> p] (rooted_list p q) v"
proof -
  let ?r = "df_root fr"
  note f = frame_okD [OF fr]
  have two: "card (dom (rooted_list p q)) = 2" using pq by simp
  obtain a b t L where 1: "run (build_unreachable_cycle env c fr s) = (Done (), t)" "gc_events t = gc_events s"
    "a \<noteq> b" "a \<notin> dom (rooted_list p q)" "b \<notin> dom (rooted_list p q)" "L |` (- noise_words fr) = [?r \<mapsto> p] |` (- noise_words fr)"
    "demo_state env H c [self_range ?r] L ((rooted_list p q)(a \<mapsto> (b, ''alpha''), b \<mapsto> (a, ''beta''))) t"
    by (rule demo_build_cycle [OF w fr s two])
  let ?M = "[a \<mapsto> (b, ''alpha''), b \<mapsto> (a, ''beta'')]"
  have M: "(rooted_list p q)(a \<mapsto> (b, ''alpha''), b \<mapsto> (a, ''beta'')) = rooted_list p q ++ ?M"
    by (simp add: map_add_def fun_eq_iff)
  have clean: "[?r \<mapsto> p] |` (- noise_words fr) = [?r \<mapsto> p]" using f(6) by (auto simp: restrict_map_def fun_eq_iff)
  obtain u where 2: "run (scrub_stack fr t) = (Done ((), []), u)"
    "demo_state env H c [self_range ?r] [?r \<mapsto> p] (rooted_list p q ++ ?M) u"
    using demo_scrub [OF w fr 1(7)] unfolding 1(6) clean M by blast
  obtain ps v where 3: "run (printing (collect env c) u) = (Done ((), map (\<lambda>x. Destroying_Line (label_of ?M x)) ps), v)"
    "demo_state env H c [self_range ?r] [?r \<mapsto> p] (rooted_list p q) v" "distinct ps" "set ps = dom ?M"
    by (rule collect_keeps_list [OF w fr pq _ _ 2(2)]) (use 1(4,5) in auto)
  have "length ps = Suc (Suc 0)" using 3(3,4) 1(3) distinct_card [of ps] by simp
  then obtain x y where xy: "ps = [x, y]" by (auto simp: length_Suc_conv)
  then have "{x, y} = {a, b}" using 3(4) by auto
  then have "{label_of ?M x, label_of ?M y} = {''alpha'', ''beta''}"
    using 1(3) by (auto simp: doubleton_eq_iff label_of_def)
  moreover have "run (printing (build_unreachable_cycle env c fr) s) = (Done ((), []), t)"
    by (rule run_printing_nothing [where m = "build_unreachable_cycle env c fr", OF 1(1,2)])
  ultimately show ?thesis using 2(1) 3(1,2) xy by (intro that [of t u "label_of ?M x" "label_of ?M y" v]) simp_all
qed

text \<open>The root is reset, and the collection destroys the list.\<close>

lemma demo_list_dropped:
  assumes w: "demo_world env H" and fr: "frame_ok fr H" and pq: "p \<noteq> q"
    and s: "demo_state env H c [self_range (df_root fr)] [df_root fr \<mapsto> p] (rooted_list p q) s"
  obtains t u v where "run (printing (gc_root_reset (df_root fr) 0) s) = (Done ((), []), t)"
    "run (scrub_stack fr t) = (Done ((), []), u)"
    "run (printing (collect env c) u) = (Done ((), [Destroying_Line ''root'', Destroying_Line ''child'']), v)"
    "demo_state env H c [self_range (df_root fr)] [df_root fr \<mapsto> 0] Map.empty v"
proof -
  let ?r = "df_root fr" let ?t = "put_word ?r 0 s"
  note f = frame_okD [OF fr]
  have 1: "demo_state env H c [self_range ?r] [?r \<mapsto> 0] (rooted_list p q) ?t"
    using demo_put_local [OF s f(4,5), of 0] by simp
  have reset: "run (printing (gc_root_reset ?r 0) s) = (Done ((), []), ?t)"
    by (rule run_printing_nothing) (simp_all add: gc_root_reset_def run_leaf put_word_def)
  have clean: "[?r \<mapsto> 0] |` (- noise_words fr) = [?r \<mapsto> 0]" using f(6) by (auto simp: restrict_map_def fun_eq_iff)
  obtain u where 2: "run (scrub_stack fr ?t) = (Done ((), []), u)"
    "demo_state env H c [self_range ?r] [?r \<mapsto> 0] (rooted_list p q) u"
    using demo_scrub [OF w fr 1] unfolding clean by blast
  show ?thesis by (rule collect_drops_list [OF w fr pq 2(2)]) (rule that [OF reset 2(1)])
qed

lemma demo_body_result:
  assumes w: "demo_world env H" and fr: "frame_ok fr H" and s: "demo_state env H c [] Map.empty Map.empty s"
  shows "\<exists>t x y snapshot p q. run (demo_body env c fr s) = (Done ((), demo_output x y snapshot), t) \<and>
    {x, y} = {''alpha'', ''beta''} \<and> p \<noteq> q \<and> list_snapshot p q snapshot \<and>
    gc_allocations t = [] \<and> gc_regions t = [] \<and> gc_root_ranges t = [] \<and> gc_managed_bytes t = 0"
proof -
  let ?r = "df_root fr"
  obtain p q s1 where 1: "run (main_root env c fr s) = (Done (), s1)" "p \<noteq> q" "gc_events s1 = gc_events s"
    "demo_state env H c [self_range ?r] [?r \<mapsto> p] (rooted_list p q) s1"
    unfolding rooted_list_def by (rule demo_main_root [OF w fr s])
  have two: "card (dom (rooted_list p q)) = 2" using 1(2) by simp
  obtain s2 where 2: "run (printing (collect env c) s1) = (Done ((), []), s2)"
    "demo_state env H c [self_range ?r] [?r \<mapsto> p] (rooted_list p q) s2"
    using 1(4) by (auto intro: collect_keeps_list [OF w fr 1(2), of Map.empty c s1])
  obtain s3 s4 s5 x y where 3: "run (printing (build_unreachable_cycle env c fr) s2) = (Done ((), []), s3)"
    "run (scrub_stack fr s3) = (Done ((), []), s4)"
    "run (printing (collect env c) s4) = (Done ((), [Destroying_Line x, Destroying_Line y]), s5)"
    "{x, y} = {''alpha'', ''beta''}" "demo_state env H c [self_range ?r] [?r \<mapsto> p] (rooted_list p q) s5"
    by (rule demo_cycle_reclaimed [OF w fr 1(2) 2(2)])
  obtain ls where 4: "run (dump_heap env c s5) = (Done ls, s5)" "list_snapshot p q ls"
    by (rule demo_dump [OF w 1(2) 3(5)])
  obtain s7 s8 s9 where 5: "run (printing (gc_root_reset ?r 0) s5) = (Done ((), []), s7)"
    "run (scrub_stack fr s7) = (Done ((), []), s8)"
    "run (printing (collect env c) s8) = (Done ((), [Destroying_Line ''root'', Destroying_Line ''child'']), s9)"
    "demo_state env H c [self_range ?r] [?r \<mapsto> 0] Map.empty s9"
    by (rule demo_list_dropped [OF w fr 1(2) 3(5)])
  obtain t where 6: "run (shutdown env c s9) = (Done (), t)" "gc_allocations t = []" "gc_regions t = []"
    "gc_root_ranges t = [self_range ?r]" "gc_events t = gc_events s9" "gc_managed_bytes t = 0" "may_proceed c t"
    by (rule shutdown_of_empty_heap [OF w 5(4)])
  let ?t = "t\<lparr>gc_root_ranges := []\<rparr>"
  have 7: "run (printing (gc_root_destroy env c ?r) t) = (Done ((), []), ?t)"
    using unregister_self_result [OF frame_okD(3) [OF fr] 6(7), of env] 6(4)
    by (intro run_printing_nothing) (simp_all add: gc_root_destroy_def)
  let ?out = "[] @ [Blocks_Line ''Managed blocks before collection: '' (of_nat 2)] @ [] @
    [Blocks_Line ''Managed blocks with a root on the stack: '' (of_nat 2)] @ [] @ [] @ [Destroying_Line x, Destroying_Line y] @
    [Blocks_Line ''Managed blocks after reclaiming an unreachable cycle: '' (of_nat 2)] @
    map Snapshot_Line ls @ [] @ [] @ [Destroying_Line ''root'', Destroying_Line ''child''] @
    [Blocks_Line ''Managed blocks after dropping every root: '' (of_nat 0)] @ [] @ []"
  have "run (demo_body env c fr s) = (Done ((), ?out), ?t)"
    unfolding demo_body_def
    by (rule run_then_print, rule run_printing_nothing, rule 1(1), rule 1(3),
        rule run_then_print, rule count_line [OF w 1(4) two], rule run_then_print, rule 2(1),
        rule run_then_print, rule count_line [OF w 2(2) two], rule run_then_print, rule 3(1),
        rule run_then_print, rule 3(2), rule run_then_print, rule 3(3),
        rule run_then_print, rule count_line [OF w 3(5) two], rule run_then_print, rule pure_line, rule 4(1),
        rule run_then_print, rule 5(1), rule run_then_print, rule 5(2), rule run_then_print, rule 5(3),
        rule run_then_print, rule count_line [OF w 5(4)], simp,
        rule run_then_print, rule run_printing_nothing, rule 6(1), rule 6(5), rule 7)
  moreover have "?out = demo_output x y ls" by (simp add: demo_output_def)
  ultimately have "run (demo_body env c fr s) = (Done ((), demo_output x y ls), ?t)" by (simp only:)
  moreover have "gc_allocations ?t = []" "gc_regions ?t = []" "gc_root_ranges ?t = []" "gc_managed_bytes ?t = 0"
    using 6 by simp_all
  ultimately show ?thesis using 3(4) 4(2) 1(2) by blast
qed

lemma demo_main_result:
  assumes w: "demo_world env H" and fr: "frame_ok fr H" and m: "\<And>a. aligned a \<Longrightarrow> a \<notin> H \<Longrightarrow> load_word m a \<notin> H"
  shows "\<exists>t x y snapshot p q. run (demo_main env c fr (Unused m)) = (Done ((), demo_output x y snapshot), t) \<and>
    {x, y} = {''alpha'', ''beta''} \<and> p \<noteq> q \<and> list_snapshot p q snapshot \<and>
    gc_allocations t = [] \<and> gc_regions t = [] \<and> gc_root_ranges t = [] \<and> gc_managed_bytes t = 0"
proof -
  obtain s where s: "run (gc_register_current_thread env c (Unused m)) = (Done (), s)"
    "demo_state env H c [] Map.empty Map.empty s" "gc_events s = []"
    by (rule demo_register [where m = m and c = c, OF w m])
  obtain t x y snapshot p q where t: "run (demo_body env c fr s) = (Done ((), demo_output x y snapshot), t)"
    and rest: "{x, y} = {''alpha'', ''beta''}" "p \<noteq> q" "list_snapshot p q snapshot"
      "gc_allocations t = []" "gc_regions t = []" "gc_root_ranges t = []" "gc_managed_bytes t = 0"
    using demo_body_result [OF w fr s(2)] by (elim exE conjE) (rule that)
  have inst: "gc_events (manager_instance (Unused m)) = []" by (simp add: manager_instance_def new_gc_state_def)
  have reg: "run (printing (\<lambda>_. gc_register_current_thread env c (Unused m)) (manager_instance (Unused m))) = (Done ((), []), s)"
    by (rule run_printing_nothing) (simp_all only: s inst)
  have "run (then_print (printing (\<lambda>_. gc_register_current_thread env c (Unused m)) (manager_instance (Unused m)))
      (\<lambda>_. demo_body env c fr)) = (Done ((), [] @ demo_output x y snapshot), t)"
    by (rule run_then_print [where f = "\<lambda>_. demo_body env c fr", OF reg t])
  then have "run (demo_main env c fr (Unused m)) = (Done ((), demo_output x y snapshot), t)"
    by (simp add: demo_main_def noexceptp_def run_catchp)
  with rest show ?thesis by (intro exI conjI)
qed

section \<open>The quick start\<close>

lemma run_of_printing: "run (printing m s) = (Done (x, ls), t) \<Longrightarrow> run (m s) = (Done x, t)"
  by (cases "run (m s)" rule: bind_outcome.cases [of "(r, \<lambda>_ _. (Stuck, s))" for r])
    (auto simp: printing_def prog_simps)

lemma quick_start_result:
  assumes w: "demo_world env H" and fr: "frame_ok fr H" and m: "\<And>a. aligned a \<Longrightarrow> a \<notin> H \<Longrightarrow> load_word m a \<notin> H"
  shows "\<exists>t. run (quick_start env c fr (Unused m)) = (Done [''root'', ''child''], t) \<and>
    gc_allocations t = [] \<and> gc_regions t = [] \<and> gc_root_ranges t = []"
proof -
  let ?r = "df_root fr"
  note f = frame_okD [OF fr]
  obtain s where s: "run (gc_register_current_thread env c (Unused m)) = (Done (), s)"
    "demo_state env H c [] Map.empty Map.empty s"
    by (rule demo_register [where m = m and c = c, OF w m])
  obtain p q s1 where 1: "run (main_root env c fr s) = (Done (), s1)" "p \<noteq> q"
    "demo_state env H c [self_range ?r] [?r \<mapsto> p] (rooted_list p q) s1"
    unfolding rooted_list_def by (rule demo_main_root [OF w fr s(2)])
  have first: "demo_state env H c [self_range ?r] [?r \<mapsto> p] (rooted_list p q ++ Map.empty) s1" using 1(3) by simp
  obtain qs s2 where 2: "run (printing (collect env c) s1) = (Done ((), map (\<lambda>x. Destroying_Line (label_of Map.empty x)) qs), s2)"
    "demo_state env H c [self_range ?r] [?r \<mapsto> p] (rooted_list p q) s2"
    by (rule collect_keeps_list [OF w fr 1(2) _ _ first]) simp_all
  note n = demo_stateD(6) [OF 2(2)]
  have N: "rooted_list p q p = Some (q, ''root'')" "rooted_list p q q = Some (0, ''child'')"
    using 1(2) by (simp_all add: rooted_list_def)
  note at = nodes_okD(1) [OF n N(1)] nodes_okD(1) [OF n N(2)]
  have head: "get_word ?r s2 = p" by (rule locals_okD(4) [OF demo_stateD(5) [OF 2(2)]]) simp
  have texts: "get_string (p + 8) s2 = ''root''" "get_word p s2 = q" "get_string (q + 8) s2 = ''child''"
    using node_label [OF at(1)] node_label [OF at(2)] at(1) by (simp_all add: node_at_def)
  let ?s3 = "put_word ?r 0 s2"
  have 3: "demo_state env H c [self_range ?r] [?r \<mapsto> 0] (rooted_list p q) ?s3"
    using demo_put_local [OF 2(2) f(4,5), of 0] by simp
  obtain s4 where 4: "run (printing (collect env c) ?s3) = (Done ((), [Destroying_Line ''root'', Destroying_Line ''child'']), s4)"
    "demo_state env H c [self_range ?r] [?r \<mapsto> 0] Map.empty s4"
    by (rule collect_drops_list [OF w fr 1(2) 3])
  obtain s5 where 5: "run (shutdown env c s4) = (Done (), s5)" "gc_allocations s5 = []" "gc_regions s5 = []"
    "gc_root_ranges s5 = [self_range ?r]" "may_proceed c s5"
    by (rule shutdown_of_empty_heap [OF w 4(2)])
  let ?t = "s5\<lparr>gc_root_ranges := []\<rparr>"
  have 6: "run (gc_root_destroy env c ?r s5) = (Done (), ?t)"
    using unregister_self_result [OF f(3) 5(5), of env] 5(4) by (simp add: gc_root_destroy_def)
  have "run (quick_start env c fr (Unused m)) = (Done [''root'', ''child''], ?t)"
    using s(1) 1(1) run_of_printing [OF 2(1)] run_of_printing [OF 4(1)] 5(1) 6 head texts
    by (simp add: quick_start_def noexceptp_def prog_simps gc_root_arrow_def gc_ptr_arrow_def gc_root_reset_def Let_def)
  moreover have "gc_allocations ?t = []" "gc_regions ?t = []" "gc_root_ranges ?t = []" using 5 by simp_all
  ultimately show ?thesis by blast
qed

end
