(* ===== verification/Weak_Array_Program.thy ===== *)
theory Weak_Array_Program
  imports Manager_Instance Array_Handles Construction
begin

text \<open>
  The example \<open>examples/weak_arrays.cpp\<close>: an array of three buffers behind a weak handle, until the
  shutdown. It makes no collection, so that nothing depends on what the stack holds. The weak
  handle and the temporary that is assigned to it are words at given addresses; the allocator
  and the bounds of the stack are those of the environment, and the destructor of the array is
  \<open>ArrayDestructor<Buffer>::destroy\<close> itself.
\<close>

section \<open>Buffers\<close>

text \<open>\<open>Buffer\<close> is one \<open>int\<close>, of 32 bits.\<close>

definition sizeof_Buffer :: size_t where
  "sizeof_Buffer = 4"

definition alignof_Buffer :: size_t where
  "alignof_Buffer = 4"

definition load_int :: "memory \<Rightarrow> addr \<Rightarrow> 32 word" where
  "load_int m a = foldr (\<lambda>i w. push_bit (8 * i) (ucast (m (a + of_nat i))) OR w) [0..<4] 0"

definition store_int :: "memory \<Rightarrow> addr \<Rightarrow> 32 word \<Rightarrow> memory" where
  "store_int m a v = (\<lambda>x. if x - a < 4 then ucast (drop_bit (8 * unat (x - a)) v) else m x)"

definition Buffer_value_init :: "addr \<Rightarrow> unit gc" where
  "Buffer_value_init this s = (Return (), s\<lparr>gc_mem := store_int (gc_mem s) this 0\<rparr>)"

text \<open>The destructor is trivial.\<close>

definition Buffer_destroy :: "addr \<Rightarrow> unit gc" where
  "Buffer_destroy this s = (Return (), s)"

text \<open>What the header of the array stores: the address of \<open>ArrayDestructor<Buffer>::destroy\<close>.\<close>

definition buffer_array_destructor :: DestructorFn where
  "buffer_array_destructor = 2"

definition new_buffers :: "gc_env \<Rightarrow> tid \<Rightarrow> size_t \<Rightarrow> gc_ptr gc" where
  "new_buffers env current cnt s =
     gc_new_array env current sizeof_Buffer alignof_Buffer buffer_array_destructor Buffer_destroy cnt Buffer_value_init s"

section \<open>The program\<close>

definition set_value :: "gc_ptr \<Rightarrow> size_t \<Rightarrow> 32 word \<Rightarrow> gc_state \<Rightarrow> gc_state" where
  "set_value p index v s = s\<lparr>gc_mem := store_int (gc_mem s) (gc_ptr_index sizeof_Buffer p index) v\<rparr>"

definition get_value :: "gc_ptr \<Rightarrow> size_t \<Rightarrow> gc_state \<Rightarrow> 32 word" where
  "get_value p index s = load_int (gc_mem s) (gc_ptr_index sizeof_Buffer p index)"

text \<open>
  The program returns what it prints: the two values, if the handle could be locked, and whether
  it has expired at the end.
\<close>

definition weak_arrays ::
    "gc_env \<Rightarrow> tid \<Rightarrow> addr \<Rightarrow> addr \<Rightarrow> process \<Rightarrow> (gc_state, (32 word \<times> 32 word) option \<times> bool) prog \<times> gc_state" where
  "weak_arrays env current weak_array temporary p =
     noexceptp
       (bindp (gc_register_current_thread env current p) (\<lambda>_ s.
        bindp (weak_array_default weak_array s) (\<lambda>_ s.
        bindp (new_buffers env current 3 s) (\<lambda>array s.
          let s = set_value array 0 7 s;
              s = set_value array 1 11 s in
        bindp (weak_array_from_ptr env current temporary array s) (\<lambda>_ s.
        bindp (weak_array_move_assign env current weak_array temporary s) (\<lambda>_ s.
        bindp (weak_array_destroy env current temporary s) (\<lambda>_ s.
        bindp (weak_array_lock env current weak_array s) (\<lambda>locked s.
          let printed = (if array_ptr_bool locked then Some (get_value locked 0 s, get_value locked 1 s) else None) in
        bindp (shutdown env current s) (\<lambda>_ s.
        bindp (weak_array_expired env current weak_array s) (\<lambda>expired s.
        bindp (weak_array_destroy env current weak_array s) (\<lambda>_ s.
          (Return (printed, expired), s))))))))))))"

section \<open>Integers in memory\<close>

lemma bit_load_int: "bit (load_int m a) n \<longleftrightarrow> n < 32 \<and> bit (m (a + of_nat (n div 8))) (n mod 8)"
proof (intro iffI)
  assume "bit (load_int m a) n"
  then obtain i where i: "i < 4" "8 * i \<le> n" "n < 32" "bit (m (a + of_nat i)) (n - 8 * i)"
    unfolding load_int_def bit_foldr_or by (auto simp: bit_simps)
  have "n < 8 * Suc i" using bit_byte_bound [OF i(4)] i(2) by simp
  with i(2) have "n div 8 = i" by (intro div_nat_eqI) simp_all
  then have "n div 8 = i" "n mod 8 = n - 8 * i" by (simp_all add: modulo_nat_def)
  with i show "n < 32 \<and> bit (m (a + of_nat (n div 8))) (n mod 8)" by simp
next
  assume "n < 32 \<and> bit (m (a + of_nat (n div 8))) (n mod 8)"
  moreover have "n - 8 * (n div 8) = n mod 8" "8 * (n div 8) \<le> n" by (simp_all add: modulo_nat_def)
  ultimately show "bit (load_int m a) n"
    unfolding load_int_def bit_foldr_or by (auto simp: bit_simps intro!: bexI [of _ "n div 8"])
qed

lemma load_int_cong: "(\<And>x. x - a < 4 \<Longrightarrow> m' x = m x) \<Longrightarrow> load_int m' a = load_int m a"
proof (rule bit_word_eqI)
  fix n assume same: "\<And>x. x - a < 4 \<Longrightarrow> m' x = m x" and "n < LENGTH(32)"
  then have "m' (a + of_nat (n div 8)) = m (a + of_nat (n div 8))"
    by (intro same) (simp add: word_less_nat_alt unat_of_nat)
  then show "bit (load_int m' a) n \<longleftrightarrow> bit (load_int m a) n" by (simp add: bit_load_int)
qed

lemma load_store_int [simp]: "load_int (store_int m a v) a = v"
proof (rule bit_word_eqI)
  fix n assume n: "n < LENGTH(32)"
  then have "8 * (n div 8) + n mod 8 = n" "(of_nat (n div 8) :: u64) < 4" "unat (of_nat (n div 8) :: u64) = n div 8"
    by (simp_all add: word_less_nat_alt unat_of_nat)
  with n show "bit (load_int (store_int m a v) a) n \<longleftrightarrow> bit v n"
    by (simp add: bit_load_int store_int_def bit_simps)
qed

section \<open>The surroundings\<close>

text \<open>
  The allocator finds memory for the array, 52 bytes with the header, apart from the two handles; the
  finalizer is the destructor of the array, and the bounds of the stack are known.
\<close>

definition weak_array_world :: "gc_env \<Rightarrow> addr \<Rightarrow> addr \<Rightarrow> bool" where
  "weak_array_world env weak_array temporary \<longleftrightarrow>
     \<not> out_of_memory env \<and> op_new_ok env \<and>
     e_finalize env buffer_array_destructor = ArrayDestructor_destroy sizeof_Buffer alignof_Buffer Buffer_destroy \<and>
     (\<forall>s. gc_regions s = [] \<longrightarrow> e_op_new env s 52 16 \<noteq> None) \<and>
     (\<forall>s a x. e_op_new env s 52 16 = Some a \<longrightarrow> x - a < 52 \<longrightarrow> \<not> x - weak_array < 8 \<and> \<not> x - temporary < 8) \<and>
     weak_array \<noteq> 0 \<and> temporary \<noteq> 0 \<and> word_apart weak_array temporary \<and>
     (\<exists>base n. e_pthread_stack env = Some (base, n) \<and> base \<noteq> 0 \<and> n \<noteq> 0 \<and> base + n \<noteq> 0)"

lemma register_first_thread:
  assumes "e_pthread_stack env = Some (base, n)" "base \<noteq> 0" "n \<noteq> 0" "base + n \<noteq> 0" "\<not> out_of_memory env"
  shows "run (gc_register_current_thread env c (Unused m)) =
    (Done (), (new_gc_state m)\<lparr>gc_threads := [(c, new_ThreadState\<lparr>ts_stack_bottom := base + n\<rparr>)]\<rparr>)"
  using assms
  by (simp add: gc_register_current_thread_def manager_instance_def register_current_thread_def prog_simps
      detect_current_thread_stack_bottom_def register_stack_bottom_def may_proceed_def new_gc_state_def
      find_thread_state_locked_def om_find_def om_adjust_def out_of_memory_def)

text \<open>An allocation that finds memory at once, whatever the finalizers of the program do.\<close>

lemma malloc_at_once:
  assumes inv: "heap_inv s" and new: "op_new_ok env"
    and run: "may_proceed c s" "thread_registered c s" "\<not> out_of_memory env"
    and n: "n \<noteq> 0" "has_single_bit al"
    and off: "round_up_to_alignment sizeof_ChunkHeader (normalize_alignment al) = Some off"
      "off \<le> 65535" "\<not> add_would_overflow off n"
    and raw: "e_op_new env s (off + n) (normalize_alignment al) = Some raw"
    and room: "\<not> add_would_overflow (gc_managed_bytes s) n" "\<not> add_would_overflow (gc_reserved_bytes s) (off + n)"
  obtains t where "run (malloc_internal env c n al d constructing s) = (Done (raw + off), t)"
    "allocated s raw off n d (normalize_alignment al) constructing t"
proof -
  let ?al = "normalize_alignment al"
  have b: "32 \<le> unat off" "unat off \<le> 65535"
    using round_up_to_alignment_Some(2) [OF off(1)] off(2) by (simp_all add: word_le_nat_alt)
  have f: "fits s raw off n" using op_new_fits [OF new raw b n(1)] off(3) by simp
  have h: "init_header raw n d off ?al (s\<lparr>gc_regions := (raw, off + n) # gc_regions s\<rparr>) = header_written raw off n d ?al s"
    by (simp add: header_written_def)
  have a: "run (allocate_raw env c (off + n) ?al s) = (Done raw, s\<lparr>gc_regions := (raw, off + n) # gc_regions s\<rparr>)"
    by (simp add: allocate_raw_def operator_new_def prog_simps raw)
  have o: "\<not> (65535 < off \<or> add_would_overflow off n)" using off by simp
  note unfold = malloc_internal_unfold [OF n run(1,2) off(1) o, of env d constructing, unfolded a]
  obtain t where t: "run (malloc_internal env c n al d constructing s) = (Done (raw + off), t)"
    using malloc_succeeds [OF run n off raw room] by blast
  from inv run(1,2) f show ?thesis
  proof (cases rule: place_block_cases [where env = env and constructing = constructing and d = d and al = ?al])
    case (throws m)
    with t show ?thesis by (simp add: unfold h)
  next
    case (returns u)
    with t have "u = t" by (simp add: unfold h)
    with returns(2) have "allocated s raw off n d ?al constructing t" by simp
    with t show ?thesis by (rule that)
  qed
qed

section \<open>The array\<close>

definition filled :: "addr \<Rightarrow> memory \<Rightarrow> memory" where
  "filled p m = store_word (store_int (store_word (store_int (store_word (store_int
     (store_word m p 0) (p + 8) 0) p 1) (p + 12) 0) p 2) (p + 16) 0) p 3"

definition with_values :: "addr \<Rightarrow> memory \<Rightarrow> memory" where
  "with_values p m = store_int (store_int (filled p m) (p + 8) 7) (p + 12) 11"

lemma array_words:
  "load_word (with_values p m) p = 3" "load_int (with_values p m) (p + 8) = 7"
  "load_int (with_values p m) (p + 12) = 11" "\<not> x - p < 20 \<Longrightarrow> with_values p m x = m x"
proof -
  have d: "x - (p + k) = x - p - k" for x k by (simp add: diff_diff_eq)
  have "\<not> x - (p + 8) < 4 \<and> \<not> x - (p + 12) < 4" if "x - p < 8" for x
    using that unfolding d by (simp add: word_less_nat_alt unat_sub_if')
  then have "load_word (with_values p m) p = load_word (filled p m) p"
    by (intro load_word_cong) (simp add: with_values_def store_int_def)
  then show "load_word (with_values p m) p = 3" by (simp add: filled_def)
  have "\<not> x - (p + 12) < 4" if "x - (p + 8) < 4" for x
    using that unfolding d by (auto simp: word_less_nat_alt unat_sub_if' split: if_splits)
  then have "load_int (with_values p m) (p + 8) = load_int (store_int (filled p m) (p + 8) 7) (p + 8)"
    by (intro load_int_cong) (simp add: with_values_def store_int_def)
  then show "load_int (with_values p m) (p + 8) = 7" by simp
  show "load_int (with_values p m) (p + 12) = 11" by (simp add: with_values_def)
  assume x: "\<not> x - p < 20"
  then have "\<not> x - p < 8" "\<not> x - (p + 8) < 4" "\<not> x - (p + 12) < 4" "\<not> x - (p + 16) < 4"
    unfolding d by (auto simp: word_less_nat_alt unat_sub_if' split: if_splits)
  then show "with_values p m x = m x" by (simp add: with_values_def filled_def store_int_def store_word_def)
qed

lemma array_arith:
  "array_elements_offset 4 = 8" "normalize_alignment 8 = 16" "round_up_to_alignment sizeof_ChunkHeader 16 = Some 32"
  "has_single_bit (8 :: size_t)"
  by code_simp+

lemma fill_buffers:
  assumes "om_find p (gc_allocations s) = Some b" "may_proceed c s"
  shows "run (fill_array env c 4 4 Buffer_destroy 3 (\<lambda>e _. Buffer_value_init e) p s) =
    (Done (Gc_Ptr (p + 8)), s\<lparr>gc_mem := filled p (gc_mem s),
      gc_events := gc_events s @ [Constructed (p + 8), Constructed (p + 12), Constructed (p + 16)],
      gc_allocations := om_adjust p (\<lambda>b. b\<lparr>br_constructing := False\<rparr>) (gc_allocations s)\<rparr>)"
proof -
  let ?s = "s\<lparr>gc_mem := filled p (gc_mem s),
      gc_events := gc_events s @ [Constructed (p + 8), Constructed (p + 12), Constructed (p + 16)]\<rparr>"
  have three: "unat (3 :: size_t) = Suc (Suc (Suc 0))" by simp
  have "run (construct_elements p (p + 8) 4 (\<lambda>e _. Buffer_value_init e) 0 (unat (3 :: size_t))
      (s\<lparr>gc_mem := store_word (gc_mem s) p 0\<rparr>)) = (Done (), ?s)"
    unfolding three by (simp add: prog_simps Buffer_value_init_def filled_def add.assoc Let_def)
  moreover have "may_proceed c ?s" using assms(2) by (simp add: may_proceed_def thread_registered_def find_thread_state_locked_def)
  note finish_construction_result [OF this, of env p]
  ultimately show ?thesis
    using assms(1) by (simp add: fill_array_def prog_simps array_arith array_elements_begin_def)
qed

section \<open>The weak handle\<close>

lemma handle_assigned:
  assumes none: "gc_weak_refs s = []" "get_word weak_array s = 0"
    and apart: "word_apart weak_array temporary" "temporary \<noteq> 0"
    and block: "find_block_locked e s = Some b" "e \<noteq> 0" and run: "may_proceed c s" "\<not> out_of_memory env"
  obtains u m where "run (weak_array_from_ptr env c temporary (Gc_Ptr e) s) = (Done (), u)"
    "run (weak_array_move_assign env c weak_array temporary u) =
      (Done (), s\<lparr>gc_mem := m, gc_weak_refs := [\<lparr>wr_target = e, wr_storage = weak_array\<rparr>]\<rparr>)"
    "run (weak_array_destroy env c temporary (s\<lparr>gc_mem := m, gc_weak_refs := [\<lparr>wr_target = e, wr_storage = weak_array\<rparr>]\<rparr>)) =
      (Done (), s\<lparr>gc_mem := m, gc_weak_refs := [\<lparr>wr_target = e, wr_storage = weak_array\<rparr>]\<rparr>)"
    "\<forall>x. \<not> x - weak_array < 8 \<longrightarrow> \<not> x - temporary < 8 \<longrightarrow> m x = gc_mem s x"
proof -
  let ?w = "encode_weak_ptr e"
  let ?m1 = "store_word (gc_mem s) temporary ?w" let ?m2 = "store_word ?m1 weak_array ?w"
  let ?m = "store_word (store_word (store_word ?m2 weak_array ?w) temporary 0) temporary 0"
  let ?s1 = "s\<lparr>gc_mem := ?m1, gc_weak_refs := [\<lparr>wr_target = e, wr_storage = temporary\<rparr>]\<rparr>"
  let ?t = "s\<lparr>gc_mem := ?m, gc_weak_refs := [\<lparr>wr_target = e, wr_storage = weak_array\<rparr>]\<rparr>"
  have ne: "weak_array \<noteq> temporary" using apart by (auto simp: word_apart_def)
  have mp: "may_proceed c (s\<lparr>gc_mem := m, gc_weak_refs := w\<rparr>)" "may_proceed c (s\<lparr>gc_weak_refs := w, gc_mem := m\<rparr>)"
    "may_proceed c (s\<lparr>gc_mem := m\<rparr>)" for m w
    using run(1) by (simp_all add: may_proceed_def)
  have find: "find_block_locked e (s\<lparr>gc_mem := m\<rparr>) = Some b" for m using block(1) by (simp add: find_block_locked_def)
  have 1: "run (weak_array_from_ptr env c temporary (Gc_Ptr e) s) = (Done (), ?s1)"
    using run none apart block mp find
    by (simp add: weak_array_from_ptr_def Let_def prog_simps register_weak_ref_def array_ptr_get_def get_word_def
        out_of_memory_def weak_add_def put_word_def)
  have zero: "load_word ?m1 weak_array = 0"
    using none(2) apart by (simp add: get_word_def word_apart_def load_store_apart)
  have old: "load_word ?m2 temporary = ?w"
    using apart by (simp add: word_apart_def load_store_apart)
  have 2: "run (weak_array_move_assign env c weak_array temporary ?s1) = (Done (), ?t)"
    using ne mp zero old block(2)
    by (simp add: weak_array_move_assign_def weak_array_reset_def Let_def prog_simps get_word_def put_word_def
        noexceptp_def update_weak_ref_def weak_index_def weak_move_def)
  have 3: "run (weak_array_destroy env c temporary ?t) = (Done (), ?t)"
    by (simp add: weak_array_destroy_def get_word_def prog_simps)
  show ?thesis by (rule that [OF 1 2 3]) (simp add: store_word_def)
qed

section \<open>The shutdown\<close>

lemma shutdown_of_array:
  assumes fin: "e_finalize env d = ArrayDestructor_destroy 4 4 Buffer_destroy" and mem: "\<not> out_of_memory env"
    and inv: "index_inv s" and run: "may_proceed c s" "\<not> gc_collecting s" "others_paused c s"
    and block: "gc_allocations s = [(p, b)]" "\<not> br_constructing b" "br_header b = raw" "raw \<noteq> 0"
      "ch_destructor (gc_headers s raw) = Some d" "payload_pointer raw s = p"
    and region: "gc_regions s = [(raw, n)]"
    and count: "load_word (gc_mem s) p = 3" "gc_weak_refs s = [\<lparr>wr_target = e, wr_storage = h\<rparr>]" "h \<noteq> 0" "word_apart p h"
  obtains t where "run (shutdown env c s) = (Done (), t)" "gc_allocations t = []" "gc_regions t = []" "gc_weak_refs t = []"
    "get_word h t = 0" "may_proceed c t"
    "gc_events t = gc_events s @ [Finalized d p, Destroyed (p + 16), Destroyed (p + 12), Destroyed (p + 8),
      Freed raw (allocation_alignment (gc_headers s raw))]"
proof -
  let ?r = "request_stop c s"
  have ri: "index_inv ?r" using inv by (simp add: index_inv_def request_stop_def)
  from ri have det: "detach_all_blocks_locked env ?r =
      (Return [raw], ?r\<lparr>gc_allocations := [], gc_managed_bytes := 0, gc_reserved_bytes := 0\<rparr>)"
  proof (cases rule: detach_all_cases [where env = env])
    case throws
    with mem show ?thesis by simp
  next
    case (returns hs)
    then show ?thesis using block by (simp add: request_stop_def)
  qed
  have elems: "run (destroy_elements (p + 8) 4 Buffer_destroy 3 v) =
      (Done (), v\<lparr>gc_events := gc_events v @ [Destroyed (p + 16), Destroyed (p + 12), Destroyed (p + 8)]\<rparr>)" for v
    by (simp add: numeral_3_eq_3 prog_simps Let_def Buffer_destroy_def add.assoc)
  have zero: "zero_storages [h] m = store_word m h 0" for m by (simp add: zero_storages_def)
  have cnt: "load_word (store_word (gc_mem s) h 0) p = 3"
    using count by (simp add: word_apart_def load_store_apart)
  let ?u = "?r\<lparr>gc_allocations := [], gc_managed_bytes := 0, gc_reserved_bytes := 0,
      gc_mem := store_word (gc_mem s) h 0, gc_weak_refs := [], gc_stats := new_GCStats\<rparr>"
  have 1: "run (shutdown_locked env ?r) = (Done [raw], ?u)"
    using block(1,2) count(2,3) det by (simp add: shutdown_locked_def prog_simps zero request_stop_def)
  let ?v = "?u\<lparr>gc_events := gc_events s @ [Finalized d p, Destroyed (p + 16), Destroyed (p + 12), Destroyed (p + 8)]\<rparr>"
  have 2: "run (run_finalizers env [raw] ?u) = (Done (), ?v)"
    using block(4-6) cnt
    by (simp add: prog_simps Let_def fin ArrayDestructor_destroy_def elems request_stop_def payload_pointer_def
        array_elements_begin_def array_arith)
  let ?w = "free_block_memory raw ?v"
  have 3: "run (destroy_blocks env [raw] ?u) = (Done (), ?w)"
    unfolding destroy_blocks_def run_bindp 2 by (simp add: run_leaf)
  let ?t = "?w\<lparr>gc_collector_thread := no_thread, gc_stop_the_world_requested := False, gc_collecting := False\<rparr>"
  have "run (shutdown env c s) = (Done (), ?t)"
    unfolding run_shutdown_unfold [OF run] 1 by (simp only: catch_outcome.simps bind_outcome.simps 3) (simp add: prog_simps)
  then show ?thesis
    by (rule that) (simp_all add: region free_block_memory_def request_stop_def get_word_def may_proceed_def)
qed

section \<open>The run\<close>

lemma new_buffers_result:
  assumes w: "weak_array_world env weak_array temporary" and inv: "heap_inv s"
    and run: "may_proceed c s" "thread_registered c s"
    and s: "gc_allocations s = []" "gc_regions s = []" "gc_managed_bytes s = 0" "gc_reserved_bytes s = 0"
      "gc_collection_threshold_bytes s = 10 * 1024 * 1024"
  obtains raw t where "e_op_new env s 52 16 = Some raw"
    "allocated s raw 32 20 (Some buffer_array_destructor) 16 True t"
    "run (new_buffers env c 3 s) = (Done (Gc_Ptr (raw + 40)), t\<lparr>gc_mem := filled (raw + 32) (gc_mem t),
      gc_events := gc_events t @ [Constructed (raw + 40), Constructed (raw + 44), Constructed (raw + 48)],
      gc_allocations := [(raw + 32, block_at raw 32 20 False)]\<rparr>)"
proof -
  have mem: "\<not> out_of_memory env" and new: "op_new_ok env" using w by (simp_all add: weak_array_world_def)
  obtain raw where raw: "e_op_new env s 52 16 = Some raw" using w s(2) unfolding weak_array_world_def by blast
  obtain t where t: "run (malloc_internal env c 20 8 (Some buffer_array_destructor) True s) = (Done (raw + 32), t)"
    "allocated s raw 32 20 (Some buffer_array_destructor) 16 True t"
    by (rule malloc_at_once [OF inv new run mem, of 20 8 32 raw "Some buffer_array_destructor" True])
      (simp_all add: array_arith raw s add_would_overflow_iff)
  have "run (collect_if_needed env c 20 s) = (Done (), s)"
    using s(3,5) by (simp add: collect_if_needed_result [OF run])
  moreover have "\<not> multiply_would_overflow 4 3" "\<not> add_would_overflow 8 12"
    by (simp_all add: multiply_would_overflow_iff add_would_overflow_iff)
  moreover have al: "gc_allocations t = [(raw + 32, block_at raw 32 20 True)]"
    using t(2) s(1) by (simp add: allocated_def)
  moreover have "may_proceed c t"
    using t(2) run(1) by (simp add: allocated_def same_control_def may_proceed_def thread_registered_def find_thread_state_locked_def)
  moreover note fill_buffers [OF _ this, of "raw + 32" "block_at raw 32 20 True" env]
  ultimately have "run (new_buffers env c 3 s) = (Done (Gc_Ptr (raw + 40)), t\<lparr>gc_mem := filled (raw + 32) (gc_mem t),
      gc_events := gc_events t @ [Constructed (raw + 40), Constructed (raw + 44), Constructed (raw + 48)],
      gc_allocations := [(raw + 32, block_at raw 32 20 False)]\<rparr>)"
    by (simp add: new_buffers_def gc_new_array_def construct_array_def sizeof_Buffer_def alignof_Buffer_def array_arith
        Let_def prog_simps t(1) om_find_def om_adjust_def add.assoc block_at_def)
  with raw t(2) show ?thesis by (rule that)
qed

text \<open>What the program relies on of the state in which the array has its values.\<close>

lemma array_ready:
  assumes w: "weak_array_world env weak_array temporary" and inv: "heap_inv s" and s: "gc_allocations s = []" "gc_regions s = []"
    and raw: "e_op_new env s 52 16 = Some raw"
    and t: "allocated s raw 32 20 (Some buffer_array_destructor) 16 True t"
  defines "p \<equiv> raw + 32"
  defines "u \<equiv> t\<lparr>gc_mem := with_values p (gc_mem t),
      gc_events := gc_events t @ [Constructed (raw + 40), Constructed (raw + 44), Constructed (raw + 48)],
      gc_allocations := [(p, block_at raw 32 20 False)]\<rparr>"
  shows "x - p < 20 \<Longrightarrow> \<not> x - weak_array < 8 \<and> \<not> x - temporary < 8" "word_apart p weak_array"
    "get_word weak_array u = get_word weak_array s" "index_inv u" "find_block_locked (p + 8) u = Some (block_at raw 32 20 False)"
    "gc_regions u = [(raw, 52)]" "raw \<noteq> 0" "gc_weak_refs u = gc_weak_refs s" "payload_pointer raw u = p"
    "ch_destructor (gc_headers u raw) = Some buffer_array_destructor" "allocation_alignment (gc_headers u raw) = 16"
proof -
  note al = t [unfolded allocated_def]
  show inside: "x - p < 20 \<Longrightarrow> \<not> x - weak_array < 8 \<and> \<not> x - temporary < 8" for x
  proof -
    assume "x - p < 20"
    then have "unat (x - p) < 20" by (simp add: word_less_nat_alt)
    moreover have "x - raw = (x - p) + 32" by (simp add: p_def)
    ultimately have "x - raw < 52" by (simp only: word_less_nat_alt unat_word_ariths) simp
    then show ?thesis using w raw unfolding weak_array_world_def by blast
  qed
  have "8 \<le> p - weak_array" using inside [of p] by (simp add: not_less)
  moreover have "8 \<le> weak_array - p" using inside [of weak_array]
    by (cases "weak_array - p < 20") (auto simp: word_less_nat_alt word_le_nat_alt)
  ultimately show "word_apart p weak_array" by (simp add: word_apart_def)
  have "gc_mem u x = gc_mem s x" if "x - weak_array < 8" for x
  proof -
    have no: "\<not> x - p < 20" using inside [of x] that by blast
    then have "gc_mem t x = gc_mem s x" using al by (simp add: memset_zero_def p_def)
    then show ?thesis using array_words(4) [OF no] by (simp add: u_def)
  qed
  then have "load_word (gc_mem u) weak_array = load_word (gc_mem s) weak_array" by (rule load_word_cong)
  then show "get_word weak_array u = get_word weak_array s" by (simp add: get_word_def)
  have alloc: "gc_allocations t = [(p, block_at raw 32 20 True)]" using al s(1) by (simp add: p_def)
  have "heap_inv (t\<lparr>gc_allocations := om_adjust p (\<lambda>b. b\<lparr>br_constructing := False\<rparr>) (gc_allocations t)\<rparr>)"
    using al by (intro heap_inv_constructing) blast
  then have "heap_inv u"
    using heap_inv_tables [of u "t\<lparr>gc_allocations := om_adjust p (\<lambda>b. b\<lparr>br_constructing := False\<rparr>) (gc_allocations t)\<rparr>"] alloc
    by (simp add: u_def om_adjust_def block_at_def)
  then show i: "index_inv u" by (simp add: heap_inv_def)
  have "unat (p + 20) = unat p + 20" using allocated_blocks(5) [OF inv t] by (simp add: block_at_def p_def)
  moreover have "unat (p + 20) < 2 ^ 64" using unat_less_64 [of "p + 20"] by simp
  ultimately have "p \<le> p + 8" "p + 8 < p + 20" by (simp_all add: word_le_nat_alt word_less_nat_alt unat_word_ariths)
  then show "find_block_locked (p + 8) u = Some (block_at raw 32 20 False)"
    using find_block_iff [OF i] by (simp add: blocks_def u_def block_at_def p_def)
  show "gc_regions u = [(raw, 52)]" "gc_weak_refs u = gc_weak_refs s" using al s(2) by (simp_all add: u_def)
  show "raw \<noteq> 0" using w raw unfolding weak_array_world_def op_new_ok_def by blast
  show "payload_pointer raw u = p"
    using payload_pointer_allocated [OF t] by (simp add: u_def payload_pointer_def p_def)
  show "ch_destructor (gc_headers u raw) = Some buffer_array_destructor" "allocation_alignment (gc_headers u raw) = 16"
    using allocated_header [OF t] by (simp_all add: u_def header_of_def block_at_def has_single_bit_iff exI [of _ 4])
qed

text \<open>From the assignment of the weak handle to the shutdown.\<close>

lemma weak_array_life:
  assumes w: "weak_array_world env weak_array temporary" and inv: "heap_inv s" and s: "gc_allocations s = []" "gc_regions s = []"
    and free: "gc_weak_refs s = []" "get_word weak_array s = 0"
    and run: "may_proceed c s" "\<not> gc_collecting s" "others_paused c s"
    and raw: "e_op_new env s 52 16 = Some raw"
    and t: "allocated s raw 32 20 (Some buffer_array_destructor) 16 True t"
  defines "u \<equiv> t\<lparr>gc_mem := with_values (raw + 32) (gc_mem t),
      gc_events := gc_events t @ [Constructed (raw + 40), Constructed (raw + 44), Constructed (raw + 48)],
      gc_allocations := [(raw + 32, block_at raw 32 20 False)]\<rparr>"
  obtains v x t' where "run (weak_array_from_ptr env c temporary (Gc_Ptr (raw + 40)) u) = (Done (), v)"
    "run (weak_array_move_assign env c weak_array temporary v) = (Done (), x)"
    "run (weak_array_destroy env c temporary x) = (Done (), x)"
    "run (weak_array_lock env c weak_array x) = (Done (Gc_Ptr (raw + 40)), x)" "raw + 40 \<noteq> 0"
    "get_value (Gc_Ptr (raw + 40)) 0 x = 7" "get_value (Gc_Ptr (raw + 40)) 1 x = 11"
    "run (shutdown env c x) = (Done (), t')" "gc_allocations t' = []" "gc_regions t' = []" "gc_weak_refs t' = []"
    "get_word weak_array t' = 0" "may_proceed c t'"
    "gc_events t' = gc_events s @ [Constructed (raw + 40), Constructed (raw + 44), Constructed (raw + 48),
      Finalized buffer_array_destructor (raw + 32), Destroyed (raw + 48), Destroyed (raw + 44), Destroyed (raw + 40), Freed raw 16]"
proof -
  have mem: "\<not> out_of_memory env" and h: "weak_array \<noteq> 0" "temporary \<noteq> 0" "word_apart weak_array temporary"
    and fin: "e_finalize env buffer_array_destructor = ArrayDestructor_destroy 4 4 Buffer_destroy"
    using w by (simp_all add: weak_array_world_def sizeof_Buffer_def alignof_Buffer_def)
  let ?p = "raw + 32"
  note ready = array_ready [OF w inv s raw t, folded u_def]
  have ctl: "same_control s t" using t by (simp add: allocated_def)
  have go: "may_proceed c (u\<lparr>gc_mem := m', gc_weak_refs := es\<rparr>)" "\<not> gc_collecting (u\<lparr>gc_mem := m', gc_weak_refs := es\<rparr>)"
    "others_paused c (u\<lparr>gc_mem := m', gc_weak_refs := es\<rparr>)" "may_proceed c u" for m' es
    using ctl run
    by (simp_all add: u_def same_control_def may_proceed_def thread_registered_def find_thread_state_locked_def others_paused_def)
  have e: "?p + 8 = raw + 40" "?p + 12 = raw + 44" "?p + 16 = raw + 48" by simp_all
  have top: "x + 8 \<noteq> 0" if "unat (x + 20) = unat x + 20" for x :: addr
  proof
    assume "x + 8 = 0"
    then have "x = - 8" by (simp add: eq_neg_iff_add_eq_0)
    with that show False by simp
  qed
  have "unat (?p + 20) = unat ?p + 20" using allocated_blocks(5) [OF inv t] by (simp add: block_at_def)
  from top [OF this] have ne: "raw + 40 \<noteq> 0" unfolding e .
  obtain v m' where m': "run (weak_array_from_ptr env c temporary (Gc_Ptr (raw + 40)) u) = (Done (), v)"
    "run (weak_array_move_assign env c weak_array temporary v) =
      (Done (), u\<lparr>gc_mem := m', gc_weak_refs := [\<lparr>wr_target = raw + 40, wr_storage = weak_array\<rparr>]\<rparr>)"
    "run (weak_array_destroy env c temporary (u\<lparr>gc_mem := m', gc_weak_refs := [\<lparr>wr_target = raw + 40, wr_storage = weak_array\<rparr>]\<rparr>)) =
      (Done (), u\<lparr>gc_mem := m', gc_weak_refs := [\<lparr>wr_target = raw + 40, wr_storage = weak_array\<rparr>]\<rparr>)"
    and same: "\<forall>x. \<not> x - weak_array < 8 \<longrightarrow> \<not> x - temporary < 8 \<longrightarrow> m' x = gc_mem u x"
    by (rule handle_assigned [OF ready(8) [unfolded free(1)] ready(3) [unfolded free(2)] h(3,2)
        ready(5) [unfolded e] ne go(4) mem])
  let ?v = "u\<lparr>gc_mem := m', gc_weak_refs := [\<lparr>wr_target = raw + 40, wr_storage = weak_array\<rparr>]\<rparr>"
  have block: "m' x = with_values ?p (gc_mem t) x" if "x - ?p < 20" for x using same ready(1) [OF that] by (simp add: u_def)
  have "load_word m' ?p = load_word (with_values ?p (gc_mem t)) ?p"
    by (rule load_word_cong, rule block) (erule less_trans, simp)
  then have count: "load_word (gc_mem ?v) ?p = 3" by (simp add: array_words)
  have int: "load_int m' (?p + k) = load_int (with_values ?p (gc_mem t)) (?p + k)" if "k = 8 \<or> k = 12" for k
  proof (rule load_int_cong, rule block)
    fix x assume "x - (?p + k) < 4"
    then have "x - ?p - k < 4" by (simp add: diff_diff_eq)
    then show "x - ?p < 20" using that by (auto simp: word_less_nat_alt unat_sub_if' split: if_splits)
  qed
  have vals: "get_value (Gc_Ptr (raw + 40)) 0 ?v = 7" "get_value (Gc_Ptr (raw + 40)) 1 ?v = 11"
    using int [of 8] int [of 12] array_words(2,3) [of ?p "gc_mem t"]
    by (simp_all add: get_value_def gc_ptr_index_def sizeof_Buffer_def add.assoc)
  have alloc: "gc_allocations u = [(?p, block_at raw 32 20 False)]" by (simp add: u_def)
  have i: "index_inv ?v" using ready(4) by (simp add: index_inv_def)
  obtain t' where t': "run (shutdown env c ?v) = (Done (), t')" "gc_allocations t' = []" "gc_regions t' = []" "gc_weak_refs t' = []"
    "get_word weak_array t' = 0" "may_proceed c t'"
    "gc_events t' = gc_events ?v @ [Finalized buffer_array_destructor ?p, Destroyed (?p + 16), Destroyed (?p + 12), Destroyed (?p + 8),
      Freed raw (allocation_alignment (gc_headers ?v raw))]"
    by (rule shutdown_of_array [OF fin mem i go(1-3) _ _ _ ready(7) _ _ _ count _ h(1) ready(2), where e = "raw + 40" and n = 52
          and b = "block_at raw 32 20 False"])
      (use ready(6,9,10) alloc in \<open>simp_all add: block_at_def payload_pointer_def\<close>)
  have lock: "run (weak_array_lock env c weak_array ?v) = (Done (Gc_Ptr (raw + 40)), ?v)"
    using go(1) ne by (simp add: weak_array_lock_def noexceptp_def read_weak_ref_def prog_simps weak_lookup_def weak_index_def)
  have "gc_events t' = gc_events s @ [Constructed (raw + 40), Constructed (raw + 44), Constructed (raw + 48),
      Finalized buffer_array_destructor ?p, Destroyed (raw + 48), Destroyed (raw + 44), Destroyed (raw + 40), Freed raw 16]"
    using t'(7) ready(11) ctl by (simp add: u_def same_control_def add.assoc)
  with m' lock ne vals t'(1-6) show ?thesis by (rule that)
qed

lemma weak_arrays_result:
  assumes w: "weak_array_world env weak_array temporary"
  shows "\<exists>raw t. run (weak_arrays env c weak_array temporary (Unused m)) = (Done (Some (7, 11), True), t) \<and>
    gc_allocations t = [] \<and> gc_regions t = [] \<and> gc_weak_refs t = [] \<and>
    gc_events t = [Constructed (raw + 40), Constructed (raw + 44), Constructed (raw + 48),
      Finalized buffer_array_destructor (raw + 32),
      Destroyed (raw + 48), Destroyed (raw + 44), Destroyed (raw + 40), Freed raw 16]"
proof -
  obtain base n where st: "e_pthread_stack env = Some (base, n)" "base \<noteq> 0" "n \<noteq> 0" "base + n \<noteq> 0"
    and mem: "\<not> out_of_memory env"
    using w unfolding weak_array_world_def by blast
  let ?s = "put_word weak_array 0 ((new_gc_state m)\<lparr>gc_threads := [(c, new_ThreadState\<lparr>ts_stack_bottom := base + n\<rparr>)]\<rparr>)"
  have start: "gc_allocations ?s = []" "gc_regions ?s = []" "gc_managed_bytes ?s = 0" "gc_reserved_bytes ?s = 0"
    "gc_collection_threshold_bytes ?s = 10 * 1024 * 1024" "gc_events ?s = []" "gc_weak_refs ?s = []" "get_word weak_array ?s = 0"
    "may_proceed c ?s" "thread_registered c ?s" "\<not> gc_collecting ?s" "others_paused c ?s"
    using st(4)
    by (simp_all add: put_word_def get_word_def new_gc_state_def may_proceed_def thread_registered_def
        find_thread_state_locked_def om_find_def others_paused_def)
  have inv: "heap_inv ?s" using heap_inv_tables [of ?s "new_gc_state m"] new_heap_inv [of m] by (simp add: put_word_def)
  obtain raw t where raw: "e_op_new env ?s 52 16 = Some raw"
    and t: "allocated ?s raw 32 20 (Some buffer_array_destructor) 16 True t"
    and made: "run (new_buffers env c 3 ?s) = (Done (Gc_Ptr (raw + 40)), t\<lparr>gc_mem := filled (raw + 32) (gc_mem t),
      gc_events := gc_events t @ [Constructed (raw + 40), Constructed (raw + 44), Constructed (raw + 48)],
      gc_allocations := [(raw + 32, block_at raw 32 20 False)]\<rparr>)"
    by (rule new_buffers_result [OF w inv start(9,10,1-5)])
  let ?u = "t\<lparr>gc_mem := with_values (raw + 32) (gc_mem t),
      gc_events := gc_events t @ [Constructed (raw + 40), Constructed (raw + 44), Constructed (raw + 48)],
      gc_allocations := [(raw + 32, block_at raw 32 20 False)]\<rparr>"
  obtain v x t' where life: "run (weak_array_from_ptr env c temporary (Gc_Ptr (raw + 40)) ?u) = (Done (), v)"
    "run (weak_array_move_assign env c weak_array temporary v) = (Done (), x)"
    "run (weak_array_destroy env c temporary x) = (Done (), x)"
    "run (weak_array_lock env c weak_array x) = (Done (Gc_Ptr (raw + 40)), x)" "raw + 40 \<noteq> 0"
    "get_value (Gc_Ptr (raw + 40)) 0 x = 7" "get_value (Gc_Ptr (raw + 40)) 1 x = 11"
    "run (shutdown env c x) = (Done (), t')" "gc_allocations t' = []" "gc_regions t' = []" "gc_weak_refs t' = []"
    "get_word weak_array t' = 0" "may_proceed c t'"
    "gc_events t' = gc_events ?s @ [Constructed (raw + 40), Constructed (raw + 44), Constructed (raw + 48),
      Finalized buffer_array_destructor (raw + 32), Destroyed (raw + 48), Destroyed (raw + 44), Destroyed (raw + 40), Freed raw 16]"
    by (rule weak_array_life [OF w inv start(1,2,7,8,9,11,12) raw t])
  have set: "set_value (Gc_Ptr (raw + 40)) 1 11 (set_value (Gc_Ptr (raw + 40)) 0 7 (t\<lparr>gc_mem := filled (raw + 32) (gc_mem t),
      gc_events := gc_events t @ [Constructed (raw + 40), Constructed (raw + 44), Constructed (raw + 48)],
      gc_allocations := [(raw + 32, block_at raw 32 20 False)]\<rparr>)) = ?u"
    by (simp add: set_value_def gc_ptr_index_def sizeof_Buffer_def with_values_def add.assoc)
  have expired: "run (weak_array_expired env c weak_array t') = (Done True, t')"
    using life(11,13) by (simp add: weak_array_expired_def noexceptp_def read_weak_ref_def prog_simps weak_lookup_def)
  have gone: "run (weak_array_destroy env c weak_array t') = (Done (), t')"
    using life(12) by (simp add: weak_array_destroy_def run_leaf)
  have null: "run (weak_array_default weak_array ((new_gc_state m)\<lparr>gc_threads := [(c, new_ThreadState\<lparr>ts_stack_bottom := base + n\<rparr>)]\<rparr>)) = (Done (), ?s)"
    by (simp add: weak_array_default_def run_leaf)
  have "run (weak_arrays env c weak_array temporary (Unused m)) = (Done (Some (7, 11), True), t')"
    unfolding weak_arrays_def noexceptp_def run_catchp run_bindp register_first_thread [OF st mem] bind_outcome.simps null made
      Let_def set life(1-4,8) expired gone
    using life(5-7) by (simp add: run_leaf array_ptr_bool_def)
  with life(9-11,14) start(6) show ?thesis by auto
qed

end
