(* ===== verification/Example_Demo.thy ===== *)
theory Example_Demo
  imports Demo_Run Weak_Array_Program Example_Heap
begin

text \<open>
  A process in which the demonstration program runs: four slots for blocks above the first
  terabyte, a stack below 0x9000, and memory that is zero; and the same process with the destructor
  of the array of \<open>weak_arrays\<close>.
\<close>

definition demo_slots :: "addr list" where
  "demo_slots = [0x10000000000, 0x10000000400, 0x10000000800, 0x10000000C00]"

definition demo_addrs :: "addr set" where
  "demo_addrs = {x. 0x10000000000 \<le> x \<and> x < 0x10000001000}"

definition demo_env :: gc_env where
  "demo_env = example_env
     \<lparr>e_op_new := (\<lambda>s n al.
        if al = 16 \<and> n \<le> 0x400 then find (\<lambda>a. region_free (gc_regions s) a n) demo_slots else None),
      e_finalize := (\<lambda>d. Node_destroy), e_stack_marker := 0x8000, e_pthread_stack := Some (0x7000, 0x2000)\<rparr>"

definition example_frame :: demo_frame where
  "example_frame = \<lparr>df_root = 0x8F00, df_alpha = 0x8010, df_beta = 0x8018, df_noise = 0x8000\<rparr>"

lemma demo_env_sel [simp]:
  "e_alloc_fails demo_env = (\<lambda>_. False)" "e_finalize demo_env = (\<lambda>d. Node_destroy)" "e_registers demo_env = [0, 7]"
  "e_images demo_env = []" "e_pthread_stack demo_env = Some (0x7000, 0x2000)" "e_stack_marker demo_env = 0x8000"
  by (simp_all add: demo_env_def example_env_def)

lemma demo_op_new:
  "e_op_new demo_env s n al = Some a \<Longrightarrow> al = 16 \<and> n \<le> 0x400 \<and> a \<in> set demo_slots \<and> region_free (gc_regions s) a n"
  by (auto simp: demo_env_def find_Some_iff split: if_splits)

lemma demo_op_new_finds:
  assumes "length (gc_regions s) < 4" "node_regions demo_env s"
  shows "e_op_new demo_env s 72 16 \<noteq> None"
proof -
  have "card (fst ` set (gc_regions s)) < 4"
    using assms(1) card_image_le [of "set (gc_regions s)" fst] card_length [of "gc_regions s"] by simp
  moreover have "card (set demo_slots) = 4" by (simp add: demo_slots_def)
  ultimately obtain a where a: "a \<in> set demo_slots" "a \<notin> fst ` set (gc_regions s)"
    by (metis List.finite_set card_mono finite_imageI leD subsetI)
  have "fst r \<in> set demo_slots \<and> snd r = 72" if "r \<in> set (gc_regions s)" for r
    using assms(2) that demo_op_new unfolding node_regions_def by blast
  then have "unat (fst r) + unat (snd r) \<le> unat a \<or> unat a + unat (72 :: size_t) \<le> unat (fst r)"
    if "r \<in> set (gc_regions s)" for r
    using a that by (fastforce simp: demo_slots_def)
  then have "region_free (gc_regions s) a 72" by (simp add: region_free_def list_all_iff)
  with a(1) show ?thesis by (auto simp: demo_env_def find_None_iff)
qed

lemma demo_world_example: "demo_world demo_env demo_addrs"
  unfolding demo_world_def
proof (intro conjI allI impI ballI)
  show "\<not> out_of_memory demo_env" by (simp add: out_of_memory_def)
  show "op_new_ok demo_env"
    unfolding op_new_ok_def using demo_op_new by (fastforce simp: demo_slots_def word_le_nat_alt)
  show "x \<in> demo_addrs" if "e_op_new demo_env s n al = Some a" "x - a < n" for s n al a x
  proof -
    have n: "n \<le> 0x400" and a: "a \<in> set demo_slots" using demo_op_new [OF that(1)] by simp_all
    have lt: "x - a < 0x400" by (rule less_le_trans [OF that(2) n])
    have u: "unat a \<le> 0x10000000C00" "0x10000000000 \<le> unat a" using a by (auto simp: demo_slots_def)
    have "unat (a + d) = unat a + unat d" if "d < 0x400" for d
      using u that by (simp add: unat_word_ariths word_less_nat_alt)
    from this [OF lt] have "unat x = unat a + unat (x - a)" by simp
    then show ?thesis using u lt by (simp add: demo_addrs_def word_le_nat_alt word_less_nat_alt)
  qed
  show "e_op_new demo_env s 72 16 \<noteq> None" if "length (gc_regions s) < 4" "node_regions demo_env s" for s
    by (rule demo_op_new_finds [OF that])
  show "\<not> small_word w" if "w \<in> demo_addrs" for w using that by (auto simp: demo_addrs_def small_word_def)
  have "a < 0x9000" if "a \<in> set (word_addrs 0x8000 0x9000)" for a :: addr
    using that set_word_addrs [of "0x8000" "0x9000" a] by (simp add: word_less_nat_alt min_def max_def)
  then have "a \<notin> demo_addrs" if "a \<in> set (word_addrs 0x8000 0x9000)" for a
    using that by (fastforce simp: demo_addrs_def word_less_nat_alt word_le_nat_alt)
  then show "set (word_addrs (e_stack_marker demo_env) (demo_stack_bottom demo_env)) \<inter> demo_addrs = {}"
    by (auto simp: demo_stack_bottom_def)
qed (auto simp: demo_addrs_def demo_stack_bottom_def global_addrs_def)

lemma frame_ok_example: "frame_ok example_frame demo_addrs"
proof -
  have "noise_at example_frame i < 0x8800" if "i < 256" for i
    using that by (simp add: noise_at_def example_frame_def word_less_nat_alt unat_word_ariths unat_of_nat)
  then have "noise_at example_frame i \<notin> demo_addrs \<and> noise_at example_frame i \<noteq> 0x8F00" if "i < 256" for i
    using that [THEN \<open>\<And>i. i < 256 \<Longrightarrow> noise_at example_frame i < 0x8800\<close>]
    by (auto simp: demo_addrs_def word_less_nat_alt word_le_nat_alt)
  moreover have "df_alpha example_frame = noise_at example_frame 2" "df_beta example_frame = noise_at example_frame 3"
    by (simp_all add: example_frame_def noise_at_def)
  ultimately show ?thesis
    unfolding frame_ok_def
    by (auto simp: root_slot_def aligned_def demo_addrs_def intro: exI [of _ 2] exI [of _ 3])
      (simp_all add: example_frame_def)
qed

lemma load_word_zero [simp]: "load_word (\<lambda>_. 0) a = 0"
  by (rule bit_word_eqI) (simp add: bit_load_word)

text \<open>The process of \<open>weak_arrays\<close>, with its handles on the stack.\<close>

definition weak_array_env :: gc_env where
  "weak_array_env = demo_env\<lparr>e_finalize := (\<lambda>d. ArrayDestructor_destroy sizeof_Buffer alignof_Buffer Buffer_destroy)\<rparr>"

lemma weak_array_world_example: "weak_array_world weak_array_env 0x8F00 0x8F10"
proof -
  have new: "e_op_new weak_array_env = e_op_new demo_env" by (simp add: weak_array_env_def)
  have ok: "op_new_ok weak_array_env" using demo_world_example by (simp add: op_new_ok_def new demo_world_def)
  have apart: "\<not> x - 0x8F00 < 8 \<and> \<not> x - 0x8F10 < 8" if "e_op_new demo_env s 52 16 = Some a" "x - a < 52" for s a x
  proof -
    have "x \<in> demo_addrs" using demo_world_example that unfolding demo_world_def by blast
    then have "unat (0x10000000000 :: addr) \<le> unat x" unfolding demo_addrs_def by (simp add: word_le_nat_alt)
    then show ?thesis by (simp add: word_less_nat_alt unat_sub_if') linarith
  qed
  have "e_op_new demo_env s 52 16 \<noteq> None" if "gc_regions s = []" for s
    using that by (simp add: demo_env_def demo_slots_def region_free_def)
  with ok apart show ?thesis
    unfolding weak_array_world_def new
    by (auto simp: weak_array_env_def out_of_memory_def word_apart_def)
qed

end
