(* ===== verification/Spec2Isabelle.thy ===== *)
theory Spec2Isabelle
  imports Example_Threads Example_Demo
begin

text \<open>
  A verification library of GC-Lib, a conservative stop-the-world mark and sweep collector for C++
  (\<open>src/GCManager.cpp\<close>, \<open>src/RootScanner.cpp\<close> and the headers under \<open>include/gc\<close>).

  The program. \<open>GC_Manager\<close> keeps every managed block in the ordered map \<open>allocations_\<close>, keyed by
  payload address; each block starts with a \<open>ChunkHeader\<close>. User code allocates through
  \<open>gc_new\<close> and \<open>gc_new_array\<close>, which call \<open>collect_if_needed\<close>, \<open>malloc_internal\<close>, the constructor,
  and then \<open>finish_construction\<close> or \<open>release_unconstructed\<close>. A collection stops the registered
  threads, clears the marks, visits the words of stacks, registers, globals and registered
  root ranges through \<open>RootScanner\<close>, drains a worklist through payloads, detaches the unmarked
  blocks and zeroes the weak references into them; then, with the mutex released and the other
  threads still parked, it runs the finalizers in reference order, frees the memory, and
  resumes the world. Handles (\<open>gc_ptr\<close>, \<open>gc_weak_ptr\<close>,
  \<open>gc_root\<close>, \<open>gc_vector\<close>) and the scoped helpers sit on top of these operations.

  How it is modelled. The target is LP64: addresses, sizes and words are \<open>64 word\<close> with the
  wrap-around of the source. Process memory is a map from addresses to bytes; block headers
  are a typed store beside it, indexed by header address. All data members of the manager are
  fields of the record \<open>gc_state\<close>. An operation maps the state to a resumption program and a new
  state: it returns, throws one of the exceptions of \<open>gc_exn\<close>, has called \<open>std::terminate\<close>,
  loops for ever, or waits, with the mutex released, for a condition on the state. Acquiring the
  mutex and \<open>condition_variable::wait\<close> are waits, so that the points where other threads may take
  steps are explicit. The program is used in two ways. \<open>interleaved\<close> is the set of the states reached
  when any number of threads call the manager and take turns at the waits; properties C9 to C12 are about
  it. \<open>run\<close> executes one program while no other thread takes a step; the other properties are about
  \<open>run\<close>, with the parked threads of a collection as a hypothesis on the state (\<open>can_collect\<close>). C10 is
  the link between the two: once a collector has seen the other threads parked, \<open>run\<close> is what
  happens to the rest of the collection. Code outside the repository is a parameter in the record \<open>gc_env\<close> or an argument:
  \<open>::operator new\<close>, the failure of container allocations, user constructors and finalizers, the
  registers \<open>setjmp\<close> saves, the loaded images, the stack bounds and the clock. What is
  asked of it is named: \<open>op_new_ok\<close>, \<open>finalizers_return\<close>, \<open>constructor_ok\<close>, \<open>element_constructor_ok\<close>,
  \<open>element_destructor_ok\<close>, \<open>buffers_apart\<close>, \<open>reports_regions\<close>; for the interleavings, that finalizers
  keep to the handshake and give back what they take (\<open>cooperative\<close>, \<open>well_behaved\<close>).

  The theories, in dependency order.
  \<^item> \<open>GC_Prelude\<close>: machine types, memory with word access, programs, \<open>run\<close> and its rules
    (\<open>prog_simps\<close>). \<open>Std_Map\<close>: \<open>std::map\<close> as a sorted list; locale \<open>ordered_map\<close>.
  \<^item> \<open>Chunk_Header\<close>: \<open>ChunkHeader.hpp\<close> and the checked size arithmetic. \<open>Gc_State\<close>: the records of
    \<open>GCManager.hpp\<close>, the environment, and the heap invariant \<open>heap_inv\<close>: blocks are well formed and
    disjoint, the byte counters are the sums over the blocks, every block lies in allocated memory.
  \<^item> \<open>Block_Index\<close>: \<open>find_block_locked\<close>, \<open>register_block_locked\<close>, the payload loop; locale
    \<open>interval_index\<close>, interpreted here and for the graph of the finalization order.
  \<^item> \<open>Root_Scanner\<close>, \<open>Sanitized_Scan\<close> and \<open>Platform_Scan\<close>: \<open>RootScanner.cpp\<close>, for Linux, for a build with
    AddressSanitizer, and for macOS, Windows and other systems.
  \<^item> \<open>Marking\<close>: roots, worklist and payload scan; locale \<open>worklist_tracing\<close> proves the loop once and
    gives \<open>reachable\<close>. \<open>Finalization_Order\<close>: the topological order of dead blocks; locale
    \<open>max_priority_queue\<close>.
  \<^item> \<open>Thread_Registry\<close>: registration, parking, the wait of the collector, root ranges.
    \<open>Weak_Refs\<close>: the weak reference table; locale \<open>weak_table\<close>.
  \<^item> \<open>Sweep\<close>, \<open>Collector\<close>, \<open>Allocation\<close>, \<open>Diagnostics\<close>: \<open>sweep_locked\<close> and \<open>destroy_blocks\<close>;
    \<open>collect\<close>, \<open>collect_if_needed\<close>, \<open>shutdown\<close>; \<open>malloc_internal\<close> and the two ends of construction;
    counters, statistics and snapshots. Each operation has one case rule (\<open>collect_cases\<close>,
    \<open>shutdown_cases\<close>, \<open>malloc_cases\<close>, ...) with a case per outcome, errors included.
  \<^item> \<open>Manager_Instance\<close>: the local static of \<open>instance()\<close>, its destructor and the free functions.
  \<^item> \<open>Gc_Ptr\<close>, \<open>Construction\<close>: \<open>gc_ptr.hpp\<close> and \<open>gc_new.hpp\<close>. \<open>Weak_Handles\<close>: \<open>gc_weak_ptr.hpp\<close>, with
    the simulation \<open>handles_sim\<close> into an abstract table. \<open>Root_Handles\<close>: \<open>gc_root.hpp\<close>, with the
    simulation \<open>roots_sim\<close> into a map of live roots. \<open>Array_Handles\<close>: the specialisations of the three
    handles for arrays, shown to do what the object handles do. \<open>Gc_Vector\<close>, \<open>Vector_As_List\<close>:
    \<open>gc_vector.hpp\<close> and its simulation \<open>vec_sim\<close> into a list. \<open>Scoped\<close>: the helpers of
    \<open>GCManager.hpp\<close>; locale \<open>range_owner\<close>, interpreted for ranges and for objects.
  \<^item> \<open>Rely_Guarantee\<close>: what a program may assume of the steps of other threads and what its own steps
    promise (\<open>rg\<close>); locale \<open>protocol\<close> proves once that threads which keep their promises may be
    interleaved. \<open>Handshake\<close> interprets it for the control data (who is registered, parked,
    collecting), \<open>Heap_Ownership\<close> for the heap, whose invariant is completed by the blocks that a
    collection or an allocation has in its hands; each has one lemma per operation.
    \<open>Interleaving\<close>: the calls, \<open>thread_step\<close>, \<open>interleaved\<close> and the two invariants of all interleavings.
  \<^item> \<open>Demo_Program\<close>: \<open>src/main.cpp\<close> and \<open>examples/quick_start.cpp\<close>, from start to end. \<open>Demo_Heap\<close>: their
    memory as two maps, of the locals and of the nodes, which every statement takes to the next
    pair (\<open>demo_state\<close>). \<open>Demo_Run\<close>: the runs, statement by statement. \<open>Weak_Array_Program\<close>:
    \<open>examples/weak_arrays.cpp\<close> and its run.
  \<^item> \<open>Example_Heap\<close>, \<open>Example_Threads\<close>, \<open>Example_Demo\<close>: a concrete heap, concrete interleavings and
    a concrete surrounding of the demonstration program on which the hypotheses of the properties hold.

  What the properties below show. C1 to C8: what a collection keeps, removes, finalizes, in which
  order, and zeroes, on success and on failure. C9 to C12: all interleavings of any number of
  threads. C13 and C14: the demonstration program and an example from start to end. C15 to C18:
  allocation and the ends of construction. C19 and C20: shutdown, the threshold. C21 and C22: lookup
  and scanning. C23 and C24: the weak table. C25 and C26: parking and registration. C27 to C29:
  diagnostics. C30 to C32: rounding and the payload loop. C33 and C34:
  object and array construction. C35 to C39: handles and helpers. C40: the Windows scan.

  Bounds and termination. No fuel is used. The scan loop and the worklist loop are total or
  partial functions with their termination proved (C3, C22, C31, C40); the payload loop, which
  compares a wrapping sum, ends for every block whose payload ends in the lower half of the
  address space, which \<open>block_ok\<close> asks and \<open>op_new_ok\<close> provides, and runs for ever at the very top (C32).

  The demonstration program. Its conservative scan sees whatever the process keeps in stacks and
  globals, so C13 has to exclude accidents: \<open>H\<close> is a set of addresses that holds all memory of the
  allocator, and registers, small numbers and the memory outside \<open>H\<close> hold no element of it when
  the program starts. Named locals are stack words at the addresses of \<open>demo_frame\<close>, those of the cycle within
  the part that \<open>scrub_stack\<close> overwrites; temporaries of the compiler are left out. What a
  destructor prints is read off the finalizers that ran, in their order. \<open>weak_arrays\<close> makes no
  collection, so that C14 asks nothing of what lies in memory.

  Not modelled. Failures of \<open>std::mutex\<close> and of \<open>setjmp\<close>, the formatting of the lines of \<open>dump_heap\<close>,
  the Mach-O scan of a 32-bit build, the benchmarks, which time the library, and the examples
  other than \<open>quick_start.cpp\<close> and \<open>weak_arrays.cpp\<close>, which only call operations treated above. The collector is put together
  from the scans of the plain Linux build; the scans of the other builds are compared with those.
  A container allocation of the manager fails or succeeds by its place in the code, the same way
  during one call. Where the standard leaves \<open>std::vector\<close> a choice, \<open>Gc_Vector\<close> makes that of
  libstdc++.
\<close>

section \<open>Collection\<close>

text \<open>
  C1: A collection by a registered thread, with every other thread parked, enough memory for
  the collector's own containers and finalizers that return, itself returns; what stays in the
  allocation map is exactly the set of blocks conservatively reachable from the roots, the heap
  invariant holds again, and the world is resumed.
\<close>

theorem collect_keeps_exactly_the_reachable:
  assumes "heap_inv s" "can_collect c s" "\<not> out_of_memory env" "finalizers_return env"
  shows "\<exists>t. run (collect env c s) = (Done (), t) \<and> blocks t = reachable env c s \<and> heap_inv t \<and>
    \<not> gc_stop_the_world_requested t \<and> \<not> gc_collecting t \<and> gc_collector_thread t = no_thread"
  using assms(1,2,4)
proof (cases rule: collect_cases)
  case (throws t)
  with assms(3) show ?thesis by simp
next
  case (returns hs t)
  then show ?thesis using collected_blocks [OF returns(2)] by (auto simp: collected_def)
qed

theorem collect_keeps_exactly_the_reachable_witness:
  "\<exists>t. run (collect example_env 1 example_state) = (Done (), t) \<and>
    blocks t = reachable example_env 1 example_state \<and> heap_inv t \<and>
    \<not> gc_stop_the_world_requested t \<and> \<not> gc_collecting t \<and> gc_collector_thread t = no_thread"
  by (rule collect_keeps_exactly_the_reachable
      [OF example_heap_inv example_can_collect example_not_starved example_finalizers(1)])



text \<open>
  C3: The mark phase ends and marks exactly the reachable blocks, whatever flags an earlier
  collection left behind; it changes nothing but mark flags.
\<close>

theorem marking_is_exact:
  assumes "index_inv s"
  shows "\<exists>t. mark_phase env c (clear_marks_locked s) = Some t \<and>
    marked_blocks t = reachable env c s \<and> gc_allocations t = gc_allocations s \<and>
    gc_mem t = gc_mem s \<and> (\<forall>a. set_marked False (gc_headers t a) = set_marked False (gc_headers s a))"
  using clear_and_mark [OF assms, of env c] by (auto simp: marks_only_sel) (auto simp: marks_only_def)

theorem marking_is_exact_witness:
  "\<exists>t. mark_phase example_env 1 (clear_marks_locked example_state) = Some t \<and>
    marked_blocks t = reachable example_env 1 example_state \<and>
    gc_allocations t = gc_allocations example_state \<and> gc_mem t = gc_mem example_state \<and>
    (\<forall>a. set_marked False (gc_headers t a) = set_marked False (gc_headers example_state a))"
  by (rule marking_is_exact [OF example_index_inv])

text \<open>
  C4: A collection that returns finalizes every unreachable block that has a finalizer, and
  frees every unreachable block, each exactly once; all finalizers run before the first block
  is freed, in the same order, and each block is freed with the alignment its header records. In
  that order a dead block comes before the dead blocks it refers to, except for those to which a
  cycle of dead blocks leads: a finalizer can still use what its object owns.
\<close>

theorem collect_finalizes_then_frees:
  assumes "heap_inv s" "can_collect c s" "\<not> out_of_memory env" "finalizers_return env"
  shows "\<exists>hs t. run (collect env c s) = (Done (), t) \<and> distinct hs \<and>
    set hs = br_header ` (blocks s - reachable env c s) \<and>
    referrers_first s (blocks s - reachable env c s) hs \<and>
    gc_events t = gc_events s @ concat (map (finalization_of s) hs) @
      map (\<lambda>h. Freed h (allocation_alignment (gc_headers s h))) hs \<and>
    gc_regions t = filter (\<lambda>r. fst r \<notin> set hs) (gc_regions s)"
  using assms(1,2,4)
proof (cases rule: collect_cases)
  case (throws t)
  with assms(3) show ?thesis by simp
next
  case (returns hs t)
  have "index_inv s" using assms(1) by (simp add: heap_inv_def)
  note hs = unreachable_headers_distinct [OF this, of hs env c]
  show ?thesis
    using returns hs by (intro exI [of _ hs] exI [of _ t]) (simp add: collected_def finalizations_def frees_def)
qed

theorem collect_finalizes_then_frees_witness:
  "\<exists>hs t. run (collect example_env 1 example_state) = (Done (), t) \<and> distinct hs \<and>
    set hs = br_header ` (blocks example_state - reachable example_env 1 example_state) \<and>
    referrers_first example_state (blocks example_state - reachable example_env 1 example_state) hs \<and>
    gc_events t = gc_events example_state @ concat (map (finalization_of example_state) hs) @
      map (\<lambda>h. Freed h (allocation_alignment (gc_headers example_state h))) hs \<and>
    gc_regions t = filter (\<lambda>r. fst r \<notin> set hs) (gc_regions example_state)"
  by (rule collect_finalizes_then_frees
      [OF example_heap_inv example_can_collect example_not_starved example_finalizers(1)])

text \<open>
  C5: The order of finalization is a permutation of the dead blocks. A block that refers to
  another comes before it, unless the other one can be reached from a cycle of references.
\<close>

theorem finalization_order_respects_references:
  assumes "blocks_listed bs" "\<not> out_of_memory env"
  shows "\<exists>is. order_blocks_for_finalization_locked env bs s =
      (Return (map (\<lambda>i. br_header (bs ! i)) is), s) \<and>
    distinct is \<and> set is = {..<length bs} \<and>
    (\<forall>i j. refers (gc_mem s) bs i j \<longrightarrow> cycle_free (gc_mem s) bs j \<longrightarrow>
      (\<exists>xs ys zs. is = xs @ i # ys @ j # zs))"
proof -
  obtain "is" where "finalization_indices (gc_mem s) bs = Some is" "distinct is" "set is = {..<length bs}"
    "\<forall>i j. refers (gc_mem s) bs i j \<longrightarrow> cycle_free (gc_mem s) bs j \<longrightarrow>
      (\<exists>xs ys zs. is = xs @ i # ys @ j # zs)"
    using finalization_indices_spec [OF assms(1)] by blast
  with assms(2) show ?thesis
    by (intro exI [of _ "is"]) (simp add: order_blocks_for_finalization_locked_def out_of_memory_def)
qed

theorem finalization_order_respects_references_witness:
  "\<exists>is. order_blocks_for_finalization_locked example_env
        [example_block 0x1000, example_block 0x2000, example_block 0x3000] example_state =
      (Return (map (\<lambda>i. br_header ([example_block 0x1000, example_block 0x2000, example_block 0x3000] ! i)) is),
        example_state) \<and>
    distinct is \<and> set is = {..<length [example_block 0x1000, example_block 0x2000, example_block 0x3000]} \<and>
    (\<forall>i j. refers (gc_mem example_state)
          [example_block 0x1000, example_block 0x2000, example_block 0x3000] i j \<longrightarrow>
      cycle_free (gc_mem example_state)
          [example_block 0x1000, example_block 0x2000, example_block 0x3000] j \<longrightarrow>
      (\<exists>xs ys zs. is = xs @ i # ys @ j # zs))"
  by (rule finalization_order_respects_references [OF _ example_not_starved])
    (simp add: blocks_listed_def example_block_def)



section \<open>Roots\<close>

text \<open>
  C7: A reachable block survives every collection, also one that runs out of memory half-way.
\<close>

theorem reachable_blocks_survive:
  assumes "heap_inv s" "can_collect c s" "finalizers_return env" "b \<in> reachable env c s"
  shows "\<exists>r t. run (collect env c s) = (r, t) \<and> (r = Done () \<or> r = Threw Bad_Alloc) \<and>
    (br_payload_begin b, b) \<in> set (gc_allocations t)"
  by (rule collect_keeps_reachable [OF assms])

theorem reachable_blocks_survive_witness:
  "\<exists>r t. run (collect starved_env 1 example_state) = (r, t) \<and> (r = Done () \<or> r = Threw Bad_Alloc) \<and>
    (br_payload_begin (example_block 0x2000), example_block 0x2000) \<in> set (gc_allocations t)"
  by (rule reachable_blocks_survive
      [OF example_heap_inv example_can_collect example_finalizers(2) example_reachable(2)])



section \<open>Many threads\<close>

text \<open>
  C9: In every interleaving of the calls of any number of threads and of their writes to memory, from
  a new manager on, the heap invariant holds at every point where the mutex is free: blocks are
  well formed and disjoint, the byte counters are exact, and every block lies in memory that is
  allocated; what \<open>::operator new\<close> has handed out and not got back does not overlap. No weak
  reference dangles: the target of every entry of the weak reference table is in a block.
\<close>

theorem heap_inv_in_every_interleaving:
  assumes "interleaved E m (P, s)" "well_behaved E"
  shows "heap_inv s \<and> regions_apart (gc_regions s) \<and>
    (\<forall>e\<in>set (gc_weak_refs s). \<exists>b. find_block_locked (wr_target e) s = Some b)"
  using interleaved_heap_ok [OF assms] weak_targets_found by (simp add: heap_ok_def)

theorem heap_inv_in_every_interleaving_witness:
  "heap_inv allocating \<and> regions_apart (gc_regions allocating) \<and> gc_regions allocating \<noteq> [] \<and> blocks allocating = {}"
proof -
  obtain P where "interleaved {example_env} (\<lambda>_. 0) (P, allocating)" by (rule one_thread_allocates)
  from heap_inv_in_every_interleaving [OF this example_envs(2)] show ?thesis
    by (simp add: allocating_def one_thread_def new_gc_state_def init_header_def blocks_def Let_def)
qed

text \<open>
  C10: Once a thread has the world stopped and every other registered thread has parked, no step
  of another thread changes anything but the list of root ranges, and only threads that are not
  registered can take a step at all: marking, sweeping, finalizing and freeing run undisturbed.
\<close>

theorem stopped_world_is_exclusive:
  assumes "interleaved E m (P, s)" "cooperative E" "holds c s" "others_paused c s"
    and "thread_step E u (P, s) (P', s')" "u \<noteq> c"
  shows "\<not> thread_registered u s \<and> s' = s\<lparr>gc_root_ranges := gc_root_ranges s'\<rparr>"
  by (rule exclusive [OF assms])

theorem stopped_world_is_exclusive_witness:
  "\<not> thread_registered 2 holding \<and> ranged = holding\<lparr>gc_root_ranges := gc_root_ranges ranged\<rparr> \<and>
    gc_root_ranges ranged \<noteq> gc_root_ranges holding"
proof -
  obtain P P' where st: "interleaved {example_env} (\<lambda>_. 0) (P, holding)"
    "thread_step {example_env} 2 (P, holding) (P', ranged)" by (rule unregistered_thread_steps)
  from stopped_world_is_exclusive [OF st(1) example_envs(1) holding_stops st(2)]
  show ?thesis by (simp add: ranged_def holding_refuses(5))
qed



text \<open>
  C12: The control state of the system is well formed in every interleaving. The thread table is in
  key order, and the flag of a collection is that of a stop. A thread in user code has neither parked
  nor stopped the world. A call in progress is at one of four waits: for the mutex, for
  the end of a stop as a thread that is not registered, for the end of a stop as a thread that
  has parked, or, as the one thread that has stopped the world, for the others to park.
\<close>

theorem control_state_in_every_interleaving:
  assumes "interleaved E m (P, s)" "cooperative E"
  shows "om_wf (gc_threads s) \<and> gc_collecting s = gc_stop_the_world_requested s \<and>
    (\<forall>u. case P u of
        None \<Rightarrow> \<not> paused u s \<and> \<not> holds u s
      | Some r \<Rightarrow> \<exists>p k. r = Wait p k \<and>
          (p = (\<lambda>_. True) \<and> \<not> paused u s \<or>
           p = may_proceed u \<and> \<not> paused u s \<and> \<not> thread_registered u s \<or>
           p = (\<lambda>s. \<not> gc_stop_the_world_requested s) \<and> paused u s \<and> \<not> holds u s \<or>
           p = others_paused u \<and> \<not> paused u s \<and> holds u s))"
proof -
  have c: "control_inv P s" using assms by (rule interleaved_control)
  from control_inv_ok [OF c] thread_idle [OF c] thread_waits [OF c, unfolded wait_ok_def] show ?thesis
    by (simp add: control_ok_def split: option.split)
qed

theorem control_state_in_every_interleaving_witness:
  "\<exists>P p k. interleaved {example_env} (\<lambda>_. 0) (P, holding) \<and> P 2 = Some (Wait p k) \<and>
    (p = (\<lambda>_. True) \<or> p = may_proceed 2) \<and> \<not> paused 2 holding \<and>
    om_wf (gc_threads holding) \<and> gc_collecting holding"
proof -
  obtain P p k where st: "interleaved {example_env} (\<lambda>_. 0) (P, holding)" "P 2 = Some (Wait p k)" "\<not> p holding"
    by (rule thread_waits_for_stop)
  have "\<not> paused 2 holding" "\<not> holds 2 holding" "gc_stop_the_world_requested holding"
    using holding_stops(1) holding_refuses(3)
    by (auto simp: paused_def thread_registered_def holds_def holding_def request_stop_def one_thread_def
        new_gc_state_def find_thread_state_locked_def om_find_def)
  with control_state_in_every_interleaving [OF st(1) example_envs(1)] st show ?thesis
    by (auto split: option.splits dest!: spec [of _ 2])
qed

section \<open>Whole programs\<close>

text \<open>
  C13: The demonstration program prints what it means to print, whatever addresses the allocator
  and the stack give it, as long as no word that is scanned happens to be a heap address: two
  blocks before and after the first collection, the two nodes of the cycle destroyed and two
  blocks left after the second, a snapshot with the two nodes and the reference between them, and
  after the last root is dropped the destruction of the first node and then of the second, and no
  block. It ends with every block, region and root range given back.
\<close>

theorem demo_program_reclaims_what_it_drops:
  assumes "demo_world env H" "frame_ok fr H" "\<forall>a. aligned a \<longrightarrow> a \<notin> H \<longrightarrow> load_word m a \<notin> H"
  shows "\<exists>t x y snapshot p q. run (demo_main env c fr (Unused m)) = (Done ((), demo_output x y snapshot), t) \<and>
    {x, y} = {''alpha'', ''beta''} \<and> p \<noteq> q \<and> list_snapshot p q snapshot \<and>
    gc_allocations t = [] \<and> gc_regions t = [] \<and> gc_root_ranges t = [] \<and> gc_managed_bytes t = 0"
  by (rule demo_main_result [OF assms(1,2)]) (use assms(3) in blast)

theorem demo_program_reclaims_what_it_drops_witness:
  "\<exists>t x y snapshot p q. run (demo_main demo_env 1 example_frame (Unused (\<lambda>_. 0))) =
      (Done ((), demo_output x y snapshot), t) \<and>
    {x, y} = {''alpha'', ''beta''} \<and> p \<noteq> q \<and> list_snapshot p q snapshot \<and>
    gc_allocations t = [] \<and> gc_regions t = [] \<and> gc_root_ranges t = [] \<and> gc_managed_bytes t = 0"
  by (rule demo_program_reclaims_what_it_drops [OF demo_world_example frame_ok_example])
    (simp add: demo_addrs_def)

text \<open>
  C14: The life of an array in the example \<open>weak_arrays.cpp\<close>. Locking the weak handle gives the
  two values that were stored in the array; the shutdown runs the destructor of the array, which finds
  the count in front of the elements and destroys the three of them in reverse order of their
  construction, then frees the memory, and the weak handle has expired. Nothing is left of the block, its
  memory and the entry of the handle.
\<close>

theorem weak_array_lives_until_shutdown:
  assumes "weak_array_world env weak_array temporary"
  shows "\<exists>raw t. run (weak_arrays env c weak_array temporary (Unused m)) = (Done (Some (7, 11), True), t) \<and>
    gc_allocations t = [] \<and> gc_regions t = [] \<and> gc_weak_refs t = [] \<and>
    gc_events t = [Constructed (raw + 40), Constructed (raw + 44), Constructed (raw + 48),
      Finalized buffer_array_destructor (raw + 32),
      Destroyed (raw + 48), Destroyed (raw + 44), Destroyed (raw + 40), Freed raw 16]"
  by (rule weak_arrays_result [OF assms])

theorem weak_array_lives_until_shutdown_witness:
  "\<exists>raw t. run (weak_arrays weak_array_env 1 0x8F00 0x8F10 (Unused (\<lambda>_. 0))) = (Done (Some (7, 11), True), t) \<and>
    gc_allocations t = [] \<and> gc_regions t = [] \<and> gc_weak_refs t = [] \<and>
    gc_events t = [Constructed (raw + 40), Constructed (raw + 44), Constructed (raw + 48),
      Finalized buffer_array_destructor (raw + 32),
      Destroyed (raw + 48), Destroyed (raw + 44), Destroyed (raw + 40), Freed raw 16]"
  by (rule weak_array_lives_until_shutdown [OF weak_array_world_example])

section \<open>Allocation\<close>

text \<open>
  C15: An allocation returns or throws \<open>std::bad_alloc\<close>, whatever it is asked for. When it
  throws, the invariant holds and no memory is left allocated. When it returns, the payload is
  aligned as asked, registered with exactly the requested size, overlaps no other block and no
  reachable block's memory is reused, it reads as zero, and its header records the finalizer and the
  alignment.
\<close>

theorem malloc_internal_is_total:
  assumes "heap_inv s" "can_collect c s" "finalizers_return env" "op_new_ok env"
  shows "(\<exists>t. run (malloc_internal env c n al d constructing s) = (Threw Bad_Alloc, t) \<and>
      heap_inv t \<and> set (gc_regions t) \<subseteq> set (gc_regions s)) \<or>
    (\<exists>p b t. run (malloc_internal env c n al d constructing s) = (Done p, t) \<and> heap_inv t \<and>
      unat al dvd unat p \<and> b \<in> blocks t \<and> b \<notin> reachable env c s \<and> reachable env c s \<subseteq> blocks t \<and>
      br_payload_begin b = p \<and> unat (br_payload_end b) = unat p + unat n \<and>
      br_constructing b = constructing \<and> ch_destructor (header_of t b) = d \<and>
      allocation_alignment (header_of t b) = normalize_alignment al \<and>
      (\<forall>b'\<in>blocks t - {b}. br_payload_end b' \<le> br_header b \<or> br_payload_end b \<le> br_header b') \<and>
      (\<forall>x. x - p < n \<longrightarrow> gc_mem t x = 0))"
  using assms
proof (cases rule: malloc_cases [where n = n and al = al and d = d and constructing = constructing])
  case (throws t)
  then show ?thesis by blast
next
  case (returns raw off u t)
  let ?b = "block_at raw off n constructing"
  note ready = maybe_collected_ready [OF assms(1,2) returns(2)]
  note bl = allocated_blocks [OF ready(1) returns(3)]
  note r = maybe_collected_reachable [OF returns(2)]
  have "unat al dvd unat (raw + off)" by (rule aligned_payload [OF returns(5,4,6) bl(4)])
  moreover have "heap_inv t" "\<forall>x. x - (raw + off) < n \<longrightarrow> gc_mem t x = 0"
    using returns(3) by (simp_all add: allocated_def memset_zero_def)
  moreover have "br_payload_begin ?b = raw + off" "br_constructing ?b = constructing"
    by (simp_all add: block_at_def)
  moreover note allocated_header [OF returns(3) normalize_alignment_pow2(1) [OF returns(5)]]
  moreover have "?b \<notin> reachable env c s" "reachable env c s \<subseteq> blocks t" "?b \<in> blocks t"
    "\<forall>b'\<in>blocks t - {?b}. br_payload_end b' \<le> br_header ?b \<or> br_payload_end ?b \<le> br_header b'"
    using bl(1-3) r by auto
  ultimately show ?thesis using returns(1) bl(5) by blast
qed

theorem malloc_internal_is_total_witness:
  "(\<exists>t. run (malloc_internal example_env 1 40 64 (Some 3) True example_state) = (Threw Bad_Alloc, t) \<and>
      heap_inv t \<and> set (gc_regions t) \<subseteq> set (gc_regions example_state)) \<or>
    (\<exists>p b t. run (malloc_internal example_env 1 40 64 (Some 3) True example_state) = (Done p, t) \<and> heap_inv t \<and>
      unat (64 :: size_t) dvd unat p \<and> b \<in> blocks t \<and> b \<notin> reachable example_env 1 example_state \<and>
      reachable example_env 1 example_state \<subseteq> blocks t \<and>
      br_payload_begin b = p \<and> unat (br_payload_end b) = unat p + unat (40 :: size_t) \<and>
      br_constructing b = True \<and> ch_destructor (header_of t b) = Some 3 \<and>
      allocation_alignment (header_of t b) = normalize_alignment 64 \<and>
      (\<forall>b'\<in>blocks t - {b}. br_payload_end b' \<le> br_header b \<or> br_payload_end b \<le> br_header b') \<and>
      (\<forall>x. x - p < 40 \<longrightarrow> gc_mem t x = 0))"
  by (rule malloc_internal_is_total
      [OF example_heap_inv example_can_collect example_finalizers(1) example_op_new])

text \<open>
  C16: The allocation does return when the request is well formed, \<open>::operator new\<close> finds
  memory and the byte counters do not overflow.
\<close>

theorem malloc_internal_succeeds:
  assumes "can_collect c s" "\<not> out_of_memory env" "n \<noteq> 0" "has_single_bit al"
    and "round_up_to_alignment sizeof_ChunkHeader (normalize_alignment al) = Some off"
    and "off \<le> 65535" "\<not> add_would_overflow off n"
    and "e_op_new env s (off + n) (normalize_alignment al) = Some raw"
    and "\<not> add_would_overflow (gc_managed_bytes s) n"
      "\<not> add_would_overflow (gc_reserved_bytes s) (off + n)"
  shows "\<exists>t. run (malloc_internal env c n al d constructing s) = (Done (raw + off), t)"
  by (rule malloc_succeeds) (use assms in \<open>simp_all add: can_collect_def\<close>)

theorem malloc_internal_succeeds_witness:
  "\<exists>t. run (malloc_internal example_env 1 40 64 (Some 3) True example_state) = (Done (0x100000 + 64), t)"
proof (rule malloc_internal_succeeds [OF example_can_collect example_not_starved])
  show "has_single_bit (64 :: size_t)" by code_simp
  show "round_up_to_alignment sizeof_ChunkHeader (normalize_alignment 64) = Some 64" by code_simp
  show "e_op_new example_env example_state (64 + 40) (normalize_alignment 64) = Some 0x100000"
    by (simp add: example_env_def example_state_def region_free_def normalize_alignment_def)
  show "\<not> add_would_overflow (gc_managed_bytes example_state) 40"
    "\<not> add_would_overflow (gc_reserved_bytes example_state) (64 + 40)"
    by (simp_all add: add_would_overflow_iff example_state_def)
qed (simp_all add: add_would_overflow_iff)

text \<open>
  C17: Giving back a block whose construction failed removes exactly that block, keeps the
  invariant, clears the weak references into it, and returns its memory with the alignment its
  header records; no finalizer runs.
\<close>

theorem release_unconstructed_takes_the_block_back:
  assumes "heap_inv s" "may_proceed c s" "thread_registered c s" "p \<noteq> 0"
    and "om_find p (gc_allocations s) = Some b"
  shows "\<exists>t. run (release_unconstructed env c p s) = (Done (), t) \<and> heap_inv t \<and>
    gc_allocations t = om_erase p (gc_allocations s) \<and>
    gc_regions t = filter (\<lambda>r. fst r \<noteq> br_header b) (gc_regions s) \<and>
    gc_events t = gc_events s @ [Freed (br_header b) (allocation_alignment (header_of s b))] \<and>
    gc_weak_refs t = weak_purge (br_payload_begin b) (br_payload_end b) (gc_weak_refs s)"
  using assms(5) release_unconstructed_result [OF assms(2-4), of env] release_unconstructed_inv [OF assms(1,5)]
  by (simp add: free_block_memory_def header_of_def)
    (simp add: unlinked_def invalidate_weak_refs_for_block_locked_def)

theorem release_unconstructed_takes_the_block_back_witness:
  "\<exists>t. run (release_unconstructed example_env 1 0x3020 example_state) = (Done (), t) \<and> heap_inv t \<and>
    gc_allocations t = om_erase 0x3020 (gc_allocations example_state) \<and>
    gc_regions t = filter (\<lambda>r. fst r \<noteq> br_header (example_block 0x3000)) (gc_regions example_state) \<and>
    gc_events t = gc_events example_state @
      [Freed (br_header (example_block 0x3000)) (allocation_alignment (header_of example_state (example_block 0x3000)))] \<and>
    gc_weak_refs t = weak_purge (br_payload_begin (example_block 0x3000)) (br_payload_end (example_block 0x3000))
      (gc_weak_refs example_state)"
proof (rule release_unconstructed_takes_the_block_back [OF example_heap_inv])
  show "may_proceed 1 example_state" "thread_registered 1 example_state"
    using example_can_collect by (simp_all add: can_collect_def)
  show "om_find 0x3020 (gc_allocations example_state) = Some (example_block 0x3000)"
    by (simp add: om_find_def example_state_def)
qed simp

text \<open>
  C18: Publishing a constructed block clears its construction flag and nothing else; an address
  that is not the start of a registered payload is reported as a logic error.
\<close>

theorem finish_construction_publishes:
  assumes "heap_inv s" "may_proceed c s"
  shows "case om_find p (gc_allocations s) of
      None \<Rightarrow> run (finish_construction env c p s) = (Threw (Logic_Error Unknown_Allocation), s)
    | Some b \<Rightarrow> \<exists>t. run (finish_construction env c p s) = (Done (), t) \<and> heap_inv t \<and>
        (\<forall>k. om_find k (gc_allocations t) =
          (if k = p then Some (b\<lparr>br_constructing := False\<rparr>) else om_find k (gc_allocations s)))"
proof -
  have wf: "om_wf (gc_allocations s)" using assms(1) by (simp add: heap_inv_def index_inv_om_wf)
  show ?thesis
    using finish_construction_result [OF assms(2), of env p] heap_inv_constructing [OF assms(1), of p False]
    by (auto simp: smap.find_adjust [OF wf] split: option.split)
qed

theorem finish_construction_publishes_witness:
  "case om_find 0x2020 (gc_allocations example_state) of
      None \<Rightarrow> run (finish_construction example_env 1 0x2020 example_state) =
        (Threw (Logic_Error Unknown_Allocation), example_state)
    | Some b \<Rightarrow> \<exists>t. run (finish_construction example_env 1 0x2020 example_state) = (Done (), t) \<and> heap_inv t \<and>
        (\<forall>k. om_find k (gc_allocations t) =
          (if k = 0x2020 then Some (b\<lparr>br_constructing := False\<rparr>) else om_find k (gc_allocations example_state)))"
  by (rule finish_construction_publishes [OF example_heap_inv])
    (use example_can_collect in \<open>simp add: can_collect_def\<close>)

text \<open>
  C19: Shutdown refuses to run while an object is under construction, gives up with the heap
  untouched when memory is short, and otherwise finalizes and then frees every block once, a block
  before those it refers to, cycles apart.
\<close>

theorem shutdown_on_every_branch:
  assumes "heap_inv s" "may_proceed c s" "\<not> gc_collecting s" "others_paused c s" "finalizers_return env"
  shows "if \<exists>b\<in>blocks s. br_constructing b
    then run (shutdown env c s) = (Threw (Logic_Error Shutdown_During_Construction), resumed s)
    else (out_of_memory env \<and> run (shutdown env c s) = (Threw Bad_Alloc, resumed s)) \<or>
      (\<exists>hs t. run (shutdown env c s) = (Done (), t) \<and> heap_inv t \<and> blocks t = {} \<and>
        mset hs = mset (map (br_header \<circ> snd) (gc_allocations s)) \<and> referrers_first s (blocks s) hs \<and>
        gc_events t = gc_events s @ finalizations s hs @ frees s hs \<and>
        gc_regions t = filter (\<lambda>r. fst r \<notin> set hs) (gc_regions s) \<and> gc_stats t = new_GCStats)"
proof -
  have i: "index_inv s" using assms(1) by (simp add: heap_inv_def)
  from i assms(2-5) show ?thesis
  proof (cases rule: shutdown_cases)
    case (returns hs t)
    then have "heap_inv t" "blocks t = {}"
      by (simp_all add: shut_down_def heap_inv_def index_inv_def accounting_def regions_ok_def
          blocks_apart_def blocks_def)
    with returns show ?thesis by (auto simp: shut_down_def)
  qed auto
qed

theorem shutdown_on_every_branch_witness:
  "if \<exists>b\<in>blocks example_state. br_constructing b
    then run (shutdown example_env 1 example_state) =
      (Threw (Logic_Error Shutdown_During_Construction), resumed example_state)
    else (out_of_memory example_env \<and> run (shutdown example_env 1 example_state) =
        (Threw Bad_Alloc, resumed example_state)) \<or>
      (\<exists>hs t. run (shutdown example_env 1 example_state) = (Done (), t) \<and> heap_inv t \<and> blocks t = {} \<and>
        mset hs = mset (map (br_header \<circ> snd) (gc_allocations example_state)) \<and>
        referrers_first example_state (blocks example_state) hs \<and>
        gc_events t = gc_events example_state @ finalizations example_state hs @ frees example_state hs \<and>
        gc_regions t = filter (\<lambda>r. fst r \<notin> set hs) (gc_regions example_state) \<and>
        gc_stats t = new_GCStats)"
  by (rule shutdown_on_every_branch [OF example_heap_inv _ _ _ example_finalizers(1)])
    (use example_can_collect in \<open>simp_all add: can_collect_def\<close>)

text \<open>
  C20: \<open>collect_if_needed\<close> collects exactly when the managed bytes together with the incoming
  ones, saturated at the largest size, reach the threshold and no collection is under way.
\<close>

theorem collect_if_needed_threshold:
  assumes "may_proceed c s" "thread_registered c s"
  shows "run (collect_if_needed env c n s) =
    (if \<not> gc_collecting s \<and>
        unat (gc_collection_threshold_bytes s) \<le> min (unat (gc_managed_bytes s) + unat n) (2 ^ 64 - 1)
     then run (collect env c s) else (Done (), s))"
  by (rule collect_if_needed_result [OF assms])

theorem collect_if_needed_threshold_witness:
  "run (collect_if_needed example_env 1 100 example_state) =
    (if \<not> gc_collecting example_state \<and>
        unat (gc_collection_threshold_bytes example_state) \<le>
          min (unat (gc_managed_bytes example_state) + unat (100 :: size_t)) (2 ^ 64 - 1)
     then run (collect example_env 1 example_state) else (Done (), example_state))"
  by (rule collect_if_needed_threshold) (use example_can_collect in \<open>simp_all add: can_collect_def\<close>)

section \<open>Lookup and scanning\<close>

text \<open>
  C21: The lookup finds the one block whose payload holds the address, interior addresses
  included and the address one past the end excluded.
\<close>

theorem find_block_is_exact:
  assumes "index_inv s"
  shows "(find_block_locked a s = Some b \<longleftrightarrow>
      b \<in> blocks s \<and> br_payload_begin b \<le> a \<and> a < br_payload_end b) \<and>
    (\<forall>b'\<in>blocks s. find_block_locked (br_payload_end b') s \<noteq> Some b') \<and>
    (find_block_locked a s = None \<longleftrightarrow> (\<forall>b'\<in>blocks s. \<not> (br_payload_begin b' \<le> a \<and> a < br_payload_end b')))"
  using alloc_index.lookup_None [OF assms, of a] alloc_index.lookup_one_past [OF assms] find_block_iff [OF assms]
  by (auto simp: not_less)

theorem find_block_is_exact_witness:
  "find_block_locked 0x2024 example_state = Some (example_block 0x2000) \<and>
    find_block_locked 0x2030 example_state \<noteq> Some (example_block 0x2000)"
  using find_block_is_exact [OF example_index_inv, of "0x2024" "example_block 0x2000"]
    find_block_is_exact [OF example_index_inv, of "0x2030" "example_block 0x2000"]
  by (simp add: blocks_def example_defs)

text \<open>
  C22: A range scan visits, in increasing order and whichever end is given first, exactly the
  complete words at aligned addresses in the range. It never wraps around.
\<close>

theorem scan_words_visits_aligned_words:
  assumes "b \<noteq> 0" "e \<noteq> 0"
  shows "\<exists>as. (\<forall>m v st. scan_words m b e v st = fold v (map (load_word m) as) st) \<and>
    sorted_wrt (<) as \<and>
    (\<forall>a. a \<in> set as \<longleftrightarrow> unat a mod 8 = 0 \<and> unat (min b e) \<le> unat a \<and> unat a + 8 \<le> unat (max b e))"
  by (intro exI [of _ "word_addrs b e"] conjI allI scan_words_fold sorted_word_addrs set_word_addrs [OF assms])

theorem scan_words_visits_aligned_words_witness:
  "\<exists>as. (\<forall>m v st. scan_words m 0x513 0x500 v st = fold v (map (load_word m) as) (st :: nat)) \<and>
    sorted_wrt (<) as \<and>
    (\<forall>a. a \<in> set as \<longleftrightarrow> unat a mod 8 = 0 \<and> unat (min (0x513 :: addr) 0x500) \<le> unat a \<and>
      unat a + 8 \<le> unat (max (0x513 :: addr) 0x500))"
  by (rule scan_words_visits_aligned_words) simp_all

section \<open>Weak references\<close>

text \<open>
  C23: A weak reference to a managed address reads as its target until it is unregistered, then
  as null; other weak references are not affected.
\<close>

theorem weak_reference_round_trip:
  assumes "may_proceed c s" "storage \<noteq> 0" "\<not> out_of_memory env" "weak_inv (gc_weak_refs s)"
    and "weak_lookup storage (gc_weak_refs s) = None" "find_block_locked target s = Some b"
  shows "\<exists>t. run (register_weak_ref env c target storage s) = (Done (), t) \<and> weak_inv (gc_weak_refs t) \<and>
    run (read_weak_ref env c storage t) = (Done target, t) \<and>
    (\<exists>u. run (unregister_weak_ref env c storage t) = (Done (), u) \<and>
      run (read_weak_ref env c storage u) = (Done 0, u) \<and>
      (\<forall>st. weak_lookup st (gc_weak_refs u) = weak_lookup st (gc_weak_refs s)))"
proof -
  let ?t = "s\<lparr>gc_weak_refs := weak_add target storage (gc_weak_refs s)\<rparr>"
  let ?u = "?t\<lparr>gc_weak_refs := weak_remove storage (gc_weak_refs ?t)\<rparr>"
  have mp: "may_proceed c ?t" "may_proceed c ?u" using assms(1) by (simp_all add: may_proceed_def)
  have inv: "weak_inv (gc_weak_refs ?t)" using wtab.invar_add [OF assms(4,5)] by simp
  have "run (register_weak_ref env c target storage s) = (Done (), ?t)"
    using assms by (simp add: register_weak_ref_def prog_simps out_of_memory_def)
  moreover have "run (unregister_weak_ref env c storage ?t) = (Done (), ?u)"
    using mp by (simp add: unregister_weak_ref_def prog_simps)
  moreover have "run (read_weak_ref env c storage ?t) = (Done target, ?t)"
    using mp wtab.lookup_add [OF assms(4,5)] by (simp add: read_weak_ref_def prog_simps)
  moreover have "run (read_weak_ref env c storage ?u) = (Done 0, ?u)"
    using mp wtab.lookup_remove [OF inv] by (simp add: read_weak_ref_def prog_simps)
  moreover have "weak_lookup st (gc_weak_refs ?u) = weak_lookup st (gc_weak_refs s)" for st
    using wtab.add_remove [OF assms(4,5)] by simp
  ultimately show ?thesis using inv by blast
qed

theorem weak_reference_round_trip_witness:
  "\<exists>t. run (register_weak_ref example_env 1 0x2024 0x700 example_state) = (Done (), t) \<and> weak_inv (gc_weak_refs t) \<and>
    run (read_weak_ref example_env 1 0x700 t) = (Done 0x2024, t) \<and>
    (\<exists>u. run (unregister_weak_ref example_env 1 0x700 t) = (Done (), u) \<and>
      run (read_weak_ref example_env 1 0x700 u) = (Done 0, u) \<and>
      (\<forall>st. weak_lookup st (gc_weak_refs u) = weak_lookup st (gc_weak_refs example_state)))"
  by (rule weak_reference_round_trip [OF _ _ example_not_starved _ _ example_find(2)])
    (use example_can_collect in \<open>simp_all add: can_collect_def example_state_def weak_inv_def weak_lookup_Cons\<close>)

text \<open>
  C24: Moving a weak handle carries the entry and the encoded word to the new storage and nulls
  the old one; copying one gives a second entry with the same target.
\<close>

theorem weak_reference_move_and_copy:
  assumes "may_proceed c s" "\<not> out_of_memory env" "weak_inv (gc_weak_refs s)"
    and "weak_lookup old (gc_weak_refs s) = Some target" "weak_lookup new (gc_weak_refs s) = None"
    and "word_size \<le> new - old" "word_size \<le> old - new"
  shows "(\<exists>t. run (update_weak_ref env c old new s) = (Done (), t) \<and> weak_inv (gc_weak_refs t) \<and>
      (\<forall>st. weak_lookup st (gc_weak_refs t) =
        (if st = new then Some target else if st = old then None else weak_lookup st (gc_weak_refs s))) \<and>
      load_word (gc_mem t) new = load_word (gc_mem s) old \<and> load_word (gc_mem t) old = 0) \<and>
    (\<exists>t. run (copy_weak_ref env c old new s) = (Done (), t) \<and> weak_inv (gc_weak_refs t) \<and>
      (\<forall>st. weak_lookup st (gc_weak_refs t) =
        (if st = new then Some target else weak_lookup st (gc_weak_refs s))) \<and>
      load_word (gc_mem t) new = load_word (gc_mem s) old \<and>
      load_word (gc_mem t) old = load_word (gc_mem s) old)"
proof -
  have "weak_index old (gc_weak_refs s) < length (gc_weak_refs s)"
    using assms(4) by (simp add: weak_index_None)
  then show ?thesis
    using assms wtab.invar_add wtab.lookup_add wtab.lookup_move wtab.invar_move
    by (simp add: update_weak_ref_def copy_weak_ref_def prog_simps load_store_apart out_of_memory_def Let_def)
qed

theorem weak_reference_move_and_copy_witness:
  "(\<exists>t. run (update_weak_ref example_env 1 0x600 0x700 example_state) = (Done (), t) \<and> weak_inv (gc_weak_refs t) \<and>
      (\<forall>st. weak_lookup st (gc_weak_refs t) =
        (if st = 0x700 then Some 0x3020 else if st = 0x600 then None
         else weak_lookup st (gc_weak_refs example_state))) \<and>
      load_word (gc_mem t) 0x700 = load_word (gc_mem example_state) 0x600 \<and> load_word (gc_mem t) 0x600 = 0) \<and>
    (\<exists>t. run (copy_weak_ref example_env 1 0x600 0x700 example_state) = (Done (), t) \<and> weak_inv (gc_weak_refs t) \<and>
      (\<forall>st. weak_lookup st (gc_weak_refs t) =
        (if st = 0x700 then Some 0x3020 else weak_lookup st (gc_weak_refs example_state))) \<and>
      load_word (gc_mem t) 0x700 = load_word (gc_mem example_state) 0x600 \<and>
      load_word (gc_mem t) 0x600 = load_word (gc_mem example_state) 0x600)"
  by (rule weak_reference_move_and_copy [OF _ example_not_starved])
    (use example_can_collect in \<open>simp_all add: can_collect_def example_state_def weak_inv_def weak_lookup_Cons\<close>)

section \<open>Threads\<close>



text \<open>
  C26: Registering a thread makes it registered and no other thread changes; unregistering it
  takes it out again.
\<close>

theorem thread_registration_round_trip:
  assumes "may_proceed c s" "\<not> out_of_memory env" "bottom \<noteq> 0" "om_wf (gc_threads s)"
  shows "\<exists>t. run (register_stack_bottom env c bottom s) = (Done (), t) \<and> om_wf (gc_threads t) \<and>
    thread_registered c t \<and> (\<forall>k. k \<noteq> c \<longrightarrow> om_find k (gc_threads t) = om_find k (gc_threads s)) \<and>
    run (is_current_thread_registered env c t) = (Done True, t) \<and>
    (\<exists>u. run (unregister_current_thread env c t) = (Done (), u) \<and> \<not> thread_registered c u \<and>
      (\<forall>k. k \<noteq> c \<longrightarrow> om_find k (gc_threads u) = om_find k (gc_threads s)))"
proof -
  let ?m = "om_emplace c new_ThreadState (gc_threads s)"
  let ?t = "s\<lparr>gc_threads := om_adjust c (\<lambda>ts. ts\<lparr>ts_stack_bottom := bottom\<rparr>) ?m\<rparr>"
  let ?u = "s\<lparr>gc_threads := om_erase c (gc_threads ?t)\<rparr>"
  have wf: "om_wf ?m" "om_wf (gc_threads ?t)"
    using assms(4) by (simp_all add: smap.invar_emplace smap.invar_adjust)
  have mp: "may_proceed c ?t" using assms(1) by (simp add: may_proceed_def)
  have reg: "thread_registered c ?t"
    using assms(3) by (auto simp: thread_registered_def find_thread_state_locked_def
        smap.find_adjust [OF wf(1)] smap.find_emplace [OF assms(4)] split: option.split)
  have "om_find k (gc_threads ?t) = om_find k (gc_threads s)" if "k \<noteq> c" for k
    using that by (simp add: smap.find_adjust [OF wf(1)] smap.find_emplace [OF assms(4)])
  moreover have "om_find k (gc_threads ?u) = (if k = c then None else om_find k (gc_threads ?t))" for k
    using smap.find_erase [OF wf(2)] by simp
  moreover have "run (register_stack_bottom env c bottom s) = (Done (), ?t)"
    using assms by (simp add: register_stack_bottom_def prog_simps out_of_memory_def)
  ultimately show ?thesis
    using wf(2) reg mp
    by (intro exI [of _ ?t])
      (simp add: is_current_thread_registered_def unregister_current_thread_def prog_simps
        thread_registered_def find_thread_state_locked_def)
qed

theorem thread_registration_round_trip_witness:
  "\<exists>t. run (register_stack_bottom example_env 5 0x9000 example_state) = (Done (), t) \<and> om_wf (gc_threads t) \<and>
    thread_registered 5 t \<and>
    (\<forall>k. k \<noteq> 5 \<longrightarrow> om_find k (gc_threads t) = om_find k (gc_threads example_state)) \<and>
    run (is_current_thread_registered example_env 5 t) = (Done True, t) \<and>
    (\<exists>u. run (unregister_current_thread example_env 5 t) = (Done (), u) \<and> \<not> thread_registered 5 u \<and>
      (\<forall>k. k \<noteq> 5 \<longrightarrow> om_find k (gc_threads u) = om_find k (gc_threads example_state)))"
  by (rule thread_registration_round_trip [OF _ example_not_starved])
    (simp_all add: may_proceed_def example_state_def new_gc_state_def om_wf_def)

section \<open>Diagnostics\<close>

text \<open>
  C27: The snapshot of live objects lists every block in address order with its size and, without
  repetition, the payloads of exactly the other blocks its payload refers to.
\<close>

theorem live_objects_describes_the_heap:
  assumes "index_inv s" "may_proceed c s" "\<not> gc_collecting s" "others_paused c s" "\<not> out_of_memory env"
  shows "\<exists>infos. run (live_objects env c s) = (Done infos, resumed s) \<and>
    map ho_payload infos = map fst (gc_allocations s) \<and>
    list_all2 (\<lambda>b info. ho_payload_size info = br_payload_end b - br_payload_begin b \<and>
        distinct (ho_outgoing_references info) \<and>
        set (ho_outgoing_references info) = br_payload_begin ` (refs s b - {b}))
      (map snd (gc_allocations s)) infos"
proof -
  from live_objects_result [OF assms(1-4)] assms(5) obtain infos where
    r: "run (live_objects env c s) = (Done infos, resumed s)"
    "list_all2 (describes s) (map snd (gc_allocations s)) infos" by (auto simp: out_of_memory_def)
  have "list_all2 (\<lambda>b info. ho_payload info = br_payload_begin b) (map snd (gc_allocations s)) infos"
    by (rule list_all2_mono [OF r(2)]) (simp add: describes_def)
  then have "map ho_payload infos = map br_payload_begin (map snd (gc_allocations s))"
    by (simp add: list_all2_conv_all_nth list_eq_iff_nth_eq)
  also have "\<dots> = map fst (gc_allocations s)" using block_fst [OF assms(1)] by auto
  finally show ?thesis
    using r list_all2_mono [OF r(2), of "\<lambda>b info. ho_payload_size info = br_payload_end b - br_payload_begin b \<and>
        distinct (ho_outgoing_references info) \<and>
        set (ho_outgoing_references info) = br_payload_begin ` (refs s b - {b})"]
    by (simp add: describes_def)
qed

theorem live_objects_describes_the_heap_witness:
  "\<exists>infos. run (live_objects example_env 1 example_state) = (Done infos, resumed example_state) \<and>
    map ho_payload infos = map fst (gc_allocations example_state) \<and>
    list_all2 (\<lambda>b info. ho_payload_size info = br_payload_end b - br_payload_begin b \<and>
        distinct (ho_outgoing_references info) \<and>
        set (ho_outgoing_references info) = br_payload_begin ` (refs example_state b - {b}))
      (map snd (gc_allocations example_state)) infos"
  by (rule live_objects_describes_the_heap [OF example_index_inv _ _ _ example_not_starved])
    (use example_can_collect in \<open>simp_all add: can_collect_def\<close>)



text \<open>
  C29: \<open>is_live\<close> and \<open>object_info\<close> agree with each other and with the payload intervals.
\<close>

theorem is_live_and_object_info_agree:
  assumes "index_inv s" "may_proceed c s" "\<not> gc_collecting s" "others_paused c s"
    "\<not> out_of_memory env" "p \<noteq> 0"
  shows "(\<forall>b\<in>blocks s. \<not> (br_payload_begin b \<le> p \<and> p < br_payload_end b)) \<and>
      run (is_live env c p s) = (Done False, s) \<and> run (object_info env c p s) = (Done None, resumed s) \<or>
    (\<exists>b info. b \<in> blocks s \<and> br_payload_begin b \<le> p \<and> p < br_payload_end b \<and>
      run (is_live env c p s) = (Done True, s) \<and>
      run (object_info env c p s) = (Done (Some info), resumed s) \<and> describes s b info)"
  using object_info_result [OF assms(1-4), of env p] assms(2,5,6) find_block_iff [OF assms(1), of p]
  by (cases "find_block_locked p s")
    (auto simp: is_live_def prog_simps out_of_memory_def)

theorem is_live_and_object_info_agree_witness:
  "(\<forall>b\<in>blocks example_state. \<not> (br_payload_begin b \<le> 0x2024 \<and> 0x2024 < br_payload_end b)) \<and>
      run (is_live example_env 1 0x2024 example_state) = (Done False, example_state) \<and>
      run (object_info example_env 1 0x2024 example_state) = (Done None, resumed example_state) \<or>
    (\<exists>b info. b \<in> blocks example_state \<and> br_payload_begin b \<le> 0x2024 \<and> 0x2024 < br_payload_end b \<and>
      run (is_live example_env 1 0x2024 example_state) = (Done True, example_state) \<and>
      run (object_info example_env 1 0x2024 example_state) = (Done (Some info), resumed example_state) \<and>
      describes example_state b info)"
  by (rule is_live_and_object_info_agree [OF example_index_inv _ _ _ example_not_starved])
    (use example_can_collect in \<open>simp_all add: can_collect_def\<close>)

section \<open>Arithmetic and boundaries\<close>

text \<open>
  C30: Rounding up gives the least multiple of a power of two that is not below the value, and
  fails exactly on an alignment that is no power of two or when the sum overflows.
\<close>

theorem round_up_to_alignment_is_the_least_multiple:
  "case round_up_to_alignment v a of
     None \<Rightarrow> \<not> has_single_bit a \<or> 2 ^ 64 \<le> unat v + unat a - 1
   | Some r \<Rightarrow> has_single_bit a \<and> unat a dvd unat r \<and> unat v \<le> unat r \<and>
       (\<forall>m. unat a dvd m \<longrightarrow> unat v \<le> m \<longrightarrow> unat r \<le> m)"
proof (cases "round_up_to_alignment v a")
  case None
  have "unat (a - 1) = unat a - 1" if "a \<noteq> 0" using that by (rule unat_minus_one)
  moreover have "0 < unat a" if "a \<noteq> 0" using that by (simp add: unat_gt_0)
  ultimately have "\<not> has_single_bit a \<or> 2 ^ 64 \<le> unat v + unat a - 1"
    using None and_pred_zero_iff [of a]
    by (auto simp: round_up_to_alignment_def add_would_overflow_iff split: if_splits)
  with None show ?thesis by simp
next
  case (Some r)
  note s = round_up_to_alignment_Some [OF Some]
  have "unat r \<le> m" if m: "unat a dvd m" "unat v \<le> m" for m
  proof (rule ccontr)
    assume "\<not> unat r \<le> m"
    moreover from this have "unat a \<le> unat r - m"
      using s(4) m(1) by (intro dvd_imp_le) (simp_all add: dvd_diff_nat)
    ultimately show False using s(3) m(2) by linarith
  qed
  with Some s show ?thesis by simp
qed

theorem round_up_to_alignment_is_the_least_multiple_witness:
  "round_up_to_alignment 33 16 = Some 48 \<and> has_single_bit (16 :: size_t) \<and>
    unat (16 :: size_t) dvd unat (48 :: size_t) \<and> unat (33 :: size_t) \<le> unat (48 :: size_t)"
proof -
  have "round_up_to_alignment 33 16 = Some 48" by code_simp
  with round_up_to_alignment_is_the_least_multiple [where v = 33 and a = 16] show ?thesis by simp
qed

text \<open>
  C31: The payload loop ends for every well-formed block after one turn per complete word, and
  reads inside the payload only.
\<close>

theorem payload_loop_ends_in_the_lower_half:
  assumes "block_ok H (k, b)"
  shows "\<exists>cs. payload_cursors (br_payload_begin b) (br_payload_end b) = Some cs \<and>
    length cs = unat (ch_size (H (br_header b))) div 8 \<and>
    (\<forall>c\<in>set cs. br_payload_begin b \<le> c \<and> unat c + 8 \<le> unat (br_payload_end b))"
proof -
  have e: "unat (br_payload_end b) = unat (br_payload_begin b) + unat (ch_size (H (br_header b)))"
    "unat (br_payload_end b) \<le> 2 ^ 63"
    using assms by (auto simp: block_ok_def Let_def)
  let ?n = "unat (ch_size (H (br_header b))) div 8"
  have "payload_cursors (br_payload_begin b) (br_payload_end b) =
      Some (map (\<lambda>i. br_payload_begin b + 8 * of_nat i) [0..<?n])"
    using payload_cursors_Some [of "br_payload_begin b" "br_payload_end b"] e by simp
  moreover have "unat (br_payload_begin b + 8 * of_nat i) = unat (br_payload_begin b) + 8 * i" if "i < ?n" for i
  proof -
    have "8 * i < unat (ch_size (H (br_header b)))" using that by linarith
    then have "unat (br_payload_begin b) + 8 * i < 2 ^ 64"
      using e(1) unat_less_64 [of "br_payload_end b"] by linarith
    then show ?thesis by (simp add: unat_word_ariths unat_of_nat mod_add_right_eq)
  qed
  ultimately show ?thesis using e by (fastforce simp: word_le_nat_alt)
qed

theorem payload_loop_ends_in_the_lower_half_witness:
  "\<exists>cs. payload_cursors (br_payload_begin (example_block 0x1000)) (br_payload_end (example_block 0x1000)) = Some cs \<and>
    length cs = unat (ch_size (gc_headers example_state (br_header (example_block 0x1000)))) div 8 \<and>
    (\<forall>c\<in>set cs. br_payload_begin (example_block 0x1000) \<le> c \<and>
      unat c + 8 \<le> unat (br_payload_end (example_block 0x1000)))"
  by (rule payload_loop_ends_in_the_lower_half [where k = "0x1020", OF index_inv_block_ok [OF example_index_inv]])
    (simp add: example_state_def)

text \<open>
  C32: The payload loop compares a sum that wraps: for a payload that ends at the largest address
  it never ends. Well-formed blocks end in the lower half of the address space.
\<close>

theorem payload_loop_wraps_at_the_top:
  "payload_cursors c size_max = None"
proof -
  have "length cs \<noteq> n" if "payload_cursors c size_max = Some cs" for c cs n
    using that
  proof (induction n arbitrary: c cs)
    case 0
    then show ?case by (subst (asm) payload_cursors.simps) (auto split: Option.bind_splits)
  next
    case (Suc n)
    then obtain cs' where "payload_cursors (c + 8) size_max = Some cs'" "cs = c # cs'"
      by (subst (asm) (2) payload_cursors.simps) (auto split: Option.bind_splits)
    with Suc.IH show ?case by simp
  qed
  then show ?thesis by (cases "payload_cursors c size_max") auto
qed

section \<open>Object and array construction\<close>

text \<open>
  C33: \<open>gc_new\<close> has three outcomes. It throws \<open>std::bad_alloc\<close> before the constructor runs; or the
  constructor throws, the same exception goes on and the block is taken back; or it returns a
  published, aligned block of the size of the object. The heap invariant holds in each case. The
  \<open>noexcept\<close> variant returns null instead of throwing.
\<close>

theorem gc_new_publishes_or_takes_back:
  assumes "heap_inv s" "can_collect c s" "finalizers_return env" "op_new_ok env" "constructor_ok c construct"
  shows "\<exists>r t. run (gc_new env c n al d construct s) = (r, t) \<and> heap_inv t \<and>
    (r = Threw Bad_Alloc \<or>
     (\<exists>p x u v. run (construct p u) = (Threw x, v) \<and> r = Threw x \<and> om_find p (gc_allocations t) = None) \<or>
     (\<exists>p b. r = Done (Gc_Ptr p) \<and> om_find p (gc_allocations t) = Some b \<and> \<not> br_constructing b \<and>
        unat (br_payload_end b) = unat p + unat n \<and> unat al dvd unat p)) \<and>
    run (gc_new_nothrow env c n al d construct s) = (case r of Threw x \<Rightarrow> Done null_ptr | _ \<Rightarrow> r, t)"
  using assms
proof (cases rule: gc_new_cases [where n = n and al = al and d = d])
  case (no_memory t)
  then show ?thesis by (simp add: gc_new_nothrow_def or_null_def run_catchp run_leaf)
next
  case (failed p u v x t)
  then show ?thesis by (auto simp: gc_new_nothrow_def or_null_def run_catchp run_leaf)
next
  case (returns p b t)
  then show ?thesis by (simp add: gc_new_nothrow_def or_null_def run_catchp run_leaf)
qed

theorem gc_new_publishes_or_takes_back_witness:
  "\<exists>r t. run (gc_new example_env 1 16 8 3 (\<lambda>p s. (Throw (User_Exn 7), s)) example_state) = (r, t) \<and> heap_inv t \<and>
    (r = Threw Bad_Alloc \<or>
     (\<exists>p x u v. run ((\<lambda>p s. (Throw (User_Exn 7), s :: gc_state)) (p :: addr) u) = (Threw x :: unit outcome, v) \<and>
        r = Threw x \<and> om_find p (gc_allocations t) = None) \<or>
     (\<exists>p b. r = Done (Gc_Ptr p) \<and> om_find p (gc_allocations t) = Some b \<and> \<not> br_constructing b \<and>
        unat (br_payload_end b) = unat p + unat (16 :: size_t) \<and> unat (8 :: size_t) dvd unat p)) \<and>
    run (gc_new_nothrow example_env 1 16 8 3 (\<lambda>p s. (Throw (User_Exn 7), s)) example_state) =
      (case r of Threw x \<Rightarrow> Done null_ptr | _ \<Rightarrow> r, t)"
  by (rule gc_new_publishes_or_takes_back
      [OF example_heap_inv example_can_collect example_finalizers(1) example_op_new])
    (simp add: constructor_ok_def run_leaf)



section \<open>Handles\<close>

text \<open>
  C35: Any program of operations on weak handles refines the abstract table of live handles and
  targets: every operation returns, the words of the handles and the table of the manager agree
  with it afterwards, \<open>lock\<close> gives the target of a handle or null, and \<open>expired\<close> says which.
\<close>

theorem weak_handles_refine_the_table:
  assumes "handles_sim a s" "spec_ops (managed_addr s) xs a = Some (H, m)" "may_proceed c s" "\<not> out_of_memory env"
  shows "\<exists>t. run (weak_execs env c xs s) = (Done (), t) \<and> handles_sim (H, m) t \<and> handle_frame s t \<and>
    run (weak_ptr_lock env c h t) = (Done (case m h of None \<Rightarrow> null_ptr | Some tg \<Rightarrow> Gc_Ptr tg), t) \<and>
    run (weak_ptr_expired env c h t) = (Done (m h = None), t)"
proof -
  from weak_execs_refine [OF assms] obtain t where t: "run (weak_execs env c xs s) = (Done (), t)"
    "handle_frame s t" "handles_sim (H, m) t" by blast
  have "may_proceed c t" using handle_frame_keeps [OF t(2)] assms(3) by simp
  from weak_ptr_lock_result [OF t(3) this] t show ?thesis by blast
qed

theorem weak_handles_refine_the_table_witness:
  "\<exists>t. run (weak_execs example_env 1 [New_From 0x700 (Gc_Ptr 0x2024), New_Copy 0x710 0x700, Destroy 0x700] bare_state) =
      (Done (), t) \<and> handles_sim ({0x710}, (\<lambda>_. None)(0x710 := Some 0x2024)) t \<and> handle_frame bare_state t \<and>
    run (weak_ptr_lock example_env 1 0x710 t) =
      (Done (case ((\<lambda>_. None)(0x710 := Some 0x2024)) (0x710 :: addr) of None \<Rightarrow> null_ptr | Some tg \<Rightarrow> Gc_Ptr tg), t) \<and>
    run (weak_ptr_expired example_env 1 0x710 t) = (Done (((\<lambda>_. None)(0x710 := Some (0x2024 :: addr))) (0x710 :: addr) = None), t)"
  by (rule weak_handles_refine_the_table [OF bare_handles _ bare_state_run example_not_starved])
    (simp add: fresh_handle_def word_apart_def spec_target_def managed_addr_def bare_find example_find fun_eq_iff
      insert_Diff_if)

text \<open>
  C36: A weak handle is not a root: the word that a handle to a managed object holds is in no
  payload, so the conservative scan of that word keeps nothing alive.
\<close>

theorem weak_handles_are_not_roots:
  assumes "heap_inv s" "handles_sim (H, m) s" "m h = Some tg" "find_block_locked tg s = Some b"
  shows "decode_weak_ptr (get_word h s) = tg \<and> find_block_locked (get_word h s) s = None"
proof -
  have h: "h \<in> H" "tg \<noteq> 0" using handles_simD(4,5) [OF assms(2)] assms(3) by (auto simp: ran_def)
  then have w: "get_word h s = encode_weak_ptr tg" using handles_simD(6) [OF assms(2) h(1)] assms(3) by simp
  have inv: "index_inv s" using assms(1) by (simp add: heap_inv_def)
  have top: "unat (br_payload_end b) \<le> 2 ^ 63" if "b \<in> blocks s" for b
    using that index_inv_block_ok [OF inv] by (auto simp: blocks_def block_ok_def Let_def)
  have "unat tg \<le> 2 ^ 63"
    using assms(4) top [of b] alloc_index.lookup_iff [OF inv] by (auto simp: word_less_nat_alt)
  then have "2 ^ 63 \<le> unat (encode_weak_ptr tg)" by (rule encoded_in_upper_half [OF h(2)])
  then have "find_block_locked (encode_weak_ptr tg) s = None"
    unfolding alloc_index.lookup_None [OF inv] using top by (fastforce simp: word_le_nat_alt)
  with w show ?thesis by simp
qed

theorem weak_handles_are_not_roots_witness:
  "decode_weak_ptr (get_word 0x600 handle_state) = 0x3020 \<and> find_block_locked (get_word 0x600 handle_state) handle_state = None"
  by (rule weak_handles_are_not_roots [OF handle_state_heap_inv handle_state_sim _ handle_state_find]) simp

text \<open>
  C37: A \<open>gc_root\<close> keeps its target: once it is constructed over a pointer into a block, at the
  start or inside, the block is reachable, no collection removes it, and the destructor takes the
  root out of the tables again, leaving every other root as it was.
\<close>

theorem gc_root_keeps_its_target:
  assumes "heap_inv s" "can_collect c s" "finalizers_return env" "\<not> out_of_memory env"
    "roots_sim base m s" "fresh_root m this" "find_block_locked (raw_ptr p) s = Some b"
  shows "\<exists>t. run (gc_root_from_ptr env c this p s) = (Done (), t) \<and> roots_sim base (m(this \<mapsto> raw_ptr p)) t \<and>
    b \<in> reachable env c t \<and>
    (\<exists>r u. run (collect env c t) = (r, u) \<and> (r = Done () \<or> r = Threw Bad_Alloc) \<and>
       (br_payload_begin b, b) \<in> set (gc_allocations u)) \<and>
    (\<exists>v. run (gc_root_destroy env c this t) = (Done (), v) \<and> roots_sim base m v)"
proof -
  have mp: "may_proceed c s" using assms(2) by (simp add: can_collect_def)
  from root_construct(2) [OF assms(5,6) mp, of env "raw_ptr p"] assms(4) obtain t where t:
    "run (gc_root_from_ptr env c this p s) = (Done (), t)" "root_frame s t" "roots_sim base (m(this \<mapsto> raw_ptr p)) t"
    by (auto simp: gc_root_from_ptr_def gc_ptr_get_def out_of_memory_def)
  note k = root_frame_keeps [OF t(2)]
  have b: "b \<in> reachable env c t" by (rule rooted_reachable [OF t(3), of this "raw_ptr p"]) (use k(2) assms(7) in simp_all)
  have "m(this := None) = m" using fresh_root_not_live [OF assms(6)] by (auto simp: fun_upd_idem domIff)
  then have "\<exists>v. run (gc_root_destroy env c this t) = (Done (), v) \<and> roots_sim base m v"
    using root_destroy [OF t(3), of this c env] mp k(1) by auto
  moreover have "heap_inv t" "can_collect c t" using k assms(1,2) by simp_all
  ultimately show ?thesis using t(1,3) b collect_keeps_reachable [OF _ _ assms(3) b] by blast
qed

theorem gc_root_keeps_its_target_witness:
  "\<exists>t. run (gc_root_from_ptr example_env 1 0x700 (Gc_Ptr 0x2024) bare_state) = (Done (), t) \<and>
    roots_sim {#} [0x700 \<mapsto> raw_ptr (Gc_Ptr 0x2024)] t \<and>
    example_block 0x2000 \<in> reachable example_env 1 t \<and>
    (\<exists>r u. run (collect example_env 1 t) = (r, u) \<and> (r = Done () \<or> r = Threw Bad_Alloc) \<and>
       (br_payload_begin (example_block 0x2000), example_block 0x2000) \<in> set (gc_allocations u)) \<and>
    (\<exists>v. run (gc_root_destroy example_env 1 0x700 t) = (Done (), v) \<and> roots_sim {#} Map.empty v)"
  by (rule gc_root_keeps_its_target
      [OF bare_heap_inv bare_can_collect example_finalizers(1) example_not_starved bare_roots])
    (simp_all add: fresh_root_def root_slot_def bare_find example_find)





text \<open>
  C40: The Windows scan of the globals ends, whatever regions the system reports, as long as the
  region it reports holds the address asked for. It visits the words of the scannable regions
  among those, and no address is skipped as long as the system reports regions.
\<close>

theorem windows_scan_ends_and_skips_nothing:
  assumes "reports_regions vq"
  shows "\<exists>rs. (\<forall>v st. scan_globals_windows vq m v st = Some (fold v (concat (map (region_words m) rs)) st)) \<and>
    (\<forall>r\<in>set rs. \<exists>b. vq b = Some r) \<and>
    (\<forall>x. (\<forall>y\<le>x. vq y \<noteq> None) \<longrightarrow>
      (\<exists>r\<in>set rs. BaseAddress r \<le> x \<and> unat x < unat (BaseAddress r) + unat (RegionSize r)))"
  using windows_scan_from [OF assms, of m 0] by (simp add: scan_globals_windows_def)

theorem windows_scan_ends_and_skips_nothing_witness:
  "\<exists>rs. (\<exists>r\<in>set rs. BaseAddress r \<le> 0x2FFF \<and> unat (0x2FFF :: addr) < unat (BaseAddress r) + unat (RegionSize r)) \<and>
    (\<forall>v st. scan_globals_windows
        (\<lambda>a. if a < 0x3000 then Some \<lparr>BaseAddress = 0, RegionSize = 0x3000, State = 0x1000,
           Protect = 0x04, Type = 0x1000000\<rparr> else None) (\<lambda>_. 0) v st =
      Some (fold v (concat (map (region_words (\<lambda>_. 0)) rs)) st))"
    (is "\<exists>rs. ?covers rs \<and> (\<forall>v st. scan_globals_windows ?vq _ v st = _ rs v st)")
proof -
  have "reports_regions ?vq" by (simp add: reports_regions_def word_less_nat_alt)
  moreover have "\<forall>y\<le>0x2FFF. ?vq y \<noteq> None" by (simp add: word_le_nat_alt word_less_nat_alt)
  ultimately show ?thesis
    using windows_scan_ends_and_skips_nothing [of ?vq "\<lambda>_. 0"] by blast
qed

end
